(* ===== verification/Prelude.thy ===== *)
theory Prelude
  imports
    Complex_Main
    "HOL-Library.Word"
    "HOL-Library.AList"
    "HOL-Library.Sublist"
begin

text \<open>
  Shared ground of the development: the names of the Go types the model uses, the part of
  Go's standard library the sources call (\<^verbatim>\<open>strings\<close>, \<^verbatim>\<open>strconv\<close>, \<^verbatim>\<open>path/filepath\<close>,
  \<^verbatim>\<open>time\<close>), results with errors as values, and the generic lemmas the components share.

  Conventions.
  \<^item> A Go \<^verbatim>\<open>string\<close> or \<^verbatim>\<open>[]byte\<close> is a \<^typ>\<open>string\<close>: a list of bytes.
  \<^item> A \<^verbatim>\<open>uint64\<close> is a \<open>64 word\<close>: \<open>+\<close> wraps as it does in Go.
  \<^item> A Go \<^verbatim>\<open>int\<close> that counts points or bytes is an \<^typ>\<open>int\<close>: the values are bounded by
    the memory of the process and never reach the width of the type.
  \<^item> A \<^verbatim>\<open>time.Time\<close> is an \<^typ>\<open>int\<close>: nanoseconds since the zero \<^verbatim>\<open>Time\<close>
    (January 1, year 1, UTC), so that \<^verbatim>\<open>IsZero\<close> is \<open>t = 0\<close> and \<^verbatim>\<open>UTC()\<close> is the identity
    on instants. A \<^verbatim>\<open>time.Duration\<close> is an \<^typ>\<open>int\<close> of nanoseconds whose saturation and
    wrap-around at 64 bits are written out.
  \<^item> A \<^verbatim>\<open>float64\<close> is a \<^typ>\<open>real\<close>: rounding, infinities and the sign of zero are not modelled.
  \<^item> A function that may fail returns \<open>'e + 'a\<close>, with \<^const>\<open>Inl\<close> for the error; a method
    that mutates its receiver returns the new receiver beside its result.
\<close>

type_synonym uint64 = "64 word"
type_synonym gotime = int
type_synonym duration = int
type_synonym float64 = real
type_synonym ('s, 'e, 'a) gomethod = "'s \<Rightarrow> ('e + 'a) \<times> 's"

named_theorems go_simps \<open>unfolding rules of the standard-library model\<close>
named_theorems view_simps \<open>what an operation does to the abstract view of its state\<close>
named_theorems inv_intros \<open>preservation of a component's invariant, operation by operation\<close>

section \<open>Results and sequencing of fallible methods\<close>

text \<open>
  \<open>bindE m f\<close> runs \<open>m\<close> and, unless it failed, continues with \<open>f\<close> on its value: the
  \<^verbatim>\<open>if err != nil { return err }\<close> of the sources. The state reached by a failing \<open>m\<close> is kept.
\<close>

definition returnE :: "'a \<Rightarrow> ('s, 'e, 'a) gomethod" where
  "returnE x s = (Inr x, s)"

definition throwE :: "'e \<Rightarrow> ('s, 'e, 'a) gomethod" where
  "throwE e s = (Inl e, s)"

definition bindE :: "('s, 'e, 'a) gomethod \<Rightarrow> ('a \<Rightarrow> ('s, 'e, 'b) gomethod) \<Rightarrow> ('s, 'e, 'b) gomethod" where
  "bindE m f s = (case m s of (Inl e, s') \<Rightarrow> (Inl e, s') | (Inr x, s') \<Rightarrow> f x s')"

lemma bindE_Inr [simp]: "m s = (Inr x, s') \<Longrightarrow> bindE m f s = f x s'"
  by (simp add: bindE_def)

lemma bindE_Inl [simp]: "m s = (Inl e, s') \<Longrightarrow> bindE m f s = (Inl e, s')"
  by (simp add: bindE_def)

lemma bindE_eq_Inr:
  "bindE m f s = (Inr y, t) \<longleftrightarrow> (\<exists>x s'. m s = (Inr x, s') \<and> f x s' = (Inr y, t))"
  by (auto simp: bindE_def split: prod.splits sum.splits)

lemma returnE_simps [simp]: "returnE x s = (Inr x, s)"
  by (simp add: returnE_def)

lemma throwE_simps [simp]: "throwE e s = (Inl e, s)"
  by (simp add: throwE_def)

lemma case_prod_sum_bindE:
  "(case m s of (r, s') \<Rightarrow> (case r of Inl e \<Rightarrow> (Inl e, s') | Inr x \<Rightarrow> f x s')) = bindE m f s"
  by (simp add: bindE_def split: prod.splits sum.splits)

text \<open>A loop that converts each element and returns at the first error.\<close>

primrec mapE :: "('a \<Rightarrow> 'e + 'b) \<Rightarrow> 'a list \<Rightarrow> 'e + 'b list" where
  "mapE f [] = Inr []"
| "mapE f (x # xs) =
     (case f x of Inl e \<Rightarrow> Inl e
      | Inr y \<Rightarrow> (case mapE f xs of Inl e \<Rightarrow> Inl e | Inr ys \<Rightarrow> Inr (y # ys)))"

lemma mapE_Inr: "mapE f xs = Inr ys \<longleftrightarrow> list_all2 (\<lambda>x y. f x = Inr y) xs ys"
proof (induction xs arbitrary: ys)
  case (Cons x xs)
  show ?case
  proof (cases ys)
    case (Cons y ys')
    then show ?thesis using Cons.IH [of ys'] by (auto split: sum.splits)
  qed (auto split: sum.splits)
qed auto

lemma mapE_fails: "(\<exists>e. mapE f xs = Inl e) \<longleftrightarrow> (\<exists>x \<in> set xs. \<exists>e. f x = Inl e)"
  by (induction xs) (auto split: sum.splits)

lemma set_map_filter: "set (List.map_filter f xs) = {y. \<exists>x \<in> set xs. f x = Some y}"
  by (auto simp: List.map_filter_def intro!: rev_image_eqI)

lemma distinct_map_filter:
  assumes "distinct (map fst es)" and "\<And>e n. e \<in> set es \<Longrightarrow> g e = Some n \<Longrightarrow> fst e = h n"
  shows "distinct (List.map_filter g es)"
  using assms
proof (induction es)
  case (Cons e es)
  then have IH: "distinct (List.map_filter g es)" by simp
  have "n \<notin> set (List.map_filter g es)" if "g e = Some n" for n
  proof
    assume "n \<in> set (List.map_filter g es)"
    then obtain e' where "e' \<in> set es" "g e' = Some n" by (auto simp: set_map_filter)
    with Cons.prems(2) [of e' n] Cons.prems(2) [of e n] that have "fst e' = fst e" by simp
    then have "fst e \<in> fst ` set es" using \<open>e' \<in> set es\<close> by (metis image_eqI)
    with Cons.prems(1) show False by simp
  qed
  with IH show ?case by (simp add: List.map_filter_simps split: option.split)
qed (simp add: List.map_filter_simps)

section \<open>Bytes and strings\<close>

abbreviation newline :: char where "newline \<equiv> CHR 0x0A"

text \<open>
  \<^verbatim>\<open>strings.TrimSpace\<close> cuts the leading and trailing runes that \<^verbatim>\<open>unicode.IsSpace\<close> accepts.
  Their UTF-8 encodings are listed; no encoding is a proper prefix or suffix of another, so
  cutting encodings is the same as cutting decoded runes.
\<close>

definition ws_runes :: "string list" where
  "ws_runes =
     [[CHR 0x09], [CHR 0x0A], [CHR 0x0B], [CHR 0x0C], [CHR 0x0D], [CHR 0x20],
      [CHR 0xC2, CHR 0x85], [CHR 0xC2, CHR 0xA0],
      [CHR 0xE1, CHR 0x9A, CHR 0x80],
      [CHR 0xE2, CHR 0x80, CHR 0x80], [CHR 0xE2, CHR 0x80, CHR 0x81],
      [CHR 0xE2, CHR 0x80, CHR 0x82], [CHR 0xE2, CHR 0x80, CHR 0x83],
      [CHR 0xE2, CHR 0x80, CHR 0x84], [CHR 0xE2, CHR 0x80, CHR 0x85],
      [CHR 0xE2, CHR 0x80, CHR 0x86], [CHR 0xE2, CHR 0x80, CHR 0x87],
      [CHR 0xE2, CHR 0x80, CHR 0x88], [CHR 0xE2, CHR 0x80, CHR 0x89],
      [CHR 0xE2, CHR 0x80, CHR 0x8A],
      [CHR 0xE2, CHR 0x80, CHR 0xA8], [CHR 0xE2, CHR 0x80, CHR 0xA9],
      [CHR 0xE2, CHR 0x80, CHR 0xAF],
      [CHR 0xE2, CHR 0x81, CHR 0x9F],
      [CHR 0xE3, CHR 0x80, CHR 0x80]]"

lemma ws_runes_nonempty: "w \<in> set ws_runes \<Longrightarrow> 0 < length w"
  by (auto simp: ws_runes_def)

lemma find_ws_runes_length: "find P ws_runes = Some w \<Longrightarrow> 0 < length w"
  by (metis find_Some_iff nth_mem ws_runes_nonempty)

function trimLeft :: "string \<Rightarrow> string" where
  "trimLeft s =
     (if s = [] then [] else
      case find (\<lambda>w. prefix w s) ws_runes of
        None \<Rightarrow> s
      | Some w \<Rightarrow> trimLeft (drop (length w) s))"
  by pat_completeness auto
termination
  by (relation "measure length") (auto dest!: find_ws_runes_length)

function trimRight :: "string \<Rightarrow> string" where
  "trimRight s =
     (if s = [] then [] else
      case find (\<lambda>w. suffix w s) ws_runes of
        None \<Rightarrow> s
      | Some w \<Rightarrow> trimRight (take (length s - length w) s))"
  by pat_completeness auto
termination
  by (relation "measure length") (auto dest!: find_ws_runes_length)

declare trimLeft.simps [simp del] trimRight.simps [simp del]

definition trimSpace :: "string \<Rightarrow> string" where
  "trimSpace s = trimRight (trimLeft s)"

text \<open>A byte that neither starts nor ends a white-space rune.\<close>

definition graphic :: "char \<Rightarrow> bool" where
  "graphic c \<longleftrightarrow> 33 \<le> (of_char c :: nat) \<and> (of_char c :: nat) \<le> 126"

lemma ws_runes_not_graphic:
  "w \<in> set ws_runes \<Longrightarrow> \<not> graphic (hd w) \<and> \<not> graphic (last w)"
  by (auto simp: ws_runes_def graphic_def)

lemma no_ws_prefix: "graphic c \<Longrightarrow> find (\<lambda>w. prefix w (c # s)) ws_runes = None"
  unfolding find_None_iff
  using ws_runes_not_graphic ws_runes_nonempty by (fastforce simp: prefix_def neq_Nil_conv)

lemma no_ws_suffix: "graphic c \<Longrightarrow> find (\<lambda>w. suffix w (s @ [c])) ws_runes = None"
  unfolding find_None_iff
  using ws_runes_not_graphic ws_runes_nonempty
  by (metis last_appendR last_snoc length_greater_0_conv suffix_def)

lemma trimLeft_graphic [simp]: "graphic c \<Longrightarrow> trimLeft (c # s) = c # s"
  by (subst trimLeft.simps) (simp add: no_ws_prefix)

lemma trimRight_graphic [simp]: "graphic c \<Longrightarrow> trimRight (s @ [c]) = s @ [c]"
  using no_ws_suffix [of c s] by (subst trimRight.simps) (simp del: suffix_snoc)

lemma trimRight_newline [simp]: "trimRight (s @ [newline]) = trimRight s"
proof -
  have "find (\<lambda>w. suffix w (s @ [newline])) ws_runes = Some [newline]"
    by (simp add: ws_runes_def del: suffix_snoc) (simp add: suffix_def)
  then show ?thesis by (subst trimRight.simps) (simp del: suffix_snoc)
qed

lemma trimLeft_Nil [simp]: "trimLeft [] = []"
  by (subst trimLeft.simps) simp

lemma trimRight_Nil [simp]: "trimRight [] = []"
  by (subst trimRight.simps) simp

lemma trimSpace_Nil [simp]: "trimSpace [] = []"
  by (simp add: trimSpace_def)

lemma trimSpace_graphic:
  assumes "s \<noteq> []" and "graphic (hd s)" and "graphic (last s)"
  shows "trimSpace s = s" and "trimSpace (s @ [newline]) = s"
proof -
  obtain c t where s: "s = c # t" using assms(1) by (cases s) auto
  have l: "trimRight s = s"
    using assms trimRight_graphic [of "last s" "butlast s"] by simp
  show "trimSpace s = s" using s l assms(2) by (simp add: trimSpace_def)
  have "trimLeft (s @ [newline]) = s @ [newline]" using s assms(2) by simp
  then show "trimSpace (s @ [newline]) = s" using l by (simp add: trimSpace_def)
qed

lemma trimLeft_cases: "trimLeft s = [] \<or> find (\<lambda>w. prefix w (trimLeft s)) ws_runes = None"
proof (induction s rule: trimLeft.induct)
  case (1 s)
  then show ?case by (subst (1 2) trimLeft.simps) (simp split: option.splits)
qed

lemma trimRight_cases: "trimRight s = [] \<or> find (\<lambda>w. suffix w (trimRight s)) ws_runes = None"
proof (induction s rule: trimRight.induct)
  case (1 s)
  then show ?case by (subst (1 2) trimRight.simps) (simp split: option.splits)
qed

lemma trimRight_prefix: "prefix (trimRight s) s"
proof (induction s rule: trimRight.induct)
  case (1 s)
  then show ?case
    by (subst trimRight.simps) (auto split: option.splits intro: prefix_order.trans take_is_prefix)
qed

lemma trimSpace_idem [simp]: "trimSpace (trimSpace s) = trimSpace s"
proof -
  let ?t = "trimRight (trimLeft s)"
  have "trimLeft ?t = ?t"
  proof (cases "?t = []")
    case False
    then have "trimLeft s \<noteq> []" by auto
    then have "find (\<lambda>w. prefix w (trimLeft s)) ws_runes = None" using trimLeft_cases [of s] by simp
    then have "find (\<lambda>w. prefix w ?t) ws_runes = None"
      using prefix_order.trans [OF _ trimRight_prefix] by (auto simp: find_None_iff)
    with False show ?thesis by (subst trimLeft.simps) simp
  qed simp
  moreover have "trimRight ?t = ?t"
    using trimRight_cases [of "trimLeft s"] by (cases "?t = []") (simp_all add: trimRight.simps [of ?t])
  ultimately show ?thesis by (simp add: trimSpace_def)
qed

definition trimPrefix :: "string \<Rightarrow> string \<Rightarrow> string" where
  "trimPrefix s p = (if prefix p s then drop (length p) s else s)"

definition trimSuffix :: "string \<Rightarrow> string \<Rightarrow> string" where
  "trimSuffix s p = (if suffix p s then take (length s - length p) s else s)"

lemma trimPrefix_append [simp]: "trimPrefix (p @ s) p = s"
  by (simp add: trimPrefix_def)

lemma trimSuffix_append [simp]: "trimSuffix (s @ p) p = s"
  by (simp add: trimSuffix_def suffixI)

text \<open>\<^verbatim>\<open>strings.Split\<close> with a one-byte separator: never the empty list.\<close>

fun splitOn :: "char \<Rightarrow> string \<Rightarrow> string list" where
  "splitOn c [] = [[]]"
| "splitOn c (x # xs) =
     (if x = c then [] # splitOn c xs
      else (case splitOn c xs of [] \<Rightarrow> [[x]] | y # ys \<Rightarrow> (x # y) # ys))"

lemma splitOn_nonempty [simp]: "splitOn c s \<noteq> []"
  by (cases s) (auto split: list.splits)

text \<open>\<^verbatim>\<open>strings.ToLower\<close>, on the ASCII letters; other bytes are kept.\<close>

definition lower_char :: "char \<Rightarrow> char" where
  "lower_char c =
     (let n = (of_char c :: nat) in if 65 \<le> n \<and> n \<le> 90 then char_of (n + 32) else c)"

definition toLower :: "string \<Rightarrow> string" where
  "toLower s = map lower_char s"

lemma lower_char_idem [simp]: "lower_char (lower_char c) = lower_char c"
  by (simp add: lower_char_def Let_def of_char_of)

lemma toLower_idem [simp]: "toLower (toLower s) = toLower s"
  by (simp add: toLower_def)

lemma toLower_Nil [simp]: "toLower s = [] \<longleftrightarrow> s = []"
  by (simp add: toLower_def)

text \<open>\<^verbatim>\<open>filepath.Base\<close>: the last element of a slash-separated path.\<close>

definition filepath_Base :: "string \<Rightarrow> string" where
  "filepath_Base s =
     (if s = [] then ''.''
      else let t = rev (dropWhile (\<lambda>c. c = CHR ''/'') (rev s));
               b = rev (takeWhile (\<lambda>c. c \<noteq> CHR ''/'') (rev t))
           in if b = [] then ''/'' else b)"

lemma filepath_Base_no_slash [simp]:
  assumes "s \<noteq> []" and "CHR ''/'' \<notin> set s"
  shows "filepath_Base s = s"
proof -
  have "dropWhile (\<lambda>c. c = CHR ''/'') (rev s) = rev s"
    unfolding dropWhile_eq_self_iff using assms by (simp add: hd_rev) (metis last_in_set)
  moreover have "takeWhile (\<lambda>c. c \<noteq> CHR ''/'') (rev s) = rev s"
    using assms by (auto simp: takeWhile_eq_all_conv)
  ultimately show ?thesis 
    unfolding filepath_Base_def Let_def using assms(1) by (simp del: takeWhile_eq_all_conv)
qed

section \<open>Decimal numbers\<close>

definition digit_char :: "nat \<Rightarrow> char" where
  "digit_char n = char_of (48 + n)"

definition is_digit :: "char \<Rightarrow> bool" where
  "is_digit c \<longleftrightarrow> 48 \<le> (of_char c :: nat) \<and> (of_char c :: nat) \<le> 57"

definition digit_val :: "char \<Rightarrow> nat" where
  "digit_val c = of_char c - 48"

fun dec :: "nat \<Rightarrow> string" where
  "dec n = (if n < 10 then [digit_char n] else dec (n div 10) @ [digit_char (n mod 10)])"

declare dec.simps [simp del]

definition undec :: "string \<Rightarrow> nat" where
  "undec s = foldl (\<lambda>a c. 10 * a + digit_val c) 0 s"

text \<open>\<^verbatim>\<open>%0<w>d\<close> of \<^verbatim>\<open>fmt\<close>: the decimal digits, padded on the left with zeros.\<close>

definition pad_dec :: "nat \<Rightarrow> nat \<Rightarrow> string" where
  "pad_dec w n = (let d = dec n in replicate (w - length d) (CHR ''0'') @ d)"

lemma digit_char_inverse [simp]:
  assumes "n < 10"
  shows "digit_val (digit_char n) = n" and "is_digit (digit_char n)"
proof -
  have "of_char (char_of (48 + n)) = 48 + n"
    using assms by (simp add: of_char_of)
  with assms show "digit_val (digit_char n) = n" and "is_digit (digit_char n)"
    by (simp_all add: digit_val_def digit_char_def is_digit_def)
qed

lemma undec_snoc [simp]: "undec (s @ [c]) = 10 * undec s + digit_val c"
  by (simp add: undec_def)

lemma undec_dec [simp]: "undec (dec n) = n"
proof (induction n rule: dec.induct)
  case (1 n)
  show ?case
  proof (cases "n < 10")
    case True
    then show ?thesis by (simp add: dec.simps [of n] undec_def)
  next
    case False
    with 1 have "undec (dec (n div 10)) = n div 10" by simp
    with False show ?thesis by (simp add: dec.simps [of n])
  qed
qed

lemma dec_digits: "\<forall>c \<in> set (dec n). is_digit c"
proof (induction n rule: dec.induct)
  case (1 n)
  then show ?case by (cases "n < 10") (auto simp: dec.simps [of n])
qed

lemma dec_nonempty [simp]: "dec n \<noteq> []"
  by (simp add: dec.simps [of n])

lemma undec_zeros: "undec (replicate k (CHR ''0'') @ s) = undec s"
proof (induction k)
  case (Suc k)
  have "digit_val (CHR ''0'') = 0" by (simp add: digit_val_def)
  with Suc show ?case by (simp add: undec_def)
qed simp

lemma undec_pad_dec [simp]: "undec (pad_dec w n) = n"
  by (simp add: pad_dec_def Let_def undec_zeros)

lemma pad_dec_digits: "\<forall>c \<in> set (pad_dec w n). is_digit c"
  using dec_digits by (auto simp: pad_dec_def Let_def is_digit_def)

lemma pad_dec_nonempty [simp]: "pad_dec w n \<noteq> []"
  by (simp add: pad_dec_def Let_def)

lemma digit_graphic: "is_digit c \<Longrightarrow> graphic c"
  by (simp add: is_digit_def graphic_def)

lemma digit_not_slash: "is_digit c \<Longrightarrow> c \<noteq> CHR ''/''"
  by (auto simp: is_digit_def)

text \<open>\<^verbatim>\<open>strconv.ParseUint(s, 10, 64)\<close>: \<^const>\<open>None\<close> is a syntax or a range error.\<close>

definition parseUint64 :: "string \<Rightarrow> uint64 option" where
  "parseUint64 s =
     (if s \<noteq> [] \<and> list_all is_digit s \<and> int (undec s) < 2 ^ 64 then Some (of_nat (undec s))
      else None)"

text \<open>\<^verbatim>\<open>strconv.ParseInt(s, 10, 64)\<close>, with its optional sign.\<close>

definition parseInt64 :: "string \<Rightarrow> int option" where
  "parseInt64 s =
     (let neg = (s \<noteq> [] \<and> hd s = CHR ''-'');
          ds = (if s \<noteq> [] \<and> (hd s = CHR ''-'' \<or> hd s = CHR ''+'') then tl s else s);
          v = (if neg then - int (undec ds) else int (undec ds))
      in if ds \<noteq> [] \<and> list_all is_digit ds \<and> - (2 ^ 63) \<le> v \<and> v < 2 ^ 63 then Some v else None)"

lemma parseUint64_pad_dec [simp]: "parseUint64 (pad_dec w (unat (n :: uint64))) = Some n"
proof -
  have "uint n < 2 ^ 64" using uint_lt2p [of n] by simp
  then show ?thesis
    using pad_dec_digits [of w "unat n"] by (simp add: parseUint64_def list_all_iff)
qed

section \<open>Time and durations\<close>

abbreviation second :: duration where "second \<equiv> 1000000000"

definition max_int64 :: int where "max_int64 = 2 ^ 63 - 1"
definition min_int64 :: int where "min_int64 = - (2 ^ 63)"

text \<open>Two's complement wrap-around of 64-bit signed arithmetic.\<close>

definition wrap_int64 :: "int \<Rightarrow> int" where
  "wrap_int64 x = (x + 2 ^ 63) mod 2 ^ 64 - 2 ^ 63"

definition time_IsZero :: "gotime \<Rightarrow> bool" where
  "time_IsZero t \<longleftrightarrow> t = 0"

text \<open>\<^verbatim>\<open>t.Sub(u)\<close> saturates at the extreme durations.\<close>

definition time_Sub :: "gotime \<Rightarrow> gotime \<Rightarrow> duration" where
  "time_Sub t u = max min_int64 (min max_int64 (t - u))"

text \<open>\<^verbatim>\<open>time.Unix(sec, 0)\<close>: the internal seconds count from year 1 and wrap at 64 bits.\<close>

definition time_Unix :: "int \<Rightarrow> gotime" where
  "time_Unix sec = wrap_int64 (sec + 62135596800) * second"

lemma wrap_int64_id: "min_int64 \<le> x \<Longrightarrow> x \<le> max_int64 \<Longrightarrow> wrap_int64 x = x"
  by (simp add: wrap_int64_def min_int64_def max_int64_def)

lemma wrap_int64_range: "min_int64 \<le> wrap_int64 x \<and> wrap_int64 x \<le> max_int64"
proof -
  have "0 \<le> (x + 2 ^ 63) mod 2 ^ 64" and "(x + 2 ^ 63) mod 2 ^ 64 < (2 ^ 64 :: int)"
    by simp_all
  then show ?thesis by (simp add: wrap_int64_def min_int64_def max_int64_def)
qed

section \<open>Sequence numbers\<close>

lemma uint64_Suc:
  assumes "unat (a :: uint64) + 1 < 2 ^ 64"
  shows "unat (a + 1) = unat a + 1"
  using assms by (simp add: unat_word_ariths)

lemma uint64_less_Suc:
  assumes "unat (a :: uint64) + 1 < 2 ^ 64"
  shows "a < a + 1"
  using uint64_Suc [OF assms] by (simp add: word_less_nat_alt)

end
