(* ===== verification/GoTime.thy ===== *)
theory GoTime
  imports Prelude
begin

text \<open>
  \<^verbatim>\<open>time.Time.Format\<close> and \<^verbatim>\<open>time.Parse\<close> with the layout \<^verbatim>\<open>time.RFC3339Nano\<close>, the textual
  form in which every timestamp of the program enters and leaves the database: the
  proleptic Gregorian calendar, the fraction of a second without its trailing zeros, and the
  liberties \<^verbatim>\<open>time.Parse\<close> takes (a one-digit hour, a comma before the fraction, offsets).
\<close>

section \<open>The calendar\<close>

definition is_leap :: "int \<Rightarrow> bool" where
  "is_leap y \<longleftrightarrow> y mod 4 = 0 \<and> (y mod 100 \<noteq> 0 \<or> y mod 400 = 0)"

definition month_lengths :: "bool \<Rightarrow> int list" where
  "month_lengths leap = [31, if leap then 29 else 28, 31, 30, 31, 30, 31, 31, 30, 31, 30, 31]"

definition days_in :: "int \<Rightarrow> int \<Rightarrow> int" where
  "days_in m y = month_lengths (is_leap y) ! nat (m - 1)"

text \<open>Year and day of the year of a day counted from January 1, year 1.\<close>

definition year_yday :: "int \<Rightarrow> int \<times> int" where
  "year_yday d =
     (let n400 = d div 146097; d1 = d - 146097 * n400;
          c = d1 div 36524; n100 = c - c div 4; d2 = d1 - 36524 * n100;
          n4 = d2 div 1461; d3 = d2 - 1461 * n4;
          a = d3 div 365; n1 = a - a div 4; d4 = d3 - 365 * n1
      in (400 * n400 + 100 * n100 + 4 * n4 + n1 + 1, d4))"

fun month_day :: "int \<Rightarrow> int list \<Rightarrow> int \<Rightarrow> int \<times> int" where
  "month_day m [] d = (m, d + 1)"
| "month_day m [l] d = (m, d + 1)"
| "month_day m (l # ls) d = (if d < l then (m, d + 1) else month_day (m + 1) ls (d - l))"

definition civil :: "int \<Rightarrow> int \<times> int \<times> int" where
  "civil d = (let (y, yd) = year_yday d in (y, month_day 1 (month_lengths (is_leap y)) yd))"

definition days_before_year :: "int \<Rightarrow> int" where
  "days_before_year y = 365 * (y - 1) + (y - 1) div 4 - (y - 1) div 100 + (y - 1) div 400"

definition days_of_civil :: "int \<Rightarrow> int \<Rightarrow> int \<Rightarrow> int" where
  "days_of_civil y m d =
     days_before_year y + sum_list (take (nat (m - 1)) (month_lengths (is_leap y))) + (d - 1)"

section \<open>Formatting\<close>

definition fmt_year :: "int \<Rightarrow> string" where
  "fmt_year y = (if y < 0 then ''-'' @ pad_dec 4 (nat (- y)) else pad_dec 4 (nat y))"

text \<open>The fraction of a second: nine digits, less the trailing zeros, nothing when it is zero.\<close>

definition fmt_frac :: "int \<Rightarrow> string" where
  "fmt_frac ns =
     (if ns = 0 then []
      else ''.'' @ rev (dropWhile (\<lambda>c. c = CHR ''0'') (rev (pad_dec 9 (nat ns)))))"

definition fmt_RFC3339Nano :: "gotime \<Rightarrow> string" where
  "fmt_RFC3339Nano t =
     (let day = t div (86400 * second); r = t mod (86400 * second);
          sec = r div second; ns = r mod second;
          (y, m, d) = civil day
      in fmt_year y @ ''-'' @ pad_dec 2 (nat m) @ ''-'' @ pad_dec 2 (nat d) @ ''T'' @
         pad_dec 2 (nat (sec div 3600)) @ '':'' @ pad_dec 2 (nat (sec div 60 mod 60)) @ '':'' @
         pad_dec 2 (nat (sec mod 60)) @ fmt_frac ns @ ''Z'')"

section \<open>Parsing\<close>

text \<open>Exactly \<open>n\<close> digits, or (for the hour) one or two.\<close>

definition take_digits :: "nat \<Rightarrow> string \<Rightarrow> (int \<times> string) option" where
  "take_digits n s =
     (if n \<le> length s \<and> list_all is_digit (take n s)
      then Some (int (undec (take n s)), drop n s) else None)"

definition take_hour :: "string \<Rightarrow> (int \<times> string) option" where
  "take_hour s = (case take_digits 2 s of Some r \<Rightarrow> Some r | None \<Rightarrow> take_digits 1 s)"

definition take_lit :: "char \<Rightarrow> string \<Rightarrow> string option" where
  "take_lit c s = (case s of [] \<Rightarrow> None | x # xs \<Rightarrow> if x = c then Some xs else None)"

definition in_range :: "int \<Rightarrow> int \<Rightarrow> int \<Rightarrow> unit option" where
  "in_range lo hi x = (if lo \<le> x \<and> x \<le> hi then Some () else None)"

definition take_frac :: "string \<Rightarrow> int \<times> string" where
  "take_frac s =
     (if 2 \<le> length s \<and> (hd s = CHR ''.'' \<or> hd s = CHR '','') \<and> is_digit (s ! 1)
      then let ds = takeWhile is_digit (tl s); k = take 9 ds
           in (int (undec k) * 10 ^ (9 - length k), drop (length ds) (tl s))
      else (0, s))"

text \<open>The zone: \<^verbatim>\<open>Z\<close>, or a signed offset \<^verbatim>\<open>hh:mm\<close>, in seconds.\<close>

definition take_zone :: "string \<Rightarrow> (int \<times> string) option" where
  "take_zone s =
     (case take_lit (CHR ''Z'') s of
        Some r \<Rightarrow> Some (0, r)
      | None \<Rightarrow>
          (if s = [] \<or> (hd s \<noteq> CHR ''+'' \<and> hd s \<noteq> CHR ''-'') then None else
           Option.bind (take_digits 2 (tl s)) (\<lambda>(h, r1).
           Option.bind (take_lit (CHR '':'') r1) (\<lambda>r2.
           Option.bind (take_digits 2 r2) (\<lambda>(m, r3).
           Option.bind (in_range 0 24 h) (\<lambda>_.
           Option.bind (in_range 0 60 m) (\<lambda>_.
             Some ((if hd s = CHR ''-'' then - 1 else 1) * (h * 3600 + m * 60), r3))))))))"

definition parse_RFC3339Nano :: "string \<Rightarrow> gotime option" where
  "parse_RFC3339Nano s =
     Option.bind (take_digits 4 s) (\<lambda>(y, s).
     Option.bind (take_lit (CHR ''-'') s) (\<lambda>s.
     Option.bind (take_digits 2 s) (\<lambda>(mo, s).
     Option.bind (in_range 1 12 mo) (\<lambda>_.
     Option.bind (take_lit (CHR ''-'') s) (\<lambda>s.
     Option.bind (take_digits 2 s) (\<lambda>(d, s).
     Option.bind (take_lit (CHR ''T'') s) (\<lambda>s.
     Option.bind (take_hour s) (\<lambda>(h, s).
     Option.bind (in_range 0 23 h) (\<lambda>_.
     Option.bind (take_lit (CHR '':'') s) (\<lambda>s.
     Option.bind (take_digits 2 s) (\<lambda>(mi, s).
     Option.bind (in_range 0 59 mi) (\<lambda>_.
     Option.bind (take_lit (CHR '':'') s) (\<lambda>s.
     Option.bind (take_digits 2 s) (\<lambda>(sec, s).
     Option.bind (in_range 0 59 sec) (\<lambda>_.
     (case take_frac s of (ns, s) \<Rightarrow>
     Option.bind (take_zone s) (\<lambda>(off, s).
     if s \<noteq> [] then None else
     Option.bind (in_range 1 (days_in mo y) d) (\<lambda>_.
       Some ((days_of_civil y mo d * 86400 + h * 3600 + mi * 60 + sec - off) * second + ns)
     ))))))))))))))))))"

end
