(* ===== verification/Ingest.thy ===== *)
theory Ingest
  imports Sha256 GoTime
begin

text \<open>
  Package \<^verbatim>\<open>internal/ingest\<close>: the canonical point and the spool record, the two payload
  parsers (OwnTracks and Overland) and the ingest hash. The decoding of JSON text into Go
  values (\<^verbatim>\<open>encoding/json\<close>) is the argument \<open>json_lib\<close> of the parsers: one function per
  target type, \<^const>\<open>None\<close> where \<^verbatim>\<open>Unmarshal\<close> or \<^verbatim>\<open>Decode\<close> returns an error. Everything the
  package does with the decoded values is modelled.
\<close>

section \<open>Data model (models.go)\<close>

record CanonicalPoint =
  UserID :: string
  DeviceID :: string
  SourceType :: string
  TimestampUTC :: gotime
  Lat :: float64
  Lon :: float64
  Altitude :: "float64 option"
  Accuracy :: "float64 option"
  Speed :: "float64 option"
  Heading :: "float64 option"
  Battery :: "float64 option"
  MotionType :: "string option"
  RawPayload :: "string option"
  IngestHash :: string

text \<open>\<^verbatim>\<open>RawPayload\<close> is \<^const>\<open>None\<close> for the nil slice, which JSON keeps apart from the empty one.\<close>

record SpoolRecord =
  Seq :: uint64
  RecDeviceID :: string
  ReceivedAt :: gotime
  Point :: CanonicalPoint
  CheckpointOnly :: bool

section \<open>Payloads as decoded from JSON\<close>

text \<open>A \<^verbatim>\<open>*json.Number\<close> is the text of the number literal, \<^const>\<open>None\<close> for nil.\<close>

record ownTracksPayload =
  ot_Type :: string
  ot_Lat :: "string option"
  ot_Lon :: "string option"
  ot_Tst :: "string option"
  ot_Acc :: "string option"
  ot_Alt :: "string option"
  ot_Batt :: "string option"
  ot_Vel :: "string option"
  ot_TID :: string
  ot_Topic :: string

record overlandLocation =
  ol_Coordinates :: "float64 list"
  ol_Timestamp :: string
  ol_HorizontalAccuracy :: "float64 option"
  ol_Altitude :: "float64 option"
  ol_Speed :: "float64 option"
  ol_MotionRaw :: string
  ol_ActivityRaw :: string

record overlandBatchPayload =
  ob_DeviceID :: string
  ob_Locations :: "overlandLocation list"

record json_lib =
  js_ownTracks :: "string \<Rightarrow> ownTracksPayload option"
  js_overland :: "string \<Rightarrow> overlandBatchPayload option"
  js_string :: "string \<Rightarrow> string option"
  js_string_list :: "string \<Rightarrow> string list option"
  js_activity :: "string \<Rightarrow> (string \<times> string) option"

datatype owntracks_error =
    ErrOwnTracksEmptyPayload
  | ErrOwnTracksInvalidJSON
  | ErrOwnTracksNotLocationEvent string
  | ErrOwnTracksMissingLat
  | ErrOwnTracksMissingLon
  | ErrOwnTracksMissingTimestamp
  | ErrOwnTracksInvalidLat
  | ErrOwnTracksInvalidLon
  | ErrOwnTracksInvalidTimestamp

datatype overland_error =
    ErrOverlandEmptyPayload
  | ErrOverlandInvalidJSON
  | ErrOverlandMissingLocations
  | ErrOverlandInvalidCoordinate nat
  | ErrOverlandInvalidTimestamp nat

section \<open>Numbers in JSON text\<close>

text \<open>
  \<^verbatim>\<open>json.Number.Float64\<close> on a JSON number literal: sign, digits, fraction, exponent. The
  value is exact; a magnitude that rounds beyond the largest float64 is the range error.
\<close>

definition split_exp :: "string \<Rightarrow> string \<times> string option" where
  "split_exp s =
     (let m = takeWhile (\<lambda>c. c \<noteq> CHR ''e'' \<and> c \<noteq> CHR ''E'') s; r = drop (length m) s
      in (m, if r = [] then None else Some (tl r)))"

definition split_frac :: "string \<Rightarrow> string \<times> string option" where
  "split_frac s =
     (let m = takeWhile (\<lambda>c. c \<noteq> CHR ''.'') s; r = drop (length m) s
      in (m, if r = [] then None else Some (tl r)))"

definition all_digits :: "string \<Rightarrow> bool" where
  "all_digits s \<longleftrightarrow> s \<noteq> [] \<and> list_all is_digit s"

definition max_float64 :: real where
  "max_float64 = 2 ^ 1024 - 2 ^ 970"

definition scale10 :: "real \<Rightarrow> int \<Rightarrow> real" where
  "scale10 x e = (if 0 \<le> e then x * 10 ^ nat e else x / 10 ^ nat (- e))"

text \<open>The exponent of a literal: an optional sign and digits.\<close>

definition parse_exp :: "string \<Rightarrow> int option" where
  "parse_exp s =
     (let neg = (s \<noteq> [] \<and> hd s = CHR ''-'');
          ds = (if s \<noteq> [] \<and> (hd s = CHR ''-'' \<or> hd s = CHR ''+'') then tl s else s)
      in if all_digits ds then Some (if neg then - int (undec ds) else int (undec ds)) else None)"

definition number_Float64 :: "string \<Rightarrow> float64 option" where
  "number_Float64 s =
     (let neg = (s \<noteq> [] \<and> hd s = CHR ''-'');
          (mant, ex) = split_exp (if neg then tl s else s);
          (ip, fp) = split_frac mant;
          fd = (case fp of None \<Rightarrow> [] | Some f \<Rightarrow> f);
          e = (case ex of None \<Rightarrow> Some 0 | Some t \<Rightarrow> parse_exp t);
          m = real (undec (ip @ fd)) / 10 ^ length fd
      in if all_digits ip \<and> (fp = None \<or> all_digits fd) then
           (case e of
              None \<Rightarrow> None
            | Some k \<Rightarrow> let v = scale10 m k in
                if v < max_float64 then Some (if neg then - v else v) else None)
         else None)"

definition jsonNumberToFloat64Ptr :: "string option \<Rightarrow> float64 option" where
  "jsonNumberToFloat64Ptr n = (case n of None \<Rightarrow> None | Some s \<Rightarrow> number_Float64 s)"

section \<open>Helpers of owntracks\_parser.go\<close>

definition parseTopic :: "string \<Rightarrow> string \<times> string" where
  "parseTopic topic =
     (let parts = splitOn (CHR ''/'') (trimSpace topic); n = length parts in
      if n < 2 then ([], [])
      else if 3 \<le> n \<and> parts ! 0 = ''owntracks'' then (parts ! 1, parts ! 2)
      else (parts ! (n - 2), parts ! (n - 1)))"

fun firstNonEmpty :: "string list \<Rightarrow> string" where
  "firstNonEmpty [] = []"
| "firstNonEmpty (v # vs) = (if trimSpace v \<noteq> [] then v else firstNonEmpty vs)"

definition hashPayload :: "string \<Rightarrow> string" where
  "hashPayload raw = sha256_hex raw"

section \<open>The ingest hash (ingest\_hash.go)\<close>

text \<open>\<^verbatim>\<open>math.Round\<close> rounds half away from zero.\<close>

definition math_Round :: "real \<Rightarrow> real" where
  "math_Round x = (if x < 0 then - of_int \<lfloor>- x + 1 / 2\<rfloor> else of_int \<lfloor>x + 1 / 2\<rfloor>)"

definition roundCoordinate :: "float64 \<Rightarrow> nat \<Rightarrow> float64" where
  "roundCoordinate value decimals = math_Round (value * 10 ^ decimals) / 10 ^ decimals"

text \<open>The verb \<^verbatim>\<open>%.5f\<close>, on values that have at most five decimals.\<close>

definition fmt_f5 :: "real \<Rightarrow> string" where
  "fmt_f5 x =
     (let k = \<lfloor>x * 10 ^ 5 + 1 / 2\<rfloor>; a = nat \<bar>k\<bar> in
      (if k < 0 then ''-'' else []) @ dec (a div 100000) @ ''.'' @ pad_dec 5 (a mod 100000))"

definition GenerateDeterministicIngestHash :: "CanonicalPoint \<Rightarrow> string" where
  "GenerateDeterministicIngestHash p =
     hashPayload
       (''src='' @ SourceType p @ ''|dev='' @ DeviceID p @
        ''|ts='' @ fmt_RFC3339Nano (TimestampUTC p) @
        ''|lat='' @ fmt_f5 (roundCoordinate (Lat p) 5) @
        ''|lon='' @ fmt_f5 (roundCoordinate (Lon p) 5))"

section \<open>ParseOwnTracksLocation\<close>

definition ParseOwnTracksLocation :: "json_lib \<Rightarrow> string \<Rightarrow> owntracks_error + CanonicalPoint" where
  "ParseOwnTracksLocation J raw =
     (let trimmed = trimSpace raw in
      if trimmed = [] then Inl ErrOwnTracksEmptyPayload else
      case js_ownTracks J trimmed of
        None \<Rightarrow> Inl ErrOwnTracksInvalidJSON
      | Some payload \<Rightarrow>
          if ot_Type payload \<noteq> ''location''
          then Inl (ErrOwnTracksNotLocationEvent (ot_Type payload))
          else (case ot_Lat payload of None \<Rightarrow> Inl ErrOwnTracksMissingLat | Some latN \<Rightarrow>
               (case ot_Lon payload of None \<Rightarrow> Inl ErrOwnTracksMissingLon | Some lonN \<Rightarrow>
               (case ot_Tst payload of None \<Rightarrow> Inl ErrOwnTracksMissingTimestamp | Some tstN \<Rightarrow>
               (case number_Float64 latN of None \<Rightarrow> Inl ErrOwnTracksInvalidLat | Some lat \<Rightarrow>
                if lat < - 90 \<or> lat > 90 then Inl ErrOwnTracksInvalidLat else
               (case number_Float64 lonN of None \<Rightarrow> Inl ErrOwnTracksInvalidLon | Some lon \<Rightarrow>
                if lon < - 180 \<or> lon > 180 then Inl ErrOwnTracksInvalidLon else
               (case parseInt64 tstN of None \<Rightarrow> Inl ErrOwnTracksInvalidTimestamp | Some tst \<Rightarrow>
                if tst \<le> 0 then Inl ErrOwnTracksInvalidTimestamp else
                let (userID, deviceFromTopic) = parseTopic (ot_Topic payload) in
                Inr \<lparr>UserID = userID,
                     DeviceID = firstNonEmpty [deviceFromTopic, ot_TID payload, ''unknown-device''],
                     SourceType = ''owntracks'',
                     TimestampUTC = time_Unix tst,
                     Lat = lat, Lon = lon,
                     Altitude = jsonNumberToFloat64Ptr (ot_Alt payload),
                     Accuracy = jsonNumberToFloat64Ptr (ot_Acc payload),
                     Speed = jsonNumberToFloat64Ptr (ot_Vel payload),
                     Heading = None,
                     Battery = jsonNumberToFloat64Ptr (ot_Batt payload),
                     MotionType = None,
                     RawPayload = Some trimmed,
                     IngestHash = hashPayload trimmed\<rparr>)))))))"

section \<open>ParseOverlandBatch\<close>

definition parseMotionString :: "json_lib \<Rightarrow> string \<Rightarrow> string" where
  "parseMotionString J raw =
     (if raw = [] then []
      else case js_string J raw of
        Some single \<Rightarrow> trimSpace single
      | None \<Rightarrow>
          (case js_string_list J raw of
             Some items \<Rightarrow>
               (case find (\<lambda>v. v \<noteq> []) (map trimSpace items) of Some v \<Rightarrow> v | None \<Rightarrow> [])
           | None \<Rightarrow> []))"

definition parseActivityString :: "json_lib \<Rightarrow> string \<Rightarrow> string" where
  "parseActivityString J raw =
     (if raw = [] then []
      else case js_string J raw of
        Some single \<Rightarrow> trimSpace single
      | None \<Rightarrow>
          (case js_activity J raw of
             Some (ty, nm) \<Rightarrow> firstNonEmpty [trimSpace ty, trimSpace nm]
           | None \<Rightarrow> []))"

definition parseOverlandMotionType :: "json_lib \<Rightarrow> string \<Rightarrow> string \<Rightarrow> string option" where
  "parseOverlandMotionType J motionRaw activityRaw =
     (let motion = parseMotionString J motionRaw in
      if motion \<noteq> [] then Some motion
      else let activity = parseActivityString J activityRaw in
        if activity \<noteq> [] then Some activity else None)"

text \<open>
  The body of the loop over the locations: \<open>trimmed\<close> is the payload, \<open>single\<close> says whether it
  holds one location only, \<open>i\<close> is the index.
\<close>

definition overlandPoint ::
  "json_lib \<Rightarrow> string \<Rightarrow> string \<Rightarrow> bool \<Rightarrow> nat \<Rightarrow> overlandLocation \<Rightarrow> overland_error + CanonicalPoint"
where
  "overlandPoint J trimmed deviceID single i location =
     (case ol_Coordinates location of
        lon # lat # _ \<Rightarrow>
          if lat < - 90 \<or> lat > 90 \<or> lon < - 180 \<or> lon > 180
          then Inl (ErrOverlandInvalidCoordinate i)
          else if trimSpace (ol_Timestamp location) = [] then Inl (ErrOverlandInvalidTimestamp i)
          else (case parse_RFC3339Nano (ol_Timestamp location) of
                  None \<Rightarrow> Inl (ErrOverlandInvalidTimestamp i)
                | Some ts \<Rightarrow>
                    Inr \<lparr>UserID = [], DeviceID = deviceID, SourceType = ''overland'',
                         TimestampUTC = ts, Lat = lat, Lon = lon,
                         Altitude = ol_Altitude location,
                         Accuracy = ol_HorizontalAccuracy location,
                         Speed = ol_Speed location,
                         Heading = None, Battery = None,
                         MotionType =
                           parseOverlandMotionType J (ol_MotionRaw location) (ol_ActivityRaw location),
                         RawPayload = (if single then Some trimmed else None),
                         IngestHash = hashPayload (trimmed @ ''#'' @ dec i)\<rparr>)
      | _ \<Rightarrow> Inl (ErrOverlandInvalidCoordinate i))"

fun overlandPoints ::
  "json_lib \<Rightarrow> string \<Rightarrow> string \<Rightarrow> bool \<Rightarrow> nat \<Rightarrow> overlandLocation list
   \<Rightarrow> overland_error + CanonicalPoint list"
where
  "overlandPoints J trimmed deviceID single i [] = Inr []"
| "overlandPoints J trimmed deviceID single i (l # ls) =
     (case overlandPoint J trimmed deviceID single i l of
        Inl e \<Rightarrow> Inl e
      | Inr p \<Rightarrow>
          (case overlandPoints J trimmed deviceID single (Suc i) ls of
             Inl e \<Rightarrow> Inl e
           | Inr ps \<Rightarrow> Inr (p # ps)))"

definition ParseOverlandBatch :: "json_lib \<Rightarrow> string \<Rightarrow> overland_error + CanonicalPoint list" where
  "ParseOverlandBatch J raw =
     (let trimmed = trimSpace raw in
      if trimmed = [] then Inl ErrOverlandEmptyPayload else
      case js_overland J trimmed of
        None \<Rightarrow> Inl ErrOverlandInvalidJSON
      | Some payload \<Rightarrow>
          if ob_Locations payload = [] then Inl ErrOverlandMissingLocations
          else overlandPoints J trimmed (firstNonEmpty [ob_DeviceID payload, ''unknown-device''])
                 (length (ob_Locations payload) = 1) 0 (ob_Locations payload))"

section \<open>What the parsers promise\<close>

text \<open>The range check both parsers make, and the shape of the points they let through.\<close>

definition coords_ok :: "CanonicalPoint \<Rightarrow> bool" where
  "coords_ok p \<longleftrightarrow> - 90 \<le> Lat p \<and> Lat p \<le> 90 \<and> - 180 \<le> Lon p \<and> Lon p \<le> 180"

lemma firstNonEmpty_in: "trimSpace (firstNonEmpty vs) \<noteq> [] \<or> firstNonEmpty vs = []"
  by (induction vs) auto

lemma firstNonEmpty_fallback:
  "d \<in> set vs \<Longrightarrow> trimSpace d \<noteq> [] \<Longrightarrow> trimSpace (firstNonEmpty vs) \<noteq> []"
  by (induction vs) auto

lemma unknown_device_nonblank: "trimSpace ''unknown-device'' \<noteq> []"
  by (subst trimSpace_graphic) (simp_all add: graphic_def)

lemma device_fallback_nonblank:
  "''unknown-device'' \<in> set vs \<Longrightarrow> trimSpace (firstNonEmpty vs) \<noteq> []"
  using firstNonEmpty_fallback unknown_device_nonblank by blast

text \<open>
  A location is valid when it has two coordinates in range and a timestamp that parses. A
  blank timestamp fails in the parser as well, so the blank test only chooses the message.
\<close>

definition valid_location :: "overlandLocation \<Rightarrow> bool" where
  "valid_location l \<longleftrightarrow>
     (case ol_Coordinates l of
        lon # lat # _ \<Rightarrow> - 90 \<le> lat \<and> lat \<le> 90 \<and> - 180 \<le> lon \<and> lon \<le> 180
      | _ \<Rightarrow> False) \<and>
     trimSpace (ol_Timestamp l) \<noteq> [] \<and> parse_RFC3339Nano (ol_Timestamp l) \<noteq> None"

lemma overlandPoint_Inr_iff:
  "(\<exists>p. overlandPoint J t d sg i l = Inr p) \<longleftrightarrow> valid_location l"
  by (auto simp: overlandPoint_def valid_location_def split: list.splits option.splits)

lemma overlandPoint_Inl_index:
  "overlandPoint J t d sg i l = Inl e \<Longrightarrow>
   e = ErrOverlandInvalidCoordinate i \<or> e = ErrOverlandInvalidTimestamp i"
  by (auto simp: overlandPoint_def split: list.splits option.splits if_splits)

lemma overlandPoint_shape:
  assumes "overlandPoint J t d sg i l = Inr p"
  shows "coords_ok p" and "DeviceID p = d" and "SourceType p = ''overland''"
    and "parse_RFC3339Nano (ol_Timestamp l) = Some (TimestampUTC p)"
    and "RawPayload p = (if sg then Some t else None)"
    and "IngestHash p = sha256_hex (t @ ''#'' @ dec i)"
  using assms
  by (auto simp: overlandPoint_def coords_ok_def hashPayload_def
      split: list.splits option.splits if_splits)

lemma overlandPoints_Inr_iff:
  "(\<exists>ps. overlandPoints J t d sg i ls = Inr ps) \<longleftrightarrow> list_all valid_location ls"
proof (induction ls arbitrary: i)
  case (Cons l ls)
  show ?case
    using overlandPoint_Inr_iff [of J t d sg i l] Cons.IH [of "Suc i"]
    by (fastforce split: sum.splits)
qed simp

lemma overlandPoints_nth:
  "overlandPoints J t d sg i ls = Inr ps \<Longrightarrow>
   length ps = length ls \<and>
   (\<forall>k < length ls. overlandPoint J t d sg (i + k) (ls ! k) = Inr (ps ! k))"
proof (induction ls arbitrary: i ps)
  case (Cons l ls)
  from Cons.prems obtain p qs where
    p: "overlandPoint J t d sg i l = Inr p" and
    qs: "overlandPoints J t d sg (Suc i) ls = Inr qs" and ps: "ps = p # qs"
    by (auto split: sum.splits)
  from Cons.IH [OF qs] show ?case
    by (auto simp: ps p nth_Cons split: nat.splits)
qed simp

lemma overlandPoints_first_error:
  "overlandPoints J t d sg i ls = Inl e \<Longrightarrow>
   \<exists>k < length ls. \<not> valid_location (ls ! k) \<and> list_all valid_location (take k ls) \<and>
     (e = ErrOverlandInvalidCoordinate (i + k) \<or> e = ErrOverlandInvalidTimestamp (i + k))"
proof (induction ls arbitrary: i)
  case (Cons l ls)
  show ?case
  proof (cases "overlandPoint J t d sg i l")
    case (Inl e')
    then have "\<not> valid_location l" using overlandPoint_Inr_iff [of J t d sg i l] by auto
    with Inl Cons.prems overlandPoint_Inl_index [OF Inl] show ?thesis
      by (intro exI [of _ 0]) auto
  next
    case (Inr p)
    with Cons.prems have "overlandPoints J t d sg (Suc i) ls = Inl e"
      by (auto split: sum.splits)
    from Cons.IH [OF this] obtain k where k: "k < length ls" "\<not> valid_location (ls ! k)"
      "list_all valid_location (take k ls)"
      "e = ErrOverlandInvalidCoordinate (Suc i + k) \<or> e = ErrOverlandInvalidTimestamp (Suc i + k)"
      by blast
    have "valid_location l" using Inr overlandPoint_Inr_iff by blast
    with k show ?thesis by (intro exI [of _ "Suc k"]) auto
  qed
qed simp

subsection \<open>OwnTracks\<close>

definition owntracks_fields :: "ownTracksPayload \<Rightarrow> float64 \<Rightarrow> float64 \<Rightarrow> int \<Rightarrow> bool" where
  "owntracks_fields pl lat lon tst \<longleftrightarrow>
     ot_Type pl = ''location'' \<and>
     Option.bind (ot_Lat pl) number_Float64 = Some lat \<and> - 90 \<le> lat \<and> lat \<le> 90 \<and>
     Option.bind (ot_Lon pl) number_Float64 = Some lon \<and> - 180 \<le> lon \<and> lon \<le> 180 \<and>
     Option.bind (ot_Tst pl) parseInt64 = Some tst \<and> 0 < tst"

lemma ParseOwnTracksLocation_Inr:
  "ParseOwnTracksLocation J raw = Inr p \<Longrightarrow>
   \<exists>pl. trimSpace raw \<noteq> [] \<and> js_ownTracks J (trimSpace raw) = Some pl \<and>
     (\<exists>tst. owntracks_fields pl (Lat p) (Lon p) tst \<and> TimestampUTC p = time_Unix tst)"
  by (auto simp: ParseOwnTracksLocation_def owntracks_fields_def Let_def
      split: if_splits option.splits prod.splits)

lemma ParseOwnTracksLocation_ex:
  "trimSpace raw \<noteq> [] \<Longrightarrow> js_ownTracks J (trimSpace raw) = Some pl \<Longrightarrow>
   owntracks_fields pl lat lon tst \<Longrightarrow> \<exists>p. ParseOwnTracksLocation J raw = Inr p"
  by (auto simp: ParseOwnTracksLocation_def owntracks_fields_def Let_def bind_eq_Some_conv
      split: prod.splits)

text \<open>
  An OwnTracks payload is accepted exactly when its trimmed text is not empty, decodes,
  is a location event, and carries a latitude in [-90, 90], a longitude in [-180, 180] and a
  positive integral timestamp.
\<close>

theorem ParseOwnTracksLocation_accepts_iff:
  "(\<exists>p. ParseOwnTracksLocation J raw = Inr p) \<longleftrightarrow>
   trimSpace raw \<noteq> [] \<and>
   (\<exists>pl lat lon tst. js_ownTracks J (trimSpace raw) = Some pl \<and> owntracks_fields pl lat lon tst)"
  using ParseOwnTracksLocation_Inr ParseOwnTracksLocation_ex by blast

text \<open>
  Claim C34. Every point \<open>ParseOwnTracksLocation\<close> returns has coordinates in range, a device id
  that is not blank, the trimmed body as its raw payload and the SHA-256 of that body as its
  ingest hash.
\<close>

theorem ParseOwnTracksLocation_sound:
  assumes "ParseOwnTracksLocation J raw = Inr p"
  shows "coords_ok p \<and> SourceType p = ''owntracks'' \<and> trimSpace (DeviceID p) \<noteq> [] \<and>
    RawPayload p = Some (trimSpace raw) \<and> IngestHash p = sha256_hex (trimSpace raw) \<and>
    (\<exists>tst. 0 < tst \<and> TimestampUTC p = time_Unix tst)"
proof -
  have "\<exists>tst. 0 < tst \<and> TimestampUTC p = time_Unix tst"
    using ParseOwnTracksLocation_Inr [OF assms] by (auto simp: owntracks_fields_def)
  moreover have "coords_ok p \<and> SourceType p = ''owntracks'' \<and> trimSpace (DeviceID p) \<noteq> [] \<and>
    RawPayload p = Some (trimSpace raw) \<and> IngestHash p = sha256_hex (trimSpace raw)"
    using assms device_fallback_nonblank
    by (auto simp: ParseOwnTracksLocation_def Let_def coords_ok_def hashPayload_def
        simp del: firstNonEmpty.simps split: if_splits option.splits prod.splits)
  ultimately show ?thesis by blast
qed

definition demo_owntracks :: ownTracksPayload where
  "demo_owntracks =
     \<lparr>ot_Type = ''location'', ot_Lat = Some ''41.5'', ot_Lon = Some ''-87'', ot_Tst = Some ''7'',
      ot_Acc = None, ot_Alt = None, ot_Batt = None, ot_Vel = None, ot_TID = ''p'', ot_Topic = []\<rparr>"

definition demo_json :: json_lib where
  "demo_json =
     \<lparr>js_ownTracks = (\<lambda>_. Some demo_owntracks), js_overland = (\<lambda>_. None),
      js_string = (\<lambda>_. None), js_string_list = (\<lambda>_. None), js_activity = (\<lambda>_. None)\<rparr>"

lemma demo_numbers:
  "number_Float64 ''41.5'' = Some (83 / 2)" "number_Float64 ''-87'' = Some (- 87)"
  "parseInt64 ''7'' = Some 7"
  by (simp_all add: number_Float64_def split_exp_def split_frac_def all_digits_def undec_def
      digit_val_def is_digit_def parse_exp_def scale10_def max_float64_def parseInt64_def)

lemma demo_braces: "trimSpace ''{}'' = ''{}''"
  by (rule trimSpace_graphic) (simp_all add: graphic_def)

lemma parseTopic_Nil: "parseTopic [] = ([], [])"
  by (simp add: parseTopic_def)

theorem ParseOwnTracksLocation_sound_witness:
  "\<exists>p. ParseOwnTracksLocation demo_json ''{}'' = Inr p \<and> Lat p = 83 / 2 \<and> coords_ok p \<and>
       trimSpace (DeviceID p) \<noteq> []"
proof -
  obtain p where p: "ParseOwnTracksLocation demo_json ''{}'' = Inr p" and "Lat p = 83 / 2"
    by (simp add: ParseOwnTracksLocation_def demo_json_def demo_owntracks_def demo_numbers
        demo_braces Let_def parseTopic_Nil)
  with ParseOwnTracksLocation_sound [OF p] show ?thesis by blast
qed

subsection \<open>Overland\<close>

text \<open>
  An Overland batch is all or nothing: once the payload has decoded, it is accepted
  exactly when it has at least one location and every location is valid.
\<close>

theorem ParseOverlandBatch_accepts_iff:
  "(\<exists>ps. ParseOverlandBatch J raw = Inr ps) \<longleftrightarrow>
   trimSpace raw \<noteq> [] \<and>
   (\<exists>pl. js_overland J (trimSpace raw) = Some pl \<and> ob_Locations pl \<noteq> [] \<and>
         list_all valid_location (ob_Locations pl))"
  using overlandPoints_Inr_iff
  by (auto simp: ParseOverlandBatch_def Let_def split: option.splits)

text \<open>
  Claim C35. An accepted Overland batch gives one point per location, in order: coordinates in
  range, a device id that is not blank, the location's own timestamp, a hash of the body and the
  index, and the body itself as raw payload only when the batch has a single location.
\<close>

theorem ParseOverlandBatch_points:
  assumes "ParseOverlandBatch J raw = Inr ps"
    and "js_overland J (trimSpace raw) = Some pl"
    and "k < length ps"
  shows "length ps = length (ob_Locations pl) \<and> coords_ok (ps ! k) \<and>
    trimSpace (DeviceID (ps ! k)) \<noteq> [] \<and>
    parse_RFC3339Nano (ol_Timestamp (ob_Locations pl ! k)) = Some (TimestampUTC (ps ! k)) \<and>
    IngestHash (ps ! k) = sha256_hex (trimSpace raw @ ''#'' @ dec k) \<and>
    RawPayload (ps ! k) = (if length ps = 1 then Some (trimSpace raw) else None)"
proof -
  let ?d = "firstNonEmpty [ob_DeviceID pl, ''unknown-device'']"
  let ?sg = "length (ob_Locations pl) = 1"
  from assms(1,2) have run:
    "overlandPoints J (trimSpace raw) ?d ?sg 0 (ob_Locations pl) = Inr ps"
    by (simp add: ParseOverlandBatch_def Let_def split: if_splits)
  note n = overlandPoints_nth [OF run]
  have "overlandPoint J (trimSpace raw) ?d ?sg k (ob_Locations pl ! k) = Inr (ps ! k)"
    using n assms(3) by auto
  note shape = overlandPoint_shape [OF this]
  have "trimSpace ?d \<noteq> []" by (rule device_fallback_nonblank) simp
  with shape n show ?thesis by auto
qed

definition demo_location :: overlandLocation where
  "demo_location =
     \<lparr>ol_Coordinates = [- 87, 41], ol_Timestamp = ''2024-01-01T00:00:00Z'',
      ol_HorizontalAccuracy = None, ol_Altitude = None, ol_Speed = None,
      ol_MotionRaw = [], ol_ActivityRaw = []\<rparr>"

definition demo_overland_json :: json_lib where
  "demo_overland_json =
     demo_json\<lparr>js_overland := (\<lambda>_. Some \<lparr>ob_DeviceID = [], ob_Locations = [demo_location]\<rparr>)\<rparr>"

lemma demo_timestamp: "parse_RFC3339Nano ''2024-01-01T00:00:00Z'' = Some 63839664000000000000"
  by code_simp

lemma demo_location_valid: "valid_location demo_location"
proof -
  have "trimSpace ''2024-01-01T00:00:00Z'' = ''2024-01-01T00:00:00Z''"
    by (rule trimSpace_graphic) (simp_all add: graphic_def)
  then show ?thesis by (simp add: valid_location_def demo_location_def demo_timestamp)
qed

theorem ParseOverlandBatch_points_witness:
  "\<exists>ps. ParseOverlandBatch demo_overland_json ''{}'' = Inr ps \<and> length ps = 1 \<and>
        coords_ok (ps ! 0) \<and> RawPayload (ps ! 0) = Some ''{}''"
proof -
  let ?pl = "\<lparr>ob_DeviceID = [], ob_Locations = [demo_location]\<rparr>"
  have js: "js_overland demo_overland_json (trimSpace ''{}'') = Some ?pl"
    by (simp add: demo_overland_json_def demo_json_def)
  have run: "ParseOverlandBatch demo_overland_json ''{}'' =
      overlandPoints demo_overland_json ''{}'' (firstNonEmpty [[], ''unknown-device'']) True 0
        [demo_location]"
    using js by (simp add: ParseOverlandBatch_def Let_def demo_braces del: overlandPoints.simps)
  have "list_all valid_location [demo_location]" using demo_location_valid by simp
  then obtain ps where ps: "ParseOverlandBatch demo_overland_json ''{}'' = Inr ps"
    unfolding run using overlandPoints_Inr_iff by blast
  have "length ps = 1" using overlandPoints_nth [OF ps [unfolded run]] by simp
  then have "0 < length ps" by simp
  with ParseOverlandBatch_points [OF ps js this] \<open>length ps = 1\<close> ps show ?thesis
    by (auto simp: demo_braces)
qed

end
