(* ===== verification/Codec.thy ===== *)
theory Codec
  imports Ingest
begin

text \<open>
  \<^verbatim>\<open>internal/spool/record_codec.go\<close> and \<^verbatim>\<open>internal/spool/checkpoint.go\<close>: one JSON object per
  line for records, one JSON object for the checkpoint. \<^verbatim>\<open>json.Marshal\<close> and
  \<^verbatim>\<open>json.Unmarshal\<close> on these two struct types are the fields of the argument \<open>codec\<close>;
  \<open>codec_ok\<close> names what the program relies on: an encoded struct is one line of text
  between braces, and decoding it gives the struct back. The law is claimed only for records
  whose strings are valid UTF-8 (\<^verbatim>\<open>Marshal\<close> replaces other bytes) and only where
  \<^verbatim>\<open>Marshal\<close> succeeds (it refuses years outside 0 to 9999).
\<close>

record Checkpoint =
  LastCommittedSeq :: uint64
  UpdatedAtUTC :: gotime

record codec =
  marshalRecord :: "SpoolRecord \<Rightarrow> string option"
  unmarshalRecord :: "string \<Rightarrow> SpoolRecord option"
  marshalCheckpoint :: "Checkpoint \<Rightarrow> string option"
  unmarshalCheckpoint :: "string \<Rightarrow> Checkpoint option"

datatype codec_error =
    ErrSerializeRecord
  | ErrRecordEmptyLine
  | ErrRecordInvalid
  | ErrSerializeCheckpoint
  | ErrCheckpointEmptyData
  | ErrCheckpointInvalid

section \<open>Operations\<close>

definition SerializeRecord :: "codec \<Rightarrow> SpoolRecord \<Rightarrow> codec_error + string" where
  "SerializeRecord J r =
     (case marshalRecord J r of None \<Rightarrow> Inl ErrSerializeRecord | Some d \<Rightarrow> Inr (d @ [newline]))"

definition DeserializeRecord :: "codec \<Rightarrow> string \<Rightarrow> codec_error + SpoolRecord" where
  "DeserializeRecord J line =
     (let trimmed = trimSpace line in
      if trimmed = [] then Inl ErrRecordEmptyLine
      else case unmarshalRecord J trimmed of None \<Rightarrow> Inl ErrRecordInvalid | Some r \<Rightarrow> Inr r)"

definition SerializeCheckpoint :: "codec \<Rightarrow> gotime \<Rightarrow> Checkpoint \<Rightarrow> codec_error + string" where
  "SerializeCheckpoint J now c =
     (let c' = (if time_IsZero (UpdatedAtUTC c) then c\<lparr>UpdatedAtUTC := now\<rparr> else c) in
      case marshalCheckpoint J c' of
        None \<Rightarrow> Inl ErrSerializeCheckpoint
      | Some d \<Rightarrow> Inr (d @ [newline]))"

definition DeserializeCheckpoint :: "codec \<Rightarrow> string \<Rightarrow> codec_error + Checkpoint" where
  "DeserializeCheckpoint J data =
     (let trimmed = trimSpace data in
      if trimmed = [] then Inl ErrCheckpointEmptyData
      else case unmarshalCheckpoint J trimmed of
             None \<Rightarrow> Inl ErrCheckpointInvalid
           | Some c \<Rightarrow> Inr c)"

section \<open>What is relied on of encoding/json\<close>

definition cont_byte :: "char \<Rightarrow> bool" where
  "cont_byte c \<longleftrightarrow> 128 \<le> (of_char c :: nat) \<and> (of_char c :: nat) \<le> 191"

fun utf8_valid :: "string \<Rightarrow> bool" where
  "utf8_valid [] = True"
| "utf8_valid (a # s) =
     (let n = (of_char a :: nat) in
      if n < 128 then utf8_valid s
      else if 194 \<le> n \<and> n \<le> 223 then
        (case s of b # t \<Rightarrow> cont_byte b \<and> utf8_valid t | _ \<Rightarrow> False)
      else if 224 \<le> n \<and> n \<le> 239 then
        (case s of
           b # c # t \<Rightarrow>
             cont_byte b \<and> cont_byte c \<and> (n = 224 \<longrightarrow> 160 \<le> (of_char b :: nat)) \<and>
             (n = 237 \<longrightarrow> (of_char b :: nat) \<le> 159) \<and> utf8_valid t
         | _ \<Rightarrow> False)
      else if 240 \<le> n \<and> n \<le> 244 then
        (case s of
           b # c # d # t \<Rightarrow>
             cont_byte b \<and> cont_byte c \<and> cont_byte d \<and> (n = 240 \<longrightarrow> 144 \<le> (of_char b :: nat)) \<and>
             (n = 244 \<longrightarrow> (of_char b :: nat) \<le> 143) \<and> utf8_valid t
         | _ \<Rightarrow> False)
      else False)"

definition utf8_record :: "SpoolRecord \<Rightarrow> bool" where
  "utf8_record r \<longleftrightarrow>
     utf8_valid (RecDeviceID r) \<and> utf8_valid (UserID (Point r)) \<and> utf8_valid (DeviceID (Point r)) \<and>
     utf8_valid (SourceType (Point r)) \<and> utf8_valid (IngestHash (Point r)) \<and>
     (case MotionType (Point r) of None \<Rightarrow> True | Some m \<Rightarrow> utf8_valid m)"

lemma utf8_ascii: "\<forall>c \<in> set s. (of_char c :: nat) < 128 \<Longrightarrow> utf8_valid s"
  by (induction s) (auto simp: Let_def)

definition json_text :: "string \<Rightarrow> bool" where
  "json_text d \<longleftrightarrow> d \<noteq> [] \<and> hd d = CHR ''{'' \<and> last d = CHR ''}'' \<and> newline \<notin> set d"

definition codec_ok :: "codec \<Rightarrow> bool" where
  "codec_ok J \<longleftrightarrow>
     (\<forall>r d. utf8_record r \<longrightarrow> marshalRecord J r = Some d \<longrightarrow>
        json_text d \<and> unmarshalRecord J d = Some r) \<and>
     (\<forall>c d. marshalCheckpoint J c = Some d \<longrightarrow> json_text d \<and> unmarshalCheckpoint J d = Some c)"

section \<open>Round trips\<close>

lemma json_text_trim [simp]:
  assumes "json_text d"
  shows "trimSpace d = d" and "trimSpace (d @ [newline]) = d" and "d \<noteq> []"
  using assms trimSpace_graphic [of d] by (auto simp: json_text_def graphic_def)

lemma Deserialize_Serialize_Record:
  assumes "codec_ok J" and "utf8_record r" and "SerializeRecord J r = Inr line"
  shows "DeserializeRecord J line = Inr r"
  using assms
  by (auto simp: codec_ok_def SerializeRecord_def DeserializeRecord_def Let_def split: option.splits)

lemma SerializeRecord_line:
  assumes "codec_ok J" and "utf8_record r" and "SerializeRecord J r = Inr line"
  shows "\<exists>d. line = d @ [newline] \<and> newline \<notin> set d"
  using assms by (auto simp: codec_ok_def SerializeRecord_def json_text_def split: option.splits)

lemma Deserialize_Serialize_Checkpoint:
  assumes "codec_ok J" and "SerializeCheckpoint J now c = Inr data"
  shows "DeserializeCheckpoint J data =
    Inr (if time_IsZero (UpdatedAtUTC c) then c\<lparr>UpdatedAtUTC := now\<rparr> else c)"
  using assms
  by (auto simp: codec_ok_def SerializeCheckpoint_def DeserializeCheckpoint_def Let_def
      split: option.splits if_splits)

text \<open>
  A codec over finite tables of records and checkpoints satisfies the law: the position in the
  table is the payload of the object. It serves the witnesses.
\<close>

fun index_of :: "'a list \<Rightarrow> 'a \<Rightarrow> nat option" where
  "index_of [] x = None"
| "index_of (y # ys) x = (if y = x then Some 0 else map_option Suc (index_of ys x))"

definition braces :: "nat \<Rightarrow> string" where
  "braces i = ''{'' @ dec i @ ''}''"

definition unbraces :: "'a list \<Rightarrow> string \<Rightarrow> 'a option" where
  "unbraces xs s = (let i = undec (butlast (tl s)) in
     if i < length xs \<and> s = braces i then Some (xs ! i) else None)"

definition table_codec :: "SpoolRecord list \<Rightarrow> Checkpoint list \<Rightarrow> codec" where
  "table_codec rs cs =
     \<lparr>marshalRecord = (\<lambda>r. map_option braces (index_of rs r)),
      unmarshalRecord = unbraces rs,
      marshalCheckpoint = (\<lambda>c. map_option braces (index_of cs c)),
      unmarshalCheckpoint = unbraces cs\<rparr>"

lemma index_of_Some: "index_of xs x = Some i \<Longrightarrow> i < length xs \<and> xs ! i = x"
  by (induction xs arbitrary: i) (auto split: if_splits)

lemma braces_json: "json_text (braces i)"
  using dec_digits [of i] by (auto simp: json_text_def braces_def is_digit_def)

lemma unbraces_braces [simp]: "i < length xs \<Longrightarrow> unbraces xs (braces i) = Some (xs ! i)"
  by (simp add: unbraces_def braces_def Let_def)

lemma table_codec_ok: "codec_ok (table_codec rs cs)"
  by (auto simp: codec_ok_def table_codec_def braces_json dest!: index_of_Some)

section \<open>Sample data for the witnesses\<close>

definition sample_point :: "string \<Rightarrow> string \<Rightarrow> gotime \<Rightarrow> CanonicalPoint" where
  "sample_point dev h t =
     \<lparr>UserID = [], DeviceID = dev, SourceType = ''owntracks'', TimestampUTC = t, Lat = 0, Lon = 0,
      Altitude = None, Accuracy = None, Speed = None, Heading = None, Battery = None,
      MotionType = None, RawPayload = None, IngestHash = h\<rparr>"

definition sample_record :: "uint64 \<Rightarrow> string \<Rightarrow> string \<Rightarrow> gotime \<Rightarrow> SpoolRecord" where
  "sample_record n dev h t =
     \<lparr>Seq = n, RecDeviceID = dev, ReceivedAt = t, Point = sample_point dev h t,
      CheckpointOnly = False\<rparr>"

lemmas sample_defs = sample_record_def sample_point_def

end
