(* ===== verification/Interfaces.thy ===== *)
theory Interfaces
  imports Codec
begin

text \<open>
  The contracts between the components, one locale per Go interface of
  \<^verbatim>\<open>internal/flusher/flusher.go\<close>: \<^verbatim>\<open>Buffer\<close>, \<^verbatim>\<open>Store\<close>, and \<^verbatim>\<open>CheckpointManager\<close> with
  \<^verbatim>\<open>SpoolCompactor\<close>. A provider interprets its locale on its own operations; a client proves
  its lemmas against the locale.
\<close>

section \<open>The highest sequence number of a batch\<close>

primrec max_seq :: "SpoolRecord list \<Rightarrow> uint64" where
  "max_seq [] = 0"
| "max_seq (r # rs) = max (Seq r) (max_seq rs)"

lemma fold_max_Seq:
  "(a :: uint64) \<le> fold (max \<circ> Seq) rs a \<and> (\<forall>r \<in> set rs. Seq r \<le> fold (max \<circ> Seq) rs a) \<and>
   (fold (max \<circ> Seq) rs a = a \<or> fold (max \<circ> Seq) rs a \<in> Seq ` set rs)"
proof (induction rs arbitrary: a)
  case (Cons r rs)
  from Cons [of "max (Seq r) a"] show ?case by (auto simp: max_def split: if_splits)
qed simp

lemma fold_max_start: "fold (max \<circ> Seq) rs a = max a (max_seq rs)"
  by (induction rs arbitrary: a) (simp_all add: max.assoc max.commute max.left_commute)

lemma max_seq_append [simp]: "max_seq (rs @ rs') = max (max_seq rs) (max_seq rs')"
  by (induction rs) (simp_all add: max.assoc)

lemma max_seq_upper: "r \<in> set rs \<Longrightarrow> Seq r \<le> max_seq rs"
  by (induction rs) (auto simp: le_max_iff_disj)

lemma max_seq_in: "0 < max_seq rs \<Longrightarrow> max_seq rs \<in> Seq ` set rs"
  by (induction rs) (auto simp: max_def split: if_splits)

section \<open>The record buffer\<close>

text \<open>
  A buffer holds a list of records. Draining takes records from the front; requeueing what was
  just drained puts the list back; the point counter is the length of the list.
\<close>

locale flush_buffer =
  fixes buf_inv :: "'b \<Rightarrow> bool"
    and held :: "'b \<Rightarrow> SpoolRecord list"
    and drain :: "int \<Rightarrow> 'b \<Rightarrow> SpoolRecord list \<times> 'b"
    and requeue :: "SpoolRecord list \<Rightarrow> ('b, 'be, unit) gomethod"
    and points :: "'b \<Rightarrow> int \<times> 'b"
  assumes drain_law:
      "buf_inv b \<Longrightarrow> 0 < n \<Longrightarrow> drain n b = (rs, b') \<Longrightarrow>
       buf_inv b' \<and> rs = take (nat n) (held b) \<and> held b' = drop (nat n) (held b)"
    and requeue_law:
      "buf_inv b \<Longrightarrow> 0 < n \<Longrightarrow> drain n b = (rs, b') \<Longrightarrow> requeue rs b' = (res, b'') \<Longrightarrow>
       res = Inr () \<and> buf_inv b'' \<and> held b'' = held b"
    and points_law:
      "buf_inv b \<Longrightarrow> points b = (k, b') \<Longrightarrow>
       buf_inv b' \<and> held b' = held b \<and> k = int (length (held b))"
begin

lemma drain_split:
  assumes "buf_inv b" and "0 < n" and "drain n b = (rs, b')"
  shows "held b = rs @ held b'"
  using drain_law [OF assms] by simp

lemma drain_progress:
  assumes "buf_inv b" and "0 < n" and "drain n b = (rs, b')" and "rs \<noteq> []"
  shows "length (held b') < length (held b)"
  using drain_law [OF assms(1-3)] assms(2,4) by (cases "held b") auto

lemma drain_empty_iff:
  assumes "buf_inv b" and "0 < n" and "drain n b = (rs, b')"
  shows "rs = [] \<longleftrightarrow> held b = []"
  using drain_law [OF assms] assms(2) by auto

end

text \<open>
  What the buffer remembers of earlier records (for the suppression of near duplicates) is not
  touched by draining, requeueing or counting.
\<close>

locale remembering_buffer = flush_buffer buf_inv held drain requeue points
  for buf_inv :: "'b \<Rightarrow> bool"
    and held :: "'b \<Rightarrow> SpoolRecord list"
    and drain :: "int \<Rightarrow> 'b \<Rightarrow> SpoolRecord list \<times> 'b"
    and requeue :: "SpoolRecord list \<Rightarrow> ('b, 'be, unit) gomethod"
    and points :: "'b \<Rightarrow> int \<times> 'b" +
  fixes memory :: "'b \<Rightarrow> 'k"
  assumes drain_memory: "drain n b = (rs, b') \<Longrightarrow> memory b' = memory b"
    and requeue_memory: "requeue rs b = (res, b') \<Longrightarrow> memory b' = memory b"
    and points_memory: "points b = (n, b') \<Longrightarrow> memory b' = memory b"

section \<open>The durable store\<close>

text \<open>
  An insert is atomic: it either stores every record of the batch, keeps what was stored and
  reports the highest sequence number, or it fails and leaves what is stored as it was.
\<close>

locale flush_store =
  fixes store_inv :: "'d \<Rightarrow> bool"
    and persisted :: "'d \<Rightarrow> SpoolRecord \<Rightarrow> bool"
    and insert_batch :: "SpoolRecord list \<Rightarrow> ('d, 'de, uint64) gomethod"
  assumes insert_ok:
      "store_inv d \<Longrightarrow> ws \<noteq> [] \<Longrightarrow> insert_batch ws d = (Inr m, d') \<Longrightarrow>
       store_inv d' \<and> (\<forall>r \<in> set ws. persisted d' r) \<and> (\<forall>r. persisted d r \<longrightarrow> persisted d' r) \<and>
       (\<forall>r \<in> set ws. Seq r \<le> m) \<and> m \<in> Seq ` set ws"
    and insert_err:
      "store_inv d \<Longrightarrow> insert_batch ws d = (Inl e, d') \<Longrightarrow>
       store_inv d' \<and> (\<forall>r. persisted d' r \<longleftrightarrow> persisted d r)"

section \<open>The checkpoint manager\<close>

text \<open>
  \<open>committed\<close> is the checkpoint, \<open>pending\<close> what a replay would return. Advancing moves the
  checkpoint forward only and drops exactly the records at or below it from the replay;
  a failed advance and a compaction change neither.
\<close>

locale checkpoint_manager =
  fixes ck_inv :: "'c \<Rightarrow> bool"
    and committed :: "'c \<Rightarrow> uint64"
    and pending :: "'c \<Rightarrow> SpoolRecord list"
    and advance :: "uint64 \<Rightarrow> ('c, 'ce, Checkpoint) gomethod"
    and compact :: "('c, 'ce, int) gomethod"
  assumes advance_ok:
      "ck_inv c \<Longrightarrow> advance n c = (Inr cp, c') \<Longrightarrow>
       ck_inv c' \<and> committed c' = max (committed c) n \<and>
       pending c' = filter (\<lambda>r. n < Seq r) (pending c)"
    and advance_err:
      "ck_inv c \<Longrightarrow> advance n c = (Inl e, c') \<Longrightarrow>
       ck_inv c' \<and> committed c' = committed c \<and> pending c' = pending c"
    and compact_law:
      "ck_inv c \<Longrightarrow> compact c = (res, c') \<Longrightarrow>
       ck_inv c' \<and> committed c' = committed c \<and> pending c' = pending c"

text \<open>
  The spool also numbers the records. Neither operation touches the next number.
\<close>

locale numbered_checkpoint = checkpoint_manager ck_inv committed pending advance compactor
  for ck_inv :: "'c \<Rightarrow> bool"
    and committed :: "'c \<Rightarrow> uint64"
    and pending :: "'c \<Rightarrow> SpoolRecord list"
    and advance :: "uint64 \<Rightarrow> ('c, 'ce, Checkpoint) gomethod"
    and compactor :: "('c, 'ce, int) gomethod" +
  fixes next_number :: "'c \<Rightarrow> uint64"
  assumes advance_number: "ck_inv c \<Longrightarrow> advance n c = (res, c') \<Longrightarrow> next_number c' = next_number c"
    and compact_number: "ck_inv c \<Longrightarrow> compactor c = (k, c') \<Longrightarrow> next_number c' = next_number c"

end
