(* ===== verification/Flusher.thy ===== *)
theory Flusher
  imports Interfaces
begin

text \<open>
  \<^verbatim>\<open>internal/flusher/flusher.go\<close>: draining the buffer in batches, committing each batch to the
  store, advancing the checkpoint and compacting the spool. The three collaborators are Go
  interfaces; \<open>collaborators\<close> is the record of their methods, so that every operation below is
  written once and runs on any implementation, as in the source. The locale \<open>flusher\<close> assumes the
  three contracts of \<open>Interfaces\<close> and derives what a flush guarantees.

  The goroutine \<^verbatim>\<open>run\<close> waits on three channels; each arm is one step of \<open>run_step\<close>. A loop that
  could run for ever is a \<^theory_text>\<open>partial_function\<close> into \<^typ>\<open>'a option\<close>, and that it returns is proved.
\<close>

section \<open>Interfaces and state\<close>

record ('b, 'd, 'c, 'be, 'de, 'ce) collaborators =
  DrainBatch_of :: "int \<Rightarrow> 'b \<Rightarrow> SpoolRecord list \<times> 'b"
  RequeueFront_of :: "SpoolRecord list \<Rightarrow> ('b, 'be, unit) gomethod"
  StatsPoints_of :: "'b \<Rightarrow> int \<times> 'b"
  InsertSpoolBatch_of :: "SpoolRecord list \<Rightarrow> ('d, 'de, uint64) gomethod"
  AdvanceCheckpoint_of :: "uint64 \<Rightarrow> ('c, 'ce, Checkpoint) gomethod"
  Compactor_of :: "('c, 'ce, int) gomethod option"

text \<open>\<open>Compactor_of\<close> is the result of the type assertion \<^verbatim>\<open>f.checkpoint.(SpoolCompactor)\<close>.\<close>

record Config =
  FlushInterval :: duration
  FlushBatchSize :: int

datatype ('de, 'ce) flush_error = FlushStore 'de | FlushCheckpoint 'ce

record ('de, 'ce) LastFlushResult =
  AtUTC :: gotime
  LastSuccessAtUTC :: gotime
  Success :: bool
  Error :: "('de, 'ce) flush_error option"

record ('b, 'd, 'c) world =
  buffer :: 'b
  store :: 'd
  checkpoint :: 'c

text \<open>
  The flusher: its configuration, whether \<^verbatim>\<open>Start\<close> has run, whether \<^verbatim>\<open>stopCh\<close> and \<^verbatim>\<open>doneCh\<close> are
  closed, the one-place channel \<^verbatim>\<open>triggerCh\<close>, and the guarded results.
\<close>

record ('b, 'd, 'c, 'de, 'ce) Flusher =
  world :: "('b, 'd, 'c) world"
  config :: Config
  started :: bool
  stopCh :: bool
  doneCh :: bool
  triggerCh :: bool
  lastResult :: "('de, 'ce) LastFlushResult"
  lastResultSeen :: bool
  lastSuccessAt :: gotime
  fclock :: "nat \<Rightarrow> gotime"
  fticks :: nat

definition New ::
  "'d \<Rightarrow> 'c \<Rightarrow> 'b \<Rightarrow> Config \<Rightarrow> (nat \<Rightarrow> gotime) \<Rightarrow> ('b, 'd, 'c, 'de, 'ce) Flusher" where
  "New d c b cfg clk =
     (let cfg1 = (if FlushInterval cfg \<le> 0 then cfg\<lparr>FlushInterval := 10 * second\<rparr> else cfg);
          cfg2 = (if FlushBatchSize cfg1 \<le> 0 then cfg1\<lparr>FlushBatchSize := 128\<rparr> else cfg1)
      in \<lparr>world = \<lparr>buffer = b, store = d, checkpoint = c\<rparr>, config = cfg2, started = False,
          stopCh = False, doneCh = False, triggerCh = False,
          lastResult = \<lparr>AtUTC = 0, LastSuccessAtUTC = 0, Success = False, Error = None\<rparr>,
          lastResultSeen = False, lastSuccessAt = 0, fclock = clk, fticks = 0\<rparr>)"

definition Start :: "('b, 'd, 'c, 'de, 'ce) Flusher \<Rightarrow> ('b, 'd, 'c, 'de, 'ce) Flusher" where
  "Start f = (if started f then f else f\<lparr>started := True\<rparr>)"

text \<open>A send to a full channel takes the \<^verbatim>\<open>default\<close> arm.\<close>

definition TriggerFlush :: "('b, 'd, 'c, 'de, 'ce) Flusher \<Rightarrow> ('b, 'd, 'c, 'de, 'ce) Flusher" where
  "TriggerFlush f = (if triggerCh f then f else f\<lparr>triggerCh := True\<rparr>)"

section \<open>One batch\<close>

fun splitLoop :: "SpoolRecord list \<Rightarrow> uint64 \<Rightarrow> SpoolRecord list \<Rightarrow> SpoolRecord list \<times> uint64" where
  "splitLoop writeBatch maxSeq [] = (writeBatch, maxSeq)"
| "splitLoop writeBatch maxSeq (r # rs) =
     (let maxSeq' = (if Seq r > maxSeq then Seq r else maxSeq) in
      if CheckpointOnly r then splitLoop writeBatch maxSeq' rs
      else splitLoop (writeBatch @ [r]) maxSeq' rs)"

definition splitWriteAndCheckpointBatch :: "SpoolRecord list \<Rightarrow> SpoolRecord list \<times> uint64" where
  "splitWriteAndCheckpointBatch batch = splitLoop [] 0 batch"

definition compactCommittedSegmentsBestEffort ::
  "('b, 'd, 'c, 'be, 'de, 'ce) collaborators \<Rightarrow> 'c \<Rightarrow> 'c" where
  "compactCommittedSegmentsBestEffort I c =
     (case Compactor_of I of None \<Rightarrow> c | Some compactor \<Rightarrow> snd (compactor c))"

text \<open>The write of the batch, when there is something to write.\<close>

definition writeBatchStep ::
  "('b, 'd, 'c, 'be, 'de, 'ce) collaborators \<Rightarrow> SpoolRecord list \<Rightarrow> uint64 \<Rightarrow> ('d, 'de, uint64) gomethod"
  where
  "writeBatchStep I writeBatch maxSeq d =
     (if writeBatch = [] then (Inr maxSeq, d)
      else case InsertSpoolBatch_of I writeBatch d of
             (Inl e, d1) \<Rightarrow> (Inl e, d1)
           | (Inr committedMaxSeq, d1) \<Rightarrow>
               (Inr (if committedMaxSeq > maxSeq then committedMaxSeq else maxSeq), d1))"

text \<open>
  The checkpoint: on an error the drained batch goes back to the front of the buffer, so that a
  later pass retries.
\<close>

definition checkpointStep ::
  "('b, 'd, 'c, 'be, 'de, 'ce) collaborators \<Rightarrow> SpoolRecord list \<Rightarrow> uint64 \<Rightarrow>
   (('b, 'd, 'c) world, ('de, 'ce) flush_error, bool) gomethod" where
  "checkpointStep I batch maxSeq w =
     (if maxSeq > 0 then
        (case AdvanceCheckpoint_of I maxSeq (checkpoint w) of
           (Inl e, c1) \<Rightarrow>
             (Inl (FlushCheckpoint e),
              w\<lparr>buffer := snd (RequeueFront_of I batch (buffer w)), checkpoint := c1\<rparr>)
         | (Inr _, c1) \<Rightarrow>
             (Inr True, w\<lparr>checkpoint := compactCommittedSegmentsBestEffort I c1\<rparr>))
      else (Inr True, w))"

definition flushOneBatch ::
  "('b, 'd, 'c, 'be, 'de, 'ce) collaborators \<Rightarrow> Config \<Rightarrow>
   (('b, 'd, 'c) world, ('de, 'ce) flush_error, bool) gomethod" where
  "flushOneBatch I cfg w =
     (case DrainBatch_of I (FlushBatchSize cfg) (buffer w) of (batch, b1) \<Rightarrow>
      if batch = [] then (Inr False, w\<lparr>buffer := b1\<rparr>)
      else case splitWriteAndCheckpointBatch batch of (writeBatch, maxSeq0) \<Rightarrow>
        case writeBatchStep I writeBatch maxSeq0 (store w) of
          (Inl e, d1) \<Rightarrow>
            (Inl (FlushStore e), w\<lparr>buffer := snd (RequeueFront_of I batch b1), store := d1\<rparr>)
        | (Inr maxSeq, d1) \<Rightarrow> checkpointStep I batch maxSeq (w\<lparr>buffer := b1, store := d1\<rparr>))"

section \<open>Passes\<close>

partial_function (option) flushLoop ::
  "('b, 'd, 'c, 'be, 'de, 'ce) collaborators \<Rightarrow> Config \<Rightarrow> ('b, 'd, 'c) world \<Rightarrow>
   ((('de, 'ce) flush_error + unit) \<times> ('b, 'd, 'c) world) option" where
  "flushLoop I cfg w =
     (case flushOneBatch I cfg w of (res, w1) \<Rightarrow>
      (case res of
         Inl e \<Rightarrow> Some (Inl e, w1)
       | Inr flushed \<Rightarrow>
           if \<not> flushed then Some (Inr (), w1)
           else (case StatsPoints_of I (buffer w1) of (n, b2) \<Rightarrow>
             (let w2 = w1\<lparr>buffer := b2\<rparr> in
              if n = 0 then Some (Inr (), w2)
              else if n < FlushBatchSize cfg then Some (Inr (), w2)
              else flushLoop I cfg w2))))"

definition flushPass ::
  "('b, 'd, 'c, 'be, 'de, 'ce) collaborators \<Rightarrow> Config \<Rightarrow> bool \<Rightarrow> ('b, 'd, 'c) world \<Rightarrow>
   ((('de, 'ce) flush_error + unit) \<times> ('b, 'd, 'c) world) option" where
  "flushPass I cfg timerMode w =
     (case StatsPoints_of I (buffer w) of (n, b1) \<Rightarrow>
      let w1 = w\<lparr>buffer := b1\<rparr> in
      if n = 0 then Some (Inr (), w1)
      else if \<not> timerMode \<and> n < FlushBatchSize cfg then Some (Inr (), w1)
      else flushLoop I cfg w1)"

partial_function (option) flushUntilEmpty ::
  "('b, 'd, 'c, 'be, 'de, 'ce) collaborators \<Rightarrow> Config \<Rightarrow> ('b, 'd, 'c) world \<Rightarrow>
   ((('de, 'ce) flush_error + unit) \<times> ('b, 'd, 'c) world) option" where
  "flushUntilEmpty I cfg w =
     (case flushOneBatch I cfg w of (res, w1) \<Rightarrow>
      (case res of
         Inl e \<Rightarrow> Some (Inl e, w1)
       | Inr flushed \<Rightarrow> if \<not> flushed then Some (Inr (), w1) else flushUntilEmpty I cfg w1))"

declare flushLoop.simps [code] flushUntilEmpty.simps [code]

definition recordFlushResult ::
  "('de, 'ce) flush_error option \<Rightarrow> ('b, 'd, 'c, 'de, 'ce) Flusher \<Rightarrow> ('b, 'd, 'c, 'de, 'ce) Flusher"
  where
  "recordFlushResult err f =
     (let now = fclock f (fticks f);
          f1 = f\<lparr>fticks := Suc (fticks f)\<rparr>;
          f2 = (if err = None then f1\<lparr>lastSuccessAt := now\<rparr> else f1)
      in f2\<lparr>lastResult := \<lparr>AtUTC = now, LastSuccessAtUTC = lastSuccessAt f2,
                            Success = (err = None), Error = err\<rparr>,
            lastResultSeen := True\<rparr>)"

definition LastFlushResult_of ::
  "('b, 'd, 'c, 'de, 'ce) Flusher \<Rightarrow> ('de, 'ce) LastFlushResult \<times> bool" where
  "LastFlushResult_of f = (lastResult f, lastResultSeen f)"

definition error_of :: "'e + unit \<Rightarrow> 'e option" where
  "error_of r = (case r of Inl e \<Rightarrow> Some e | Inr _ \<Rightarrow> None)"

definition FlushNow ::
  "('b, 'd, 'c, 'be, 'de, 'ce) collaborators \<Rightarrow> ('b, 'd, 'c, 'de, 'ce) Flusher \<Rightarrow>
   ((('de, 'ce) flush_error + unit) \<times> ('b, 'd, 'c, 'de, 'ce) Flusher) option" where
  "FlushNow I f =
     (case flushPass I (config f) True (world f) of
        None \<Rightarrow> None
      | Some (res, w) \<Rightarrow> Some (res, recordFlushResult (error_of res) (f\<lparr>world := w\<rparr>)))"

text \<open>\<^verbatim>\<open>Stop\<close> closes \<^verbatim>\<open>stopCh\<close> once and then waits for \<^verbatim>\<open>doneCh\<close> or the context.\<close>

definition Stop_request :: "('b, 'd, 'c, 'de, 'ce) Flusher \<Rightarrow> ('b, 'd, 'c, 'de, 'ce) Flusher" where
  "Stop_request f = f\<lparr>stopCh := True\<rparr>"

text \<open>The arms of the \<^verbatim>\<open>select\<close> in \<^verbatim>\<open>run\<close>.\<close>

datatype run_arm = Tick | Triggered | Stopped

definition run_step ::
  "('b, 'd, 'c, 'be, 'de, 'ce) collaborators \<Rightarrow> run_arm \<Rightarrow> ('b, 'd, 'c, 'de, 'ce) Flusher \<Rightarrow>
   ('b, 'd, 'c, 'de, 'ce) Flusher option" where
  "run_step I arm f =
     (if \<not> started f \<or> doneCh f then None
      else case arm of
        Tick \<Rightarrow>
          (case flushPass I (config f) True (world f) of None \<Rightarrow> None
           | Some (res, w) \<Rightarrow> Some (recordFlushResult (error_of res) (f\<lparr>world := w\<rparr>)))
      | Triggered \<Rightarrow>
          (if \<not> triggerCh f then None
           else case flushPass I (config f) False (world f) of None \<Rightarrow> None
           | Some (res, w) \<Rightarrow>
               Some (recordFlushResult (error_of res) (f\<lparr>triggerCh := False, world := w\<rparr>)))
      | Stopped \<Rightarrow>
          (if \<not> stopCh f then None
           else case flushUntilEmpty I (config f) (world f) of None \<Rightarrow> None
           | Some (res, w) \<Rightarrow>
               Some ((recordFlushResult (error_of res) (f\<lparr>world := w\<rparr>))\<lparr>doneCh := True\<rparr>)))"


section \<open>Splitting a batch\<close>

lemma splitLoop_eq:
  "splitLoop ws m rs = (ws @ filter (\<lambda>r. \<not> CheckpointOnly r) rs, fold (max \<circ> Seq) rs m)"
proof (induction rs arbitrary: ws m)
  case (Cons r rs)
  have "(if Seq r > m then Seq r else m) = max (Seq r) m" by (auto simp: max_def)
  with Cons show ?case by (simp add: Let_def)
qed simp

lemma split_eq:
  "splitWriteAndCheckpointBatch rs = (filter (\<lambda>r. \<not> CheckpointOnly r) rs, max_seq rs)"
  by (simp add: splitWriteAndCheckpointBatch_def splitLoop_eq fold_max_start)

section \<open>What a flush guarantees\<close>

text \<open>
  The flusher's contract, derived from the contracts of its collaborators. \<open>handled\<close> is what may
  happen to a record that has left the buffer: it is in the store, or it was marked as a near
  duplicate and only moves the checkpoint.
\<close>

locale flusher =
  remembering_buffer buf_inv held drain requeue points memory +
  flush_store store_inv persisted insert_batch +
  numbered_checkpoint ck_inv committed pending advance compactor next_number
  for buf_inv :: "'b \<Rightarrow> bool"
    and held :: "'b \<Rightarrow> SpoolRecord list"
    and drain :: "int \<Rightarrow> 'b \<Rightarrow> SpoolRecord list \<times> 'b"
    and requeue :: "SpoolRecord list \<Rightarrow> ('b, 'be, unit) gomethod"
    and points :: "'b \<Rightarrow> int \<times> 'b"
    and memory :: "'b \<Rightarrow> 'k"
    and store_inv :: "'d \<Rightarrow> bool"
    and persisted :: "'d \<Rightarrow> SpoolRecord \<Rightarrow> bool"
    and insert_batch :: "SpoolRecord list \<Rightarrow> ('d, 'de, uint64) gomethod"
    and ck_inv :: "'c \<Rightarrow> bool"
    and committed :: "'c \<Rightarrow> uint64"
    and pending :: "'c \<Rightarrow> SpoolRecord list"
    and advance :: "uint64 \<Rightarrow> ('c, 'ce, Checkpoint) gomethod"
    and compactor :: "('c, 'ce, int) gomethod"
    and next_number :: "'c \<Rightarrow> uint64"
begin

abbreviation ops :: "('b, 'd, 'c, 'be, 'de, 'ce) collaborators" where
  "ops \<equiv>
     \<lparr>DrainBatch_of = drain, RequeueFront_of = requeue, StatsPoints_of = points,
      InsertSpoolBatch_of = insert_batch, AdvanceCheckpoint_of = advance,
      Compactor_of = Some compactor\<rparr>"

definition world_inv :: "('b, 'd, 'c) world \<Rightarrow> bool" where
  "world_inv w \<longleftrightarrow> buf_inv (buffer w) \<and> store_inv (store w) \<and> ck_inv (checkpoint w)"

definition queued :: "('b, 'd, 'c) world \<Rightarrow> SpoolRecord list" where
  "queued w = held (buffer w)"

definition handled :: "('b, 'd, 'c) world \<Rightarrow> SpoolRecord \<Rightarrow> bool" where
  "handled w r \<longleftrightarrow> CheckpointOnly r \<or> persisted (store w) r"

text \<open>
  One flush: the records \<open>gone\<close> leave the front of the buffer, all handled; the checkpoint moves
  to the highest of their sequence numbers and the replay loses exactly what is at or below it.
\<close>

definition flushed :: "SpoolRecord list \<Rightarrow> ('b, 'd, 'c) world \<Rightarrow> ('b, 'd, 'c) world \<Rightarrow> bool" where
  "flushed gone w w' \<longleftrightarrow>
     world_inv w' \<and> queued w = gone @ queued w' \<and> (\<forall>r \<in> set gone. handled w' r) \<and>
     (\<forall>r. persisted (store w) r \<longrightarrow> persisted (store w') r) \<and>
     memory (buffer w') = memory (buffer w) \<and>
     next_number (checkpoint w') = next_number (checkpoint w) \<and>
     committed (checkpoint w') = max (committed (checkpoint w)) (max_seq gone) \<and>
     pending (checkpoint w') =
       filter (\<lambda>r. max_seq gone = 0 \<or> max_seq gone < Seq r) (pending (checkpoint w))"

lemma flushed_trans:
  assumes "flushed g1 w w1" and "flushed g2 w1 w2"
  shows "flushed (g1 @ g2) w w2"
proof -
  have "filter (\<lambda>r. max_seq g2 = 0 \<or> max_seq g2 < Seq r)
          (filter (\<lambda>r. max_seq g1 = 0 \<or> max_seq g1 < Seq r) (pending (checkpoint w))) =
        filter (\<lambda>r. max_seq (g1 @ g2) = 0 \<or> max_seq (g1 @ g2) < Seq r) (pending (checkpoint w))"
    by (auto simp: max_def intro!: filter_cong)
  with assms show ?thesis
    by (auto simp: flushed_def handled_def max.assoc)
qed

lemma flushed_stats:
  assumes "world_inv w" and "points (buffer w) = (n, b)"
  shows "flushed [] w (w\<lparr>buffer := b\<rparr>)" and "n = int (length (queued w))"
  using assms points_law [of "buffer w" n b] points_memory [of "buffer w" n b] by (auto simp: flushed_def world_inv_def queued_def)

lemma compact_kept:
  "ck_inv c \<Longrightarrow>
   ck_inv (compactCommittedSegmentsBestEffort ops c) \<and>
   next_number (compactCommittedSegmentsBestEffort ops c) = next_number c \<and>
   committed (compactCommittedSegmentsBestEffort ops c) = committed c \<and>
   pending (compactCommittedSegmentsBestEffort ops c) = pending c"
  using compact_law [of c "fst (compactor c)" "snd (compactor c)"]
    compact_number [of c "fst (compactor c)" "snd (compactor c)"]
  by (simp add: compactCommittedSegmentsBestEffort_def)


text \<open>
  A flush that fails puts its batch back: nothing leaves the buffer, the checkpoint and the
  replay are as before, and what is stored stays stored.
\<close>

definition unflushed :: "('b, 'd, 'c) world \<Rightarrow> ('b, 'd, 'c) world \<Rightarrow> bool" where
  "unflushed w w' \<longleftrightarrow>
     world_inv w' \<and> queued w' = queued w \<and>
     (\<forall>r. persisted (store w) r \<longrightarrow> persisted (store w') r) \<and>
     memory (buffer w') = memory (buffer w) \<and>
     next_number (checkpoint w') = next_number (checkpoint w) \<and>
     committed (checkpoint w') = committed (checkpoint w) \<and>
     pending (checkpoint w') = pending (checkpoint w)"

lemma insert_step:
  assumes "store_inv d" and "ws = filter (\<lambda>r. \<not> CheckpointOnly r) batch"
    and "writeBatchStep ops ws (max_seq batch) d = (res, d')"
  shows "store_inv d' \<and> (\<forall>r. persisted d r \<longrightarrow> persisted d' r) \<and>
    (\<forall>m. res = Inr m \<longrightarrow> m = max_seq batch \<and> (\<forall>r \<in> set ws. persisted d' r))"
proof (cases "ws = []")
  case False
  obtain r d1 where i: "insert_batch ws d = (r, d1)" by fastforce
  show ?thesis
  proof (cases r)
    case (Inl e)
    with assms(3) False i insert_err [OF assms(1), of ws e d1] show ?thesis
      by (auto simp: writeBatchStep_def)
  next
    case (Inr m)
    note ok = insert_ok [OF assms(1) False i [unfolded Inr]]
    then obtain x where "x \<in> set batch" "Seq x = m" using assms(2) by auto
    then have "\<not> m > max_seq batch" using max_seq_upper by force
    with assms(3) False i Inr ok show ?thesis by (auto simp: writeBatchStep_def)
  qed
qed (use assms in \<open>auto simp: writeBatchStep_def\<close>)

text \<open>The second half of \<open>flushOneBatch\<close>: the checkpoint, once the store holds the batch.\<close>

lemma commit_step:
  assumes inv: "world_inv w" and b: "buf_inv b1" "held b1 = drop n (queued w)"
    and mem: "memory b1 = memory (buffer w)" "memory b2 = memory (buffer w)"
    and r: "buf_inv b2" "held b2 = queued w" "b2 = snd (requeue batch b1)"
    and d: "store_inv d1" "\<forall>r. persisted (store w) r \<longrightarrow> persisted d1 r"
    and gone: "\<forall>r \<in> set (take n (queued w)). CheckpointOnly r \<or> persisted d1 r"
    and m: "m = max_seq (take n (queued w))"
    and run: "checkpointStep ops batch m (w\<lparr>buffer := b1, store := d1\<rparr>) = (res, w')"
  shows "case res of
      Inl e \<Rightarrow> unflushed w w'
    | Inr k \<Rightarrow> k \<and> flushed (take n (queued w)) w w'"
proof (cases "m > 0")
  case False
  then have "m = 0" by (simp add: word_gt_0)
  with False run m b d gone inv mem show ?thesis
    by (auto simp: checkpointStep_def flushed_def world_inv_def queued_def handled_def)
next
  case True
  have c: "ck_inv (checkpoint w)" using inv by (simp add: world_inv_def)
  obtain r2 c1 where adv: "advance m (checkpoint w) = (r2, c1)" by fastforce
  show ?thesis
  proof (cases r2)
    case (Inl e)
    with run True adv d r mem advance_err [OF c, of m e c1] advance_number [OF c adv] show ?thesis
      by (auto simp: checkpointStep_def unflushed_def world_inv_def queued_def)
  next
    case (Inr cp)
    note A = advance_ok [OF c adv [unfolded Inr]]
    then have "ck_inv c1" by simp
    note K = compact_kept [OF this]
    have w': "res = Inr True" "w' = w\<lparr>buffer := b1, store := d1,
        checkpoint := compactCommittedSegmentsBestEffort ops c1\<rparr>"
      using run True adv Inr by (auto simp: checkpointStep_def)
    show ?thesis
      unfolding w' sum.case flushed_def
      using K A advance_number [OF c adv] b d gone m True mem
      by (auto simp: world_inv_def queued_def handled_def intro!: filter_cong)
  qed
qed

lemma flushOneBatch_cases:
  assumes inv: "world_inv w" and pos: "0 < FlushBatchSize cfg"
    and run: "flushOneBatch ops cfg w = (res, w')"
  shows "case res of
      Inl e \<Rightarrow> unflushed w w'
    | Inr k \<Rightarrow>
        (if k then queued w \<noteq> [] \<and> flushed (take (nat (FlushBatchSize cfg)) (queued w)) w w'
         else queued w = [] \<and> flushed [] w w')"
proof -
  let ?n = "nat (FlushBatchSize cfg)"
  obtain batch b1 where dr: "drain (FlushBatchSize cfg) (buffer w) = (batch, b1)" by fastforce
  have I: "buf_inv (buffer w)" "store_inv (store w)"
    using inv by (simp_all add: world_inv_def)
  have b1: "buf_inv b1" "held b1 = drop ?n (queued w)" and batch: "batch = take ?n (queued w)"
    using drain_law [OF I(1) pos dr] by (simp_all add: queued_def)
  define b2 where "b2 = snd (requeue batch b1)"
  have b2: "buf_inv b2" "held b2 = queued w"
    using requeue_law [OF I(1) pos dr, of "fst (requeue batch b1)" b2] by (simp_all add: b2_def queued_def)
  have mem: "memory b1 = memory (buffer w)" "memory b2 = memory (buffer w)"
    using drain_memory [OF dr] requeue_memory [OF prod.collapse [symmetric], of batch b1]
    by (simp_all add: b2_def)
  show ?thesis
  proof (cases "batch = []")
    case True
    with run dr b1 batch pos inv mem show ?thesis
      by (auto simp: flushOneBatch_def flushed_def world_inv_def queued_def)
  next
    case False
    define ws where "ws = filter (\<lambda>r. \<not> CheckpointOnly r) batch"
    obtain r1 d1 where ins: "writeBatchStep ops ws (max_seq batch) (store w) = (r1, d1)" by fastforce
    note S = insert_step [OF I(2) ws_def ins]
    show ?thesis
    proof (cases r1)
      case (Inl e)
      with run dr False ins have "res = Inl (FlushStore e)" and "w' = w\<lparr>buffer := b2, store := d1\<rparr>"
        by (auto simp: flushOneBatch_def split_eq ws_def [symmetric] b2_def)
      with S inv b2 mem show ?thesis by (auto simp: unflushed_def world_inv_def queued_def)
    next
      case (Inr m)
      have "\<forall>r \<in> set batch. CheckpointOnly r \<or> persisted d1 r" using S Inr by (auto simp: ws_def)
      then have "case res of Inl e \<Rightarrow> unflushed w w' | Inr k \<Rightarrow> k \<and> flushed batch w w'"
        unfolding batch using S Inr run dr False ins
        by (intro commit_step [OF inv b1 mem b2 b2_def])
          (auto simp: flushOneBatch_def split_eq ws_def [symmetric] batch [symmetric])
      with False batch show ?thesis by (auto split: sum.splits)
    qed
  qed
qed


text \<open>
  A pass: some batches are flushed, and then it is over or the next one fails.
\<close>

definition passed ::
  "('b, 'd, 'c) world \<Rightarrow> (('de, 'ce) flush_error + unit) \<Rightarrow> ('b, 'd, 'c) world \<Rightarrow> bool" where
  "passed w res w' \<longleftrightarrow>
     (\<exists>gone w1. flushed gone w w1 \<and> (case res of Inl e \<Rightarrow> unflushed w1 w' | Inr _ \<Rightarrow> w1 = w'))"

lemma passed_after:
  assumes "flushed gone w w1" and "passed w1 res w'"
  shows "passed w res w'"
proof -
  obtain gone' w2 where "flushed gone' w1 w2"
    and "case res of Inl e \<Rightarrow> unflushed w2 w' | Inr _ \<Rightarrow> w2 = w'"
    using assms(2) by (auto simp: passed_def)
  with flushed_trans [OF assms(1)] show ?thesis unfolding passed_def by blast
qed

lemma passed_once:
  "flushed gone w w' \<Longrightarrow> passed w (Inr u) w'"
  "world_inv w \<Longrightarrow> unflushed w w' \<Longrightarrow> passed w (Inl e) w'"
  by (force simp: passed_def flushed_def)+

lemma flushed_shorter:
  assumes "flushed (take n (queued w)) w w'" and "queued w \<noteq> []" and "0 < n"
  shows "length (queued w') < length (queued w)"
proof -
  have "length (queued w) = length (take n (queued w)) + length (queued w')"
    using assms(1) unfolding flushed_def by (metis length_append)
  moreover have "take n (queued w) \<noteq> []" using assms(2,3) by simp
  ultimately show ?thesis by (metis length_greater_0_conv less_add_same_cancel2)
qed

lemma flushLoop_returns:
  assumes "world_inv w" and pos: "0 < FlushBatchSize cfg"
  shows "\<exists>res w'. flushLoop ops cfg w = Some (res, w') \<and> passed w res w' \<and>
    (\<forall>u. res = Inr u \<longrightarrow> int (length (queued w')) < FlushBatchSize cfg)"
  using assms(1)
proof (induction "length (queued w)" arbitrary: w rule: less_induct)
  case less
  obtain r1 w1 where one: "flushOneBatch ops cfg w = (r1, w1)" by fastforce
  note C = flushOneBatch_cases [OF less.prems pos one]
  show ?case
  proof (cases "r1 = Inr True")
    case False
    then show ?thesis
      using C one pos less.prems passed_once [where w = w and w' = w1]
      by (subst flushLoop.simps) (auto simp: flushed_def queued_def split: sum.splits if_splits)
  next
    case True
    with C have f1: "flushed (take (nat (FlushBatchSize cfg)) (queued w)) w w1" and ne: "queued w \<noteq> []"
      by auto
    then have i1: "world_inv w1" by (simp add: flushed_def)
    obtain n b2 where st: "points (buffer w1) = (n, b2)" by fastforce
    let ?w2 = "w1\<lparr>buffer := b2\<rparr>"
    note P = flushed_stats [OF i1 st]
    have f2: "flushed (take (nat (FlushBatchSize cfg)) (queued w)) w ?w2"
      using flushed_trans [OF f1 P(1)] by simp
    have q2: "queued ?w2 = queued w1" using P(1) by (simp add: flushed_def)
    show ?thesis
    proof (cases "n < FlushBatchSize cfg")
      case small: True
      have "flushLoop ops cfg w = Some (Inr (), ?w2)"
        using one True st small by (subst flushLoop.simps) (simp add: Let_def)
      with passed_once(1) [OF f2] P(2) q2 small show ?thesis by auto
    next
      case False
      then have "n \<noteq> 0" using pos by simp
      then have step: "flushLoop ops cfg w = flushLoop ops cfg ?w2"
        using one True st False by (subst flushLoop.simps) (simp add: Let_def)
      have "length (queued ?w2) < length (queued w)"
        using flushed_shorter [OF f1 ne] pos q2 by simp
      moreover have "world_inv ?w2" using f2 by (simp add: flushed_def)
      ultimately show ?thesis
        using less.hyps [of ?w2] step passed_after [OF f2] by auto
    qed
  qed
qed

lemma flushPass_returns:
  assumes "world_inv w" and "0 < FlushBatchSize cfg"
  shows "\<exists>res w'. flushPass ops cfg timerMode w = Some (res, w') \<and> passed w res w' \<and>
    (\<forall>u. res = Inr u \<longrightarrow> int (length (queued w')) < FlushBatchSize cfg)"
proof -
  obtain n b where st: "points (buffer w) = (n, b)" by fastforce
  note P = flushed_stats [OF assms(1) st]
  let ?w1 = "w\<lparr>buffer := b\<rparr>"
  have i1: "world_inv ?w1" and q1: "queued ?w1 = queued w" using P(1) by (simp_all add: flushed_def)
  from flushLoop_returns [OF i1 assms(2)] passed_after [OF P(1)] passed_once(1) [OF P(1)] P(2) q1 assms(2)
  show ?thesis by (auto simp: flushPass_def st Let_def)
qed

lemma flushUntilEmpty_returns:
  assumes "world_inv w" and pos: "0 < FlushBatchSize cfg"
  shows "\<exists>res w'. flushUntilEmpty ops cfg w = Some (res, w') \<and> passed w res w' \<and>
    (\<forall>u. res = Inr u \<longrightarrow> queued w' = [])"
  using assms(1)
proof (induction "length (queued w)" arbitrary: w rule: less_induct)
  case less
  obtain r1 w1 where one: "flushOneBatch ops cfg w = (r1, w1)" by fastforce
  note C = flushOneBatch_cases [OF less.prems pos one]
  show ?case
  proof (cases "r1 = Inr True")
    case False
    then show ?thesis
      using C one less.prems passed_once [where w = w and w' = w1]
      by (subst flushUntilEmpty.simps) (auto simp: flushed_def split: sum.splits if_splits)
  next
    case True
    with C have f1: "flushed (take (nat (FlushBatchSize cfg)) (queued w)) w w1" and ne: "queued w \<noteq> []"
      by auto
    have step: "flushUntilEmpty ops cfg w = flushUntilEmpty ops cfg w1"
      using one True by (subst flushUntilEmpty.simps) simp
    have "length (queued w1) < length (queued w)" using flushed_shorter [OF f1 ne] pos by simp
    moreover have "world_inv w1" using f1 by (simp add: flushed_def)
    ultimately show ?thesis using less.hyps [of w1] step passed_after [OF f1] by auto
  qed
qed

end

end
