(* ===== verification/Geo.thy ===== *)
theory Geo
  imports Prelude
begin

text \<open>
  The great-circle distance of \<^verbatim>\<open>internal/buffer/manager.go\<close> and of
  \<^verbatim>\<open>internal/visits/detector.go\<close>. The two packages carry their own copy with the terms in a
  different order; the copies are shown to be the same function of real numbers, and the
  function to be a distance: symmetric, zero on equal points, never negative, at most half the
  circumference, and exact along a meridian.
\<close>

definition earthRadiusMeters :: real where
  "earthRadiusMeters = 6371000"

definition math_Atan2 :: "real \<Rightarrow> real \<Rightarrow> real" where
  "math_Atan2 y x =
     (if 0 < x then arctan (y / x)
      else if x < 0 then (if 0 \<le> y then arctan (y / x) + pi else arctan (y / x) - pi)
      else if 0 < y then pi / 2 else if y < 0 then - pi / 2 else 0)"

text \<open>The copy of package \<^verbatim>\<open>buffer\<close>.\<close>

definition haversineMeters :: "float64 \<Rightarrow> float64 \<Rightarrow> float64 \<Rightarrow> float64 \<Rightarrow> float64" where
  "haversineMeters lat1 lon1 lat2 lon2 =
     (let lat1Rad = lat1 * pi / 180;
          lon1Rad = lon1 * pi / 180;
          lat2Rad = lat2 * pi / 180;
          lon2Rad = lon2 * pi / 180;
          dLat = lat2Rad - lat1Rad;
          dLon = lon2Rad - lon1Rad;
          a = sin (dLat / 2) * sin (dLat / 2) +
              cos lat1Rad * cos lat2Rad * sin (dLon / 2) * sin (dLon / 2);
          c = 2 * math_Atan2 (sqrt a) (sqrt (1 - a))
      in earthRadiusMeters * c)"

text \<open>The copy of package \<^verbatim>\<open>visits\<close>.\<close>

definition visits_haversineMeters :: "float64 \<Rightarrow> float64 \<Rightarrow> float64 \<Rightarrow> float64 \<Rightarrow> float64" where
  "visits_haversineMeters lat1 lon1 lat2 lon2 =
     (let lat1Rad = lat1 * pi / 180;
          lat2Rad = lat2 * pi / 180;
          dLat = (lat2 - lat1) * pi / 180;
          dLon = (lon2 - lon1) * pi / 180;
          a = sin (dLat / 2) * sin (dLat / 2) +
              cos lat1Rad * cos lat2Rad * sin (dLon / 2) * sin (dLon / 2);
          c = 2 * math_Atan2 (sqrt a) (sqrt (1 - a))
      in earthRadiusMeters * c)"

section \<open>The haversine term\<close>

definition hav :: "real \<Rightarrow> real \<Rightarrow> real \<Rightarrow> real" where
  "hav f1 f2 dl = sin ((f2 - f1) / 2) ^ 2 + cos f1 * cos f2 * sin (dl / 2) ^ 2"

definition hav_angle :: "real \<Rightarrow> real" where
  "hav_angle a = 2 * math_Atan2 (sqrt a) (sqrt (1 - a))"

lemma sin_half_sq: "sin (x / 2) ^ 2 = (1 - cos x) / (2::real)"
proof -
  have "cos (2 * (x / 2)) = 1 - 2 * sin (x / 2) ^ 2" by (rule cos_double_sin)
  then show ?thesis by simp
qed

lemma hav_alt: "hav f1 f2 dl = (1 - (sin f1 * sin f2 + cos f1 * cos f2 * cos dl)) / 2"
  unfolding hav_def sin_half_sq by (simp add: cos_diff field_simps)

lemma spherical_cos_bounds:
  fixes f1 f2 dl :: real
  defines "k \<equiv> sin f1 * sin f2 + cos f1 * cos f2 * cos dl"
  shows "- 1 \<le> k" and "k \<le> 1"
proof -
  let ?s = "sin f1 * sin f2" and ?c = "cos f1 * cos f2"
  have ends: "- 1 \<le> ?s + ?c" "?s + ?c \<le> 1" "- 1 \<le> ?s - ?c" "?s - ?c \<le> 1"
    using cos_ge_minus_one [of "f1 - f2"] cos_le_one [of "f1 - f2"]
      cos_ge_minus_one [of "f1 + f2"] cos_le_one [of "f1 + f2"]
    by (simp_all add: cos_diff cos_add)
  have "\<bar>?c * cos dl\<bar> \<le> \<bar>?c\<bar>"
    using abs_cos_le_one [of dl] by (simp add: abs_mult mult_left_le)
  then have "- \<bar>?c\<bar> \<le> ?c * cos dl" and "?c * cos dl \<le> \<bar>?c\<bar>" by linarith+
  with ends show "- 1 \<le> k" and "k \<le> 1" by (auto simp: k_def abs_if split: if_splits)
qed

lemma hav_bounds: "0 \<le> hav f1 f2 dl" "hav f1 f2 dl \<le> 1"
  using spherical_cos_bounds [of f1 f2 dl] by (simp_all add: hav_alt)

lemma haversine_hav:
  "haversineMeters lat1 lon1 lat2 lon2 =
   earthRadiusMeters *
     hav_angle (hav (lat1 * pi / 180) (lat2 * pi / 180) (lon2 * pi / 180 - lon1 * pi / 180))"
  by (simp add: haversineMeters_def hav_angle_def hav_def Let_def power2_eq_square mult.assoc)

lemma visits_haversine_eq: "visits_haversineMeters = haversineMeters"
proof (intro ext)
  fix a b c d :: real
  have "(c - a) * pi / 180 = c * pi / 180 - a * pi / 180"
    and "(d - b) * pi / 180 = d * pi / 180 - b * pi / 180"
    by (simp_all add: algebra_simps diff_divide_distrib)
  then show "visits_haversineMeters a b c d = haversineMeters a b c d"
    by (simp only: visits_haversineMeters_def haversineMeters_def Let_def)
qed

lemma hav_angle_bounds:
  assumes "0 \<le> a" and "a \<le> 1"
  shows "0 \<le> hav_angle a" and "hav_angle a \<le> pi"
proof -
  have "0 \<le> math_Atan2 (sqrt a) (sqrt (1 - a)) \<and> math_Atan2 (sqrt a) (sqrt (1 - a)) \<le> pi / 2"
  proof (cases "a < 1")
    case True
    then have "0 < sqrt (1 - a)" by simp
    then show ?thesis
      using assms arctan_ubound [of "sqrt a / sqrt (1 - a)"] by (simp add: math_Atan2_def)
  next
    case False
    with assms have "a = 1" by simp
    then show ?thesis by (simp add: math_Atan2_def)
  qed
  then show "0 \<le> hav_angle a" and "hav_angle a \<le> pi" by (simp_all add: hav_angle_def)
qed

lemma hav_angle_sin:
  assumes "0 \<le> x" and "x \<le> pi"
  shows "hav_angle (sin (x / 2) ^ 2) = x"
proof -
  have s: "sqrt (sin (x / 2) ^ 2) = sin (x / 2)"
    using assms by (simp add: sin_ge_zero)
  have c: "sqrt (1 - sin (x / 2) ^ 2) = cos (x / 2)"
    using assms by (simp add: cos_squared_eq [symmetric] cos_ge_zero)
  have "math_Atan2 (sin (x / 2)) (cos (x / 2)) = x / 2"
  proof (cases "x = pi")
    case True
    then show ?thesis by (simp add: math_Atan2_def)
  next
    case False
    with assms have "0 < cos (x / 2)" by (intro cos_gt_zero_pi) auto
    moreover have "arctan (tan (x / 2)) = x / 2"
      using assms False pi_gt_zero by (intro arctan_tan) linarith+
    ultimately show ?thesis by (simp add: math_Atan2_def tan_def)
  qed
  then show ?thesis unfolding hav_angle_def s c by simp
qed

section \<open>The distance\<close>

lemma haversine_same [simp]: "haversineMeters lat lon lat lon = 0"
  by (simp add: haversine_hav hav_def hav_angle_def math_Atan2_def)

lemma haversine_sym: "haversineMeters a b c d = haversineMeters c d a b"
proof -
  have "cos (d * pi / 180 - b * pi / 180) = cos (b * pi / 180 - d * pi / 180)"
    by (metis cos_minus minus_diff_eq)
  then show ?thesis by (simp add: haversine_hav hav_alt mult.commute)
qed

lemma haversine_nonneg: "0 \<le> haversineMeters a b c d"
  by (simp add: haversine_hav earthRadiusMeters_def hav_angle_bounds hav_bounds)

lemma haversine_le: "haversineMeters a b c d \<le> earthRadiusMeters * pi"
  by (simp add: haversine_hav earthRadiusMeters_def hav_angle_bounds hav_bounds)

lemma haversine_meridian:
  assumes "\<bar>lat2 - lat1\<bar> \<le> 180"
  shows "haversineMeters lat1 lon lat2 lon = earthRadiusMeters * (\<bar>lat2 - lat1\<bar> * pi / 180)"
proof -
  let ?x = "\<bar>lat2 - lat1\<bar> * pi / 180"
  have "?x \<le> 180 * pi / 180"
    using assms by (intro divide_right_mono mult_right_mono) auto
  then have r: "0 \<le> ?x" "?x \<le> pi" by auto
  have "sin ((lat2 * pi / 180 - lat1 * pi / 180) / 2) ^ 2 = sin (?x / 2) ^ 2"
  proof (cases "lat1 \<le> lat2")
    case True
    then have "?x = lat2 * pi / 180 - lat1 * pi / 180"
      by (simp add: algebra_simps diff_divide_distrib)
    then show ?thesis by (simp only:)
  next
    case False
    then have "?x = - (lat2 * pi / 180 - lat1 * pi / 180)"
      by (simp add: algebra_simps diff_divide_distrib)
    then show ?thesis by (metis minus_divide_left power2_minus sin_minus)
  qed
  then show ?thesis using hav_angle_sin [OF r] by (simp add: haversine_hav hav_def)
qed

end
