(* ===== verification/Buffer.thy ===== *)
theory Buffer
  imports Interfaces Geo
begin

text \<open>
  \<^verbatim>\<open>internal/buffer/manager.go\<close>: the FIFO of spool records kept in RAM, its limits, its
  per-device counters and the suppression of near duplicates. The receiver \<^verbatim>\<open>*Manager\<close> is
  the record \<open>Manager\<close>; each method maps it to the new one (the mutex makes every method one
  step). \<^verbatim>\<open>nowFn\<close> is the stream of clock readings \<open>clock\<close>, of which \<open>ticks\<close> have been used.
\<close>

datatype buffer_error = ErrMaxPointsExceeded | ErrMaxBytesExceeded | ErrEstimate

record Stats =
  TotalBufferedPoints :: int
  TotalBufferedBytes :: int
  OldestBufferedAge :: duration

record entry =
  entry_record :: SpoolRecord
  sizeBytes :: int
  enqueuedAt :: gotime

record dedupeState =
  ds_timestampUTC :: gotime
  ds_lat :: float64
  ds_lon :: float64

record Manager =
  maxPoints :: int
  maxBytes :: int
  totalPoints :: int
  totalBytes :: int
  queue :: "entry list"
  deviceCounts :: "string \<rightharpoonup> int"
  lastByDevice :: "string \<rightharpoonup> dedupeState"
  dedupeTime :: duration
  dedupeDistM :: float64
  clock :: "nat \<Rightarrow> gotime"
  ticks :: nat

definition NewManagerWithDedupe ::
  "(nat \<Rightarrow> gotime) \<Rightarrow> int \<Rightarrow> int \<Rightarrow> duration \<Rightarrow> float64 \<Rightarrow> Manager" where
  "NewManagerWithDedupe clk maxP maxB maxTimeDelta maxDistanceMeters =
     \<lparr>maxPoints = (if maxP \<le> 0 then 1 else maxP),
      maxBytes = (if maxB \<le> 0 then 1 else maxB),
      totalPoints = 0, totalBytes = 0, queue = [],
      deviceCounts = Map.empty, lastByDevice = Map.empty,
      dedupeTime = (if maxTimeDelta < 0 then 0 else maxTimeDelta),
      dedupeDistM = (if maxDistanceMeters < 0 then 0 else maxDistanceMeters),
      clock = clk, ticks = 0\<rparr>"

definition NewManager :: "(nat \<Rightarrow> gotime) \<Rightarrow> int \<Rightarrow> int \<Rightarrow> Manager" where
  "NewManager clk maxP maxB = NewManagerWithDedupe clk maxP maxB (2 * second) 10"

section \<open>Near duplicates\<close>

text \<open>
  \<^verbatim>\<open>timeDiff = -timeDiff\<close> wraps: the most negative duration is its own negation.
\<close>

definition isNearDuplicate ::
  "SpoolRecord \<Rightarrow> (string \<rightharpoonup> dedupeState) \<Rightarrow> duration \<Rightarrow> float64 \<Rightarrow> bool" where
  "isNearDuplicate record stateByDevice maxTimeDelta maxDistanceMeters =
     (case stateByDevice (RecDeviceID record) of
        None \<Rightarrow> False
      | Some prev \<Rightarrow>
          let ts = TimestampUTC (Point record) in
          if time_IsZero ts \<or> time_IsZero (ds_timestampUTC prev) then False
          else let d = time_Sub ts (ds_timestampUTC prev);
                   timeDiff = (if d < 0 then wrap_int64 (- d) else d)
               in if timeDiff > maxTimeDelta then False
                  else haversineMeters (ds_lat prev) (ds_lon prev)
                         (Lat (Point record)) (Lon (Point record)) \<le> maxDistanceMeters)"

text \<open>The test against one remembered point.\<close>

definition near_to :: "duration \<Rightarrow> float64 \<Rightarrow> dedupeState \<Rightarrow> SpoolRecord \<Rightarrow> bool" where
  "near_to dt dm prev r = isNearDuplicate r (\<lambda>_. Some prev) dt dm"

lemma isNearDuplicate_near_to:
  "isNearDuplicate r c dt dm =
   (case c (RecDeviceID r) of None \<Rightarrow> False | Some prev \<Rightarrow> near_to dt dm prev r)"
  by (simp add: isNearDuplicate_def near_to_def Let_def split: option.split)

definition suppress :: "SpoolRecord \<Rightarrow> SpoolRecord" where
  "suppress r = r\<lparr>CheckpointOnly := True, Point := (Point r)\<lparr>RawPayload := None\<rparr>\<rparr>"

definition dedupe_of :: "SpoolRecord \<Rightarrow> dedupeState" where
  "dedupe_of r =
     \<lparr>ds_timestampUTC = TimestampUTC (Point r), ds_lat = Lat (Point r), ds_lon = Lon (Point r)\<rparr>"

fun filterLoop ::
  "duration \<Rightarrow> float64 \<Rightarrow> (string \<rightharpoonup> dedupeState) \<Rightarrow> (string \<rightharpoonup> dedupeState) \<Rightarrow> SpoolRecord list
   \<Rightarrow> SpoolRecord list \<times> (string \<rightharpoonup> dedupeState)" where
  "filterLoop dt dm candidate updated [] = ([], updated)"
| "filterLoop dt dm candidate updated (r # rs) =
     (if isNearDuplicate r candidate dt dm
      then (case filterLoop dt dm candidate updated rs of (out, u) \<Rightarrow> (suppress r # out, u))
      else (case filterLoop dt dm (candidate(RecDeviceID r \<mapsto> dedupe_of r))
                   (updated(RecDeviceID r \<mapsto> dedupe_of r)) rs of
              (out, u) \<Rightarrow> (r # out, u)))"

definition filterNearDuplicates ::
  "Manager \<Rightarrow> SpoolRecord list \<Rightarrow> SpoolRecord list \<times> (string \<rightharpoonup> dedupeState)" where
  "filterNearDuplicates m records =
     (if dedupeTime m = 0 \<and> dedupeDistM m = 0 then (records, Map.empty)
      else filterLoop (dedupeTime m) (dedupeDistM m) (lastByDevice m) Map.empty records)"

section \<open>Queue operations\<close>

definition estimateRecordBytes :: "codec \<Rightarrow> SpoolRecord \<Rightarrow> buffer_error + int" where
  "estimateRecordBytes J r =
     (case marshalRecord J r of None \<Rightarrow> Inl ErrEstimate | Some d \<Rightarrow> Inr (int (length d) + 1))"

fun sumRecordBytes :: "codec \<Rightarrow> SpoolRecord list \<Rightarrow> buffer_error + int" where
  "sumRecordBytes J [] = Inr 0"
| "sumRecordBytes J (r # rs) =
     (case estimateRecordBytes J r of
        Inl e \<Rightarrow> Inl e
      | Inr n \<Rightarrow> (case sumRecordBytes J rs of Inl e \<Rightarrow> Inl e | Inr k \<Rightarrow> Inr (n + k)))"

text \<open>\<^verbatim>\<open>size, _ := estimateRecordBytes(record)\<close>: zero when the estimate fails.\<close>

definition sizeOrZero :: "codec \<Rightarrow> SpoolRecord \<Rightarrow> int" where
  "sizeOrZero J r = (case estimateRecordBytes J r of Inl _ \<Rightarrow> 0 | Inr n \<Rightarrow> n)"

definition countUp :: "string \<Rightarrow> (string \<rightharpoonup> int) \<Rightarrow> (string \<rightharpoonup> int)" where
  "countUp d c = c(d \<mapsto> (case c d of None \<Rightarrow> 0 | Some n \<Rightarrow> n) + 1)"

definition countDown :: "string \<Rightarrow> (string \<rightharpoonup> int) \<Rightarrow> (string \<rightharpoonup> int)" where
  "countDown d c =
     (let n = (case c d of None \<Rightarrow> 0 | Some k \<Rightarrow> k) - 1 in
      if n \<le> 0 then c(d := None) else c(d \<mapsto> n))"

definition pushBack :: "codec \<Rightarrow> gotime \<Rightarrow> SpoolRecord \<Rightarrow> Manager \<Rightarrow> Manager" where
  "pushBack J now r m =
     m\<lparr>queue := queue m @ [\<lparr>entry_record = r, sizeBytes = sizeOrZero J r, enqueuedAt = now\<rparr>],
       totalPoints := totalPoints m + 1,
       totalBytes := totalBytes m + sizeOrZero J r,
       deviceCounts := countUp (RecDeviceID r) (deviceCounts m)\<rparr>"

definition Enqueue :: "codec \<Rightarrow> SpoolRecord list \<Rightarrow> (Manager, buffer_error, unit) gomethod" where
  "Enqueue J records m =
     (if records = [] then (Inr (), m)
      else case filterNearDuplicates m records of (filtered, nextDedupeState) \<Rightarrow>
        if filtered = [] then (Inr (), m)
        else case sumRecordBytes J filtered of
          Inl e \<Rightarrow> (Inl e, m)
        | Inr incomingBytes \<Rightarrow>
            if totalPoints m + int (length filtered) > maxPoints m
            then (Inl ErrMaxPointsExceeded, m)
            else if totalBytes m + incomingBytes > maxBytes m
            then (Inl ErrMaxBytesExceeded, m)
            else let now = clock m (ticks m);
                     m1 = m\<lparr>ticks := Suc (ticks m)\<rparr>;
                     m2 = fold (pushBack J now) filtered m1
                 in (Inr (), m2\<lparr>lastByDevice := lastByDevice m2 ++ nextDedupeState\<rparr>))"

definition dropOne :: "entry \<Rightarrow> Manager \<Rightarrow> Manager" where
  "dropOne item m =
     m\<lparr>totalPoints := totalPoints m - 1,
       totalBytes := totalBytes m - sizeBytes item,
       deviceCounts := countDown (RecDeviceID (entry_record item)) (deviceCounts m)\<rparr>"

definition DrainBatch :: "int \<Rightarrow> Manager \<Rightarrow> SpoolRecord list \<times> Manager" where
  "DrainBatch n m =
     (if n \<le> 0 then ([], m)
      else if queue m = [] then ([], m)
      else let count = nat (if n > int (length (queue m)) then int (length (queue m)) else n);
               items = take count (queue m);
               m1 = fold dropOne items m
           in (map entry_record items, m1\<lparr>queue := drop count (queue m)\<rparr>))"

text \<open>
  \<^verbatim>\<open>RequeueFront\<close> bumps the counters record by record and returns at the first record it cannot
  size, before the queue is replaced: the counters then keep what was added.
\<close>

fun requeueLoop :: "codec \<Rightarrow> gotime \<Rightarrow> entry list \<Rightarrow> SpoolRecord list \<Rightarrow> (Manager, buffer_error, entry list) gomethod"
where
  "requeueLoop J now pre [] m = (Inr pre, m)"
| "requeueLoop J now pre (r # rs) m =
     (case estimateRecordBytes J r of
        Inl e \<Rightarrow> (Inl e, m)
      | Inr sz \<Rightarrow>
          requeueLoop J now
            (pre @ [\<lparr>entry_record = r, sizeBytes = sz, enqueuedAt = now\<rparr>]) rs
            (m\<lparr>totalPoints := totalPoints m + 1,
               totalBytes := totalBytes m + sz,
               deviceCounts := countUp (RecDeviceID r) (deviceCounts m)\<rparr>))"

definition RequeueFront :: "codec \<Rightarrow> SpoolRecord list \<Rightarrow> (Manager, buffer_error, unit) gomethod" where
  "RequeueFront J records m =
     (if records = [] then (Inr (), m)
      else let now = clock m (ticks m); m1 = m\<lparr>ticks := Suc (ticks m)\<rparr> in
        case requeueLoop J now [] records m1 of
          (Inl e, m2) \<Rightarrow> (Inl e, m2)
        | (Inr pre, m2) \<Rightarrow> (Inr (), m2\<lparr>queue := pre @ queue m2\<rparr>))"

definition ManagerStats :: "Manager \<Rightarrow> Stats \<times> Manager" where
  "ManagerStats m =
     (case queue m of
        [] \<Rightarrow> (\<lparr>TotalBufferedPoints = totalPoints m, TotalBufferedBytes = totalBytes m,
               OldestBufferedAge = 0\<rparr>, m)
      | e # _ \<Rightarrow>
          let age = time_Sub (clock m (ticks m)) (enqueuedAt e) in
          (\<lparr>TotalBufferedPoints = totalPoints m, TotalBufferedBytes = totalBytes m,
            OldestBufferedAge = (if age < 0 then 0 else age)\<rparr>,
           m\<lparr>ticks := Suc (ticks m)\<rparr>))"

section \<open>Invariant\<close>

definition contents :: "Manager \<Rightarrow> SpoolRecord list" where
  "contents m = map entry_record (queue m)"

definition sized :: "codec \<Rightarrow> entry \<Rightarrow> bool" where
  "sized J e \<longleftrightarrow> estimateRecordBytes J (entry_record e) = Inr (sizeBytes e)"

definition device_count :: "entry list \<Rightarrow> string \<rightharpoonup> int" where
  "device_count q d =
     (let n = length (filter (\<lambda>e. RecDeviceID (entry_record e) = d) q) in
      if n = 0 then None else Some (int n))"

definition buffer_inv :: "codec \<Rightarrow> Manager \<Rightarrow> bool" where
  "buffer_inv J m \<longleftrightarrow>
     totalPoints m = int (length (queue m)) \<and>
     totalBytes m = sum_list (map sizeBytes (queue m)) \<and>
     list_all (sized J) (queue m) \<and>
     deviceCounts m = device_count (queue m)"

definition within_limits :: "Manager \<Rightarrow> bool" where
  "within_limits m \<longleftrightarrow> totalPoints m \<le> maxPoints m \<and> totalBytes m \<le> maxBytes m"

lemma device_count_snoc:
  "device_count (q @ [e]) = countUp (RecDeviceID (entry_record e)) (device_count q)"
  by (auto simp: device_count_def countUp_def Let_def fun_eq_iff)

lemma device_count_Cons:
  "device_count (e # q) = countUp (RecDeviceID (entry_record e)) (device_count q)"
  by (auto simp: device_count_def countUp_def Let_def fun_eq_iff)

lemma countDown_Cons:
  "countDown (RecDeviceID (entry_record e)) (device_count (e # q)) = device_count q"
  by (auto simp: device_count_def countDown_def Let_def fun_eq_iff)

lemma countUp_commute: "countUp a (countUp b c) = countUp b (countUp a c)"
  by (auto simp: countUp_def fun_eq_iff)

lemma device_count_records:
  assumes "map entry_record p = map entry_record q"
  shows "device_count p = device_count q"
proof
  fix x
  have "device_count q x = (let n = length (filter (\<lambda>r. RecDeviceID r = x) (map entry_record q)) in
      if n = 0 then None else Some (int n))" for q
    by (simp only: device_count_def filter_map length_map comp_def)
  with assms show "device_count p x = device_count q x" by (simp only:)
qed

lemma sizeBytes_pos: "sized J e \<Longrightarrow> 0 < sizeBytes e"
  by (auto simp: sized_def estimateRecordBytes_def split: option.splits)

lemma NewManager_inv: "buffer_inv J (NewManagerWithDedupe clk p b t d)"
  by (simp add: buffer_inv_def NewManagerWithDedupe_def device_count_def fun_eq_iff)

lemma NewManager_limits: "within_limits (NewManagerWithDedupe clk p b t d)"
  by (simp add: within_limits_def NewManagerWithDedupe_def)

subsection \<open>Enqueue\<close>

lemma sumRecordBytes_Inr:
  "sumRecordBytes J rs = Inr n \<Longrightarrow>
   n = sum_list (map (sizeOrZero J) rs) \<and>
   (\<forall>r \<in> set rs. estimateRecordBytes J r = Inr (sizeOrZero J r))"
  by (induction rs arbitrary: n) (auto simp: sizeOrZero_def split: sum.splits)

definition mk_entry :: "codec \<Rightarrow> gotime \<Rightarrow> SpoolRecord \<Rightarrow> entry" where
  "mk_entry J now r = \<lparr>entry_record = r, sizeBytes = sizeOrZero J r, enqueuedAt = now\<rparr>"

lemma fold_pushBack:
  "fold (pushBack J now) rs m =
   m\<lparr>queue := queue m @ map (mk_entry J now) rs,
     totalPoints := totalPoints m + int (length rs),
     totalBytes := totalBytes m + sum_list (map (sizeOrZero J) rs),
     deviceCounts := fold countUp (map RecDeviceID rs) (deviceCounts m)\<rparr>"
  by (induction rs arbitrary: m) (simp_all add: pushBack_def mk_entry_def)

lemma fold_countUp_device_count:
  "fold countUp (map RecDeviceID rs) (device_count q) = device_count (q @ map (mk_entry J now) rs)"
proof (induction rs arbitrary: q)
  case (Cons r rs)
  have "countUp (RecDeviceID r) (device_count q) = device_count (q @ [mk_entry J now r])"
    by (simp add: device_count_snoc mk_entry_def)
  with Cons [of "q @ [mk_entry J now r]"] show ?case by simp
qed simp

lemma entry_record_mk [simp]: "entry_record (mk_entry J now r) = r" "entry_record \<circ> mk_entry J now = id"
  by (simp_all add: mk_entry_def fun_eq_iff)

lemma length_filterLoop: "length (fst (filterLoop dt dm c u rs)) = length rs"
  by (induction dt dm c u rs rule: filterLoop.induct)
    (simp_all add: case_prod_beta del: fun_upd_apply)

lemma length_filterNearDuplicates [simp]: "length (fst (filterNearDuplicates m rs)) = length rs"
  by (simp add: filterNearDuplicates_def length_filterLoop)

lemma filterNearDuplicates_Nil [simp]: "fst (filterNearDuplicates m []) = []"
  by (simp add: filterNearDuplicates_def)

text \<open>The four ways a call of \<open>Enqueue\<close> can go.\<close>

lemma Enqueue_cases:
  obtains
    (empty) "rs = []" "Enqueue J rs m = (Inr (), m)"
  | (estimate) e where "sumRecordBytes J (fst (filterNearDuplicates m rs)) = Inl e"
      "Enqueue J rs m = (Inl e, m)"
  | (limit) e where "e = ErrMaxPointsExceeded \<or> e = ErrMaxBytesExceeded"
      "Enqueue J rs m = (Inl e, m)"
  | (ok) n m' out where "rs \<noteq> []" "out = fst (filterNearDuplicates m rs)"
      "sumRecordBytes J out = Inr n"
      "totalPoints m + int (length rs) \<le> maxPoints m" "totalBytes m + n \<le> maxBytes m"
      "Enqueue J rs m = (Inr (), m')"
      "m' = m\<lparr>ticks := Suc (ticks m),
        queue := queue m @ map (mk_entry J (clock m (ticks m))) out,
        totalPoints := totalPoints m + int (length rs),
        totalBytes := totalBytes m + n,
        deviceCounts := fold countUp (map RecDeviceID out) (deviceCounts m),
        lastByDevice := lastByDevice m ++ snd (filterNearDuplicates m rs)\<rparr>"
proof (cases "rs = []")
  case True
  then show ?thesis using empty by (simp add: Enqueue_def)
next
  case False
  obtain out u where f: "filterNearDuplicates m rs = (out, u)" by force
  with False have "out \<noteq> []" and len: "length out = length rs"
    using length_filterNearDuplicates [of m rs] by auto
  note E = Enqueue_def [of J rs m] f False \<open>out \<noteq> []\<close>
  show ?thesis
  proof (cases "sumRecordBytes J out")
    case (Inl e)
    then show ?thesis using estimate f by (simp add: E)
  next
    case (Inr n)
    note S = sumRecordBytes_Inr [OF Inr]
    show ?thesis
    proof (cases "totalPoints m + int (length out) > maxPoints m \<or> totalBytes m + n > maxBytes m")
      case True
      then show ?thesis
        using limit [of ErrMaxPointsExceeded] limit [of ErrMaxBytesExceeded] Inr
        by (cases "totalPoints m + int (length out) > maxPoints m") (simp_all add: E)
    next
      case False
      then show ?thesis using ok [of out n] Inr f S \<open>rs \<noteq> []\<close>
        by (simp add: E fold_pushBack len Let_def)
    qed
  qed
qed

lemma Enqueue_error_unchanged: "Enqueue J rs m = (Inl e, m') \<Longrightarrow> m' = m"
  by (cases rule: Enqueue_cases [of rs J m]) auto

lemma Enqueue_contents:
  "Enqueue J rs m = (Inr (), m') \<Longrightarrow> contents m' = contents m @ fst (filterNearDuplicates m rs)"
  by (cases rule: Enqueue_cases [of rs J m]) (auto simp: contents_def)

lemma Enqueue_inv [inv_intros]:
  assumes "buffer_inv J m" and "Enqueue J rs m = (res, m')"
  shows "buffer_inv J m'"
proof (cases rule: Enqueue_cases [of rs J m])
  case (ok n m'' out)
  note S = sumRecordBytes_Inr [OF ok(3)]
  have "length out = length rs" using ok(2) by simp
  moreover have "list_all (sized J) (map (mk_entry J now) out)" for now
    using S by (auto simp: list_all_iff sized_def mk_entry_def)
  moreover have "sum_list (map sizeBytes (map (mk_entry J now) out)) = n" for now
    using S by (simp add: mk_entry_def comp_def)
  ultimately show ?thesis
    using assms ok(6) unfolding ok(7)
    by (auto simp: buffer_inv_def fold_countUp_device_count simp del: map_map)
qed (use assms in auto)

lemma Enqueue_limits [inv_intros]:
  assumes "within_limits m" and "Enqueue J rs m = (res, m')"
  shows "within_limits m'"
  using assms by (cases rule: Enqueue_cases [of rs J m]) (auto simp: within_limits_def)

subsection \<open>DrainBatch and RequeueFront\<close>

lemma fold_dropOne:
  "fold dropOne es m =
   m\<lparr>totalPoints := totalPoints m - int (length es),
     totalBytes := totalBytes m - sum_list (map sizeBytes es),
     deviceCounts := fold countDown (map (RecDeviceID \<circ> entry_record) es) (deviceCounts m)\<rparr>"
  by (induction es arbitrary: m) (simp_all add: dropOne_def)

lemma fold_countDown_device_count:
  "fold countDown (map (RecDeviceID \<circ> entry_record) es) (device_count (es @ q)) = device_count q"
  by (induction es) (simp_all add: countDown_Cons)

lemma DrainBatch_pos:
  assumes "0 < n"
  shows "DrainBatch n m =
    (take (nat n) (contents m),
     m\<lparr>totalPoints := totalPoints m - int (length (take (nat n) (queue m))),
       totalBytes := totalBytes m - sum_list (map sizeBytes (take (nat n) (queue m))),
       deviceCounts :=
         fold countDown (map (RecDeviceID \<circ> entry_record) (take (nat n) (queue m))) (deviceCounts m),
       queue := drop (nat n) (queue m)\<rparr>)"
proof (cases "queue m = []")
  case True
  with assms show ?thesis by (simp add: DrainBatch_def contents_def)
next
  case False
  have "take (nat (min n (int (length (queue m))))) (queue m) = take (nat n) (queue m)"
    and "drop (nat (min n (int (length (queue m))))) (queue m) = drop (nat n) (queue m)"
    by (simp_all add: min_def)
  with False assms show ?thesis
    by (auto simp: DrainBatch_def Let_def fold_dropOne contents_def take_map min_def)
qed

lemma DrainBatch_nonpos: "n \<le> 0 \<Longrightarrow> DrainBatch n m = ([], m)"
  by (simp add: DrainBatch_def)

lemma DrainBatch_contents:
  "0 < n \<Longrightarrow> DrainBatch n m = (rs, m') \<Longrightarrow>
   rs = take (nat n) (contents m) \<and> contents m' = drop (nat n) (contents m)"
  by (auto simp: DrainBatch_pos contents_def drop_map)

lemma buffer_inv_drop:
  assumes "buffer_inv J m" and "queue m = t @ d"
  shows "buffer_inv J
    (m\<lparr>totalPoints := totalPoints m - int (length t),
       totalBytes := totalBytes m - sum_list (map sizeBytes t),
       deviceCounts := fold countDown (map (RecDeviceID \<circ> entry_record) t) (deviceCounts m),
       queue := d\<rparr>)"
  using assms by (simp add: buffer_inv_def fold_countDown_device_count)

lemma DrainBatch_inv [inv_intros]:
  assumes "buffer_inv J m" and "DrainBatch n m = (rs, m')"
  shows "buffer_inv J m'"
proof (cases "0 < n")
  case True
  have "queue m = take (nat n) (queue m) @ drop (nat n) (queue m)" by simp
  from buffer_inv_drop [OF assms(1) this] show ?thesis
    using assms(2) unfolding DrainBatch_pos [OF True] by blast
qed (use assms in \<open>simp add: DrainBatch_nonpos\<close>)

lemma DrainBatch_frame:
  "DrainBatch n m = (rs, m') \<Longrightarrow>
   maxPoints m' = maxPoints m \<and> maxBytes m' = maxBytes m \<and> clock m' = clock m \<and>
   lastByDevice m' = lastByDevice m"
  by (cases "0 < n") (auto simp: DrainBatch_pos DrainBatch_nonpos)

lemma sum_sizeBytes_nonneg: "list_all (sized J) es \<Longrightarrow> 0 \<le> sum_list (map sizeBytes es)"
  by (induction es) (auto dest: sizeBytes_pos)

lemma DrainBatch_limits [inv_intros]:
  assumes "buffer_inv J m" and "within_limits m" and "DrainBatch n m = (rs, m')"
  shows "within_limits m'"
proof (cases "0 < n")
  case True
  have "list_all (sized J) (take (nat n) (queue m))"
    using assms(1) by (auto simp: buffer_inv_def list_all_iff dest: in_set_takeD)
  note s = sum_sizeBytes_nonneg [OF this]
  have "totalPoints m' \<le> totalPoints m" and "totalBytes m' \<le> totalBytes m"
    using assms(3) DrainBatch_pos [OF True, of m] s by auto
  with assms(2) DrainBatch_frame [OF assms(3)] show ?thesis
    by (simp add: within_limits_def)
qed (use assms in \<open>simp add: DrainBatch_nonpos\<close>)

lemma requeueLoop_ok:
  "\<forall>r \<in> set rs. estimateRecordBytes J r = Inr (sizeOrZero J r) \<Longrightarrow>
   requeueLoop J now pre rs m =
     (Inr (pre @ map (mk_entry J now) rs),
      m\<lparr>totalPoints := totalPoints m + int (length rs),
        totalBytes := totalBytes m + sum_list (map (sizeOrZero J) rs),
        deviceCounts := fold countUp (map RecDeviceID rs) (deviceCounts m)\<rparr>)"
  by (induction rs arbitrary: pre m) (simp_all add: mk_entry_def)

lemma device_count_swap: "device_count (xs @ ys) = device_count (ys @ xs)"
  by (simp add: device_count_def fun_eq_iff add.commute)

lemma sized_estimate:
  "list_all (sized J) es \<Longrightarrow> \<forall>r \<in> set (map entry_record es). estimateRecordBytes J r = Inr (sizeOrZero J r)"
  by (auto simp: list_all_iff sized_def sizeOrZero_def)

lemma RequeueFront_ok:
  assumes "buffer_inv J m" and "\<forall>r \<in> set rs. estimateRecordBytes J r = Inr (sizeOrZero J r)"
  shows "\<exists>m'. RequeueFront J rs m = (Inr (), m') \<and> buffer_inv J m' \<and>
    contents m' = rs @ contents m \<and>
    totalPoints m' = totalPoints m + int (length rs) \<and>
    totalBytes m' = totalBytes m + sum_list (map (sizeOrZero J) rs) \<and>
    maxPoints m' = maxPoints m \<and> maxBytes m' = maxBytes m"
proof (cases "rs = []")
  case False
  let ?es = "map (mk_entry J (clock m (ticks m))) rs"
  have "device_count (?es @ queue m) = fold countUp (map RecDeviceID rs) (device_count (queue m))"
    by (simp only: device_count_swap [of ?es]
        fold_countUp_device_count [where J = J and now = "clock m (ticks m)"])
  moreover have "list_all (sized J) ?es"
    using assms(2) by (auto simp: list_all_iff sized_def mk_entry_def)
  moreover have "sum_list (map sizeBytes ?es) = sum_list (map (sizeOrZero J) rs)"
    by (simp add: mk_entry_def comp_def)
  ultimately show ?thesis
    using False assms
    by (simp add: RequeueFront_def Let_def requeueLoop_ok buffer_inv_def contents_def del: map_map)
      simp
qed (use assms in \<open>simp add: RequeueFront_def\<close>)

lemma DrainBatch_sized:
  assumes "buffer_inv J m" and "DrainBatch n m = (rs, m')"
  shows "\<forall>r \<in> set rs. estimateRecordBytes J r = Inr (sizeOrZero J r)"
proof (cases "0 < n")
  case True
  have "list_all (sized J) (take (nat n) (queue m))"
    using assms(1) by (auto simp: buffer_inv_def list_all_iff dest: in_set_takeD)
  from sized_estimate [OF this] show ?thesis
    using assms(2) True by (auto simp: DrainBatch_pos contents_def take_map)
qed (use assms in \<open>simp add: DrainBatch_nonpos\<close>)

lemma ManagerStats_view:
  "ManagerStats m = (st, m') \<Longrightarrow>
   TotalBufferedPoints st = totalPoints m \<and> TotalBufferedBytes st = totalBytes m \<and>
   0 \<le> OldestBufferedAge st \<and> m' = m\<lparr>ticks := ticks m'\<rparr>"
  by (auto simp: ManagerStats_def Let_def split: list.splits if_splits)

lemma ticks_irrelevant [simp]:
  "buffer_inv J (m\<lparr>ticks := k\<rparr>) = buffer_inv J m" "contents (m\<lparr>ticks := k\<rparr>) = contents m"
  "within_limits (m\<lparr>ticks := k\<rparr>) = within_limits m"
  by (simp_all add: buffer_inv_def contents_def within_limits_def)

section \<open>The buffer provides the flusher's contract\<close>

definition StatsPoints :: "Manager \<Rightarrow> int \<times> Manager" where
  "StatsPoints m = (case ManagerStats m of (st, m') \<Rightarrow> (TotalBufferedPoints st, m'))"

lemma StatsPoints_view:
  assumes "StatsPoints m = (k, m')"
  shows "k = totalPoints m" and "\<exists>t. m' = m\<lparr>ticks := t\<rparr>"
proof -
  obtain st where st: "ManagerStats m = (st, m')" and k: "k = TotalBufferedPoints st"
    using assms by (auto simp: StatsPoints_def split: prod.splits)
  note v = ManagerStats_view [OF st]
  from v k show "k = totalPoints m" by simp
  from v show "\<exists>t. m' = m\<lparr>ticks := t\<rparr>" by blast
qed

interpretation ram: flush_buffer "buffer_inv J" contents DrainBatch "RequeueFront J" StatsPoints for J
proof unfold_locales
  fix b b' :: Manager and n :: int and rs
  assume "buffer_inv J b" and "0 < n" and d: "DrainBatch n b = (rs, b')"
  then show "buffer_inv J b' \<and> rs = take (nat n) (contents b) \<and> contents b' = drop (nat n) (contents b)"
    by (auto dest: DrainBatch_inv DrainBatch_contents)
next
  fix b b' b'' :: Manager and n :: int and rs and res :: "buffer_error + unit"
  assume a: "buffer_inv J b" "0 < n" "DrainBatch n b = (rs, b')" "RequeueFront J rs b' = (res, b'')"
  note c = DrainBatch_contents [OF a(2,3)]
  from RequeueFront_ok [OF DrainBatch_inv [OF a(1,3)] DrainBatch_sized [OF a(1,3)]] a(4) c
  show "res = Inr () \<and> buffer_inv J b'' \<and> contents b'' = contents b" by auto
next
  fix b b' :: Manager and k
  assume a: "buffer_inv J b" "StatsPoints b = (k, b')"
  obtain t where t: "b' = b\<lparr>ticks := t\<rparr>" using StatsPoints_view(2) [OF a(2)] by blast
  have "k = int (length (queue b))"
    using StatsPoints_view(1) [OF a(2)] a(1) by (simp add: buffer_inv_def)
  with a(1) t show "buffer_inv J b' \<and> contents b' = contents b \<and> k = int (length (contents b))"
    by (simp add: contents_def)
qed

section \<open>Properties\<close>

lemma filterLoop_keeps:
  "map Seq (fst (filterLoop dt dm c u rs)) = map Seq rs \<and>
   map RecDeviceID (fst (filterLoop dt dm c u rs)) = map RecDeviceID rs"
  by (induction dt dm c u rs rule: filterLoop.induct)
    (simp_all add: case_prod_beta suppress_def del: fun_upd_apply)

lemma filterNearDuplicates_keeps:
  "map Seq (fst (filterNearDuplicates m rs)) = map Seq rs"
  by (simp add: filterNearDuplicates_def filterLoop_keeps)

text \<open>
  Claim C31. \<open>Enqueue\<close> is all or nothing: on an error the buffer is exactly what it was; on success
  the queue is extended by one record for each record of the call, with the same sequence
  numbers in the same order.
\<close>

theorem Enqueue_all_or_nothing:
  "case Enqueue J rs m of
     (Inl e, m') \<Rightarrow> m' = m
   | (Inr _, m') \<Rightarrow>
       (\<exists>out. contents m' = contents m @ out \<and> map Seq out = map Seq rs)"
  using Enqueue_error_unchanged [of J rs m] Enqueue_contents [of J rs m]
    filterNearDuplicates_keeps [of m rs]
  by (auto split: prod.splits sum.splits)

text \<open>
  Claim C32. The counters stay exact: \<open>Enqueue\<close> and \<open>DrainBatch\<close> keep \<open>totalPoints\<close> equal to the
  queue's length, \<open>totalBytes\<close> to the sum of the sizes, \<open>deviceCounts\<close> to the number of queued
  records of each device, and both totals within the configured limits.
\<close>

theorem buffer_counters_exact:
  assumes "buffer_inv J m" and "within_limits m"
  shows "buffer_inv J (snd (Enqueue J rs m)) \<and> within_limits (snd (Enqueue J rs m)) \<and>
    buffer_inv J (snd (DrainBatch n m)) \<and> within_limits (snd (DrainBatch n m))"
  using assms Enqueue_inv Enqueue_limits DrainBatch_inv DrainBatch_limits
  by (metis prod.collapse)

definition sample_manager :: Manager where
  "sample_manager =
     snd (Enqueue (table_codec [sample_record 1 ''d'' ''h'' 7] []) [sample_record 1 ''d'' ''h'' 7]
            (NewManager (\<lambda>_. 9) 4 100))"

lemma sample_manager_eq:
  "sample_manager =
   (NewManager (\<lambda>_. 9) 4 100)
     \<lparr>queue := [\<lparr>entry_record = sample_record 1 ''d'' ''h'' 7, sizeBytes = 4, enqueuedAt = 9\<rparr>],
      totalPoints := 1, totalBytes := 4, ticks := 1, deviceCounts := [''d'' \<mapsto> 1],
      lastByDevice := [''d'' \<mapsto> \<lparr>ds_timestampUTC = 7, ds_lat = 0, ds_lon = 0\<rparr>]\<rparr>"
  by (simp add: sample_manager_def Enqueue_def NewManager_def NewManagerWithDedupe_def
      filterNearDuplicates_def isNearDuplicate_def estimateRecordBytes_def table_codec_def
      braces_def dec.simps pushBack_def sizeOrZero_def countUp_def dedupe_of_def sample_defs)

lemma sample_manager_inv:
  "buffer_inv (table_codec [sample_record 1 ''d'' ''h'' 7] []) sample_manager"
  unfolding sample_manager_def NewManager_def
  by (rule Enqueue_inv [OF NewManager_inv prod.collapse [symmetric]])

theorem buffer_counters_exact_witness:
  "within_limits (snd (DrainBatch 1 sample_manager)) \<and>
   totalPoints (snd (DrainBatch 1 sample_manager)) = 0"
proof -
  have "within_limits sample_manager"
    by (simp add: sample_manager_eq within_limits_def NewManager_def NewManagerWithDedupe_def)
  from buffer_counters_exact [OF sample_manager_inv this, where n = 1]
  show ?thesis by (simp add: DrainBatch_def dropOne_def sample_manager_eq)
qed

text \<open>
  Draining a batch and putting it back restores the buffer: the records in their order,
  both totals and the per-device counters; the requeue cannot fail.
\<close>

theorem drain_requeue_restores:
  assumes "buffer_inv J m" and "0 < n" and "DrainBatch n m = (rs, m1)"
  shows "\<exists>m2. RequeueFront J rs m1 = (Inr (), m2) \<and> contents m2 = contents m \<and>
    totalPoints m2 = totalPoints m \<and> deviceCounts m2 = deviceCounts m"
proof -
  obtain m2 where m2: "RequeueFront J rs m1 = (Inr (), m2)"
    using RequeueFront_ok [OF DrainBatch_inv [OF assms(1,3)] DrainBatch_sized [OF assms(1,3)]]
    by blast
  from ram.requeue_law [OF assms m2] have c: "buffer_inv J m2" "contents m2 = contents m" by auto
  have d: "device_count (queue m2) = device_count (queue m)"
    using c(2) by (intro device_count_records) (simp add: contents_def)
  have "length (queue m2) = length (queue m)"
    using c(2) by (metis contents_def length_map)
  with c assms(1) d m2 show ?thesis by (auto simp: buffer_inv_def)
qed

theorem drain_requeue_restores_witness:
  "\<exists>m2. RequeueFront (table_codec [sample_record 1 ''d'' ''h'' 7] [])
     [sample_record 1 ''d'' ''h'' 7] (snd (DrainBatch 1 sample_manager)) = (Inr (), m2) \<and>
     contents m2 = [sample_record 1 ''d'' ''h'' 7]"
proof -
  have "fst (DrainBatch 1 sample_manager) = [sample_record 1 ''d'' ''h'' 7]"
    and c: "contents sample_manager = [sample_record 1 ''d'' ''h'' 7]"
    by (simp_all add: DrainBatch_def sample_manager_eq contents_def)
  then have "DrainBatch 1 sample_manager =
      ([sample_record 1 ''d'' ''h'' 7], snd (DrainBatch 1 sample_manager))"
    by (metis prod.collapse)
  from drain_requeue_restores [OF sample_manager_inv _ this] c show ?thesis by auto
qed

lemma filterLoop_suppressed:
  assumes "k < length rs" and "fst (filterLoop dt dm c u rs) ! k \<noteq> rs ! k"
  shows "\<exists>prev. near_to dt dm prev (rs ! k) \<and>
    (c (RecDeviceID (rs ! k)) = Some prev \<or>
     (\<exists>j < k. RecDeviceID (rs ! j) = RecDeviceID (rs ! k) \<and> prev = dedupe_of (rs ! j) \<and>
        fst (filterLoop dt dm c u rs) ! j = rs ! j))"
  using assms
proof (induction dt dm c u rs arbitrary: k rule: filterLoop.induct)
  case (2 dt dm c u r rs)
  show ?case
  proof (cases k)
    case 0
    with "2.prems"(2) have near: "isNearDuplicate r c dt dm"
      by (auto split: if_splits prod.splits)
    with 0 show ?thesis by (auto simp: isNearDuplicate_near_to split: option.splits)
  next
    case (Suc i)
    let ?c = "c(RecDeviceID r \<mapsto> dedupe_of r)" and ?u = "u(RecDeviceID r \<mapsto> dedupe_of r)"
    show ?thesis
    proof (cases "isNearDuplicate r c dt dm")
      case True
      from "2.IH"(1) [OF True, of i] "2.prems" True Suc show ?thesis
        by (fastforce simp: case_prod_beta)
    next
      case False
      from "2.prems" False Suc have "i < length rs"
        and "fst (filterLoop dt dm ?c ?u rs) ! i \<noteq> rs ! i"
        by (simp_all add: case_prod_beta del: fun_upd_apply)
      from "2.IH"(2) [OF False this] obtain prev where
        near: "near_to dt dm prev (rs ! i)" and
        src: "?c (RecDeviceID (rs ! i)) = Some prev \<or>
          (\<exists>j < i. RecDeviceID (rs ! j) = RecDeviceID (rs ! i) \<and> prev = dedupe_of (rs ! j) \<and>
             fst (filterLoop dt dm ?c ?u rs) ! j = rs ! j)"
        by blast
      from src consider "RecDeviceID r = RecDeviceID (rs ! i)" "prev = dedupe_of r"
        | "c (RecDeviceID (rs ! i)) = Some prev"
        | j where "j < i" "RecDeviceID (rs ! j) = RecDeviceID (rs ! i)"
            "prev = dedupe_of (rs ! j)" "fst (filterLoop dt dm ?c ?u rs) ! j = rs ! j"
        by (auto split: if_splits)
      then show ?thesis
      proof cases
        case 1
        with near False Suc show ?thesis
          by (intro exI [of _ prev]) (auto intro!: exI [of _ 0] simp: case_prod_beta)
      next
        case 2
        with near Suc show ?thesis by auto
      next
        case (3 j)
        with near False Suc show ?thesis
          by (intro exI [of _ prev])
            (auto intro!: exI [of _ "Suc j"] simp: case_prod_beta simp del: fun_upd_apply)
      qed
    qed
  qed
qed simp

lemma near_to_explicit:
  assumes "near_to dt dm prev r"
  shows "haversineMeters (ds_lat prev) (ds_lon prev) (Lat (Point r)) (Lon (Point r)) \<le> dm"
    and "\<bar>TimestampUTC (Point r) - ds_timestampUTC prev\<bar> \<le> dt \<or>
      max_int64 \<le> dt \<or> TimestampUTC (Point r) - ds_timestampUTC prev \<le> min_int64"
proof -
  let ?x = "TimestampUTC (Point r) - ds_timestampUTC prev"
  let ?d = "time_Sub (TimestampUTC (Point r)) (ds_timestampUTC prev)"
  from assms have h: "(if ?d < 0 then wrap_int64 (- ?d) else ?d) \<le> dt"
    and "haversineMeters (ds_lat prev) (ds_lon prev) (Lat (Point r)) (Lon (Point r)) \<le> dm"
    by (auto simp: near_to_def isNearDuplicate_def Let_def split: if_splits)
  then show "haversineMeters (ds_lat prev) (ds_lon prev) (Lat (Point r)) (Lon (Point r)) \<le> dm"
    by simp
  have w: "wrap_int64 (- y) = - y" if "min_int64 < y" "y \<le> max_int64" for y
    using that by (intro wrap_int64_id) (auto simp: min_int64_def max_int64_def)
  have D: "?d = max min_int64 (min max_int64 ?x)" by (simp add: time_Sub_def)
  show "\<bar>?x\<bar> \<le> dt \<or> max_int64 \<le> dt \<or> ?x \<le> min_int64"
  proof (cases "?x \<le> min_int64 \<or> max_int64 \<le> ?x")
    case True
    then show ?thesis using h D by (auto simp: min_int64_def max_int64_def)
  next
    case False
    then have "?d = ?x" using D by auto
    then show ?thesis using h w [of ?x] False by (auto split: if_splits)
  qed
qed

lemma filterLoop_changes:
  assumes "k < length rs" and "fst (filterLoop dt dm c u rs) ! k \<noteq> rs ! k"
  shows "fst (filterLoop dt dm c u rs) ! k = suppress (rs ! k)"
  using assms
proof (induction dt dm c u rs arbitrary: k rule: filterLoop.induct)
  case (2 dt dm c u r rs)
  then show ?case
    by (cases k; cases "isNearDuplicate r c dt dm") (simp_all add: case_prod_beta del: fun_upd_apply)
qed simp



text \<open>
  \<open>-timeDiff\<close> overflows: a record at the remembered position whose timestamp is some
  292 years or more before the remembered one counts as a near duplicate, whatever the window.
\<close>

theorem near_duplicate_wraps:
  assumes "TimestampUTC (Point r) - ds_timestampUTC prev \<le> min_int64"
    and "lastByDevice m (RecDeviceID r) = Some prev"
    and "TimestampUTC (Point r) \<noteq> 0" and "ds_timestampUTC prev \<noteq> 0"
    and "Lat (Point r) = ds_lat prev" and "Lon (Point r) = ds_lon prev"
    and "0 \<le> dedupeTime m" and "0 \<le> dedupeDistM m" and "dedupeTime m \<noteq> 0 \<or> dedupeDistM m \<noteq> 0"
  shows "fst (filterNearDuplicates m [r]) = [suppress r]"
proof -
  have "time_Sub (TimestampUTC (Point r)) (ds_timestampUTC prev) = min_int64"
    using assms(1) by (simp add: time_Sub_def min_int64_def max_int64_def)
  moreover have "wrap_int64 (- min_int64) = min_int64" and "min_int64 < 0"
    by (simp_all add: wrap_int64_def min_int64_def)
  ultimately have "isNearDuplicate r (lastByDevice m) (dedupeTime m) (dedupeDistM m)"
    using assms by (simp add: isNearDuplicate_def time_IsZero_def Let_def)
  with assms(9) show ?thesis by (auto simp: filterNearDuplicates_def)
qed

theorem near_duplicate_wraps_witness:
  "fst (filterNearDuplicates
          (sample_manager\<lparr>lastByDevice :=
             [''d'' \<mapsto> \<lparr>ds_timestampUTC = 2 ^ 63 + 7, ds_lat = 0, ds_lon = 0\<rparr>]\<rparr>)
          [sample_record 2 ''d'' ''i'' 7]) =
   [suppress (sample_record 2 ''d'' ''i'' 7)]"
  by (rule near_duplicate_wraps
      [where prev = "\<lparr>ds_timestampUTC = 2 ^ 63 + 7, ds_lat = 0, ds_lon = 0\<rparr>"])
    (simp_all add: sample_manager_eq NewManager_def NewManagerWithDedupe_def sample_defs
      min_int64_def)

end
