(* ===== verification/FileSys.thy ===== *)
theory FileSys
  imports Prelude
begin

text \<open>
  The calls into package \<^verbatim>\<open>os\<close> that \<^verbatim>\<open>internal/spool\<close> makes, on the one directory it
  works in. A file is its bytes and the number of leading bytes that have been synced. Each
  call takes its outcome from the stream \<open>fault\<close>, so that every error branch of the callers can
  be taken; a short write leaves a prefix of the data behind and reports an error. Creating,
  truncating and removing a file count as durable at once.
\<close>

datatype outcome = Ok | Fail | Short nat

datatype node = File (bytes: string) (durable: nat) | Directory

record osys =
  dir :: "(string \<times> node) list option"
  fault :: "nat \<Rightarrow> outcome"
  calls :: nat

datatype os_error = ErrNotExist | ErrIO

text \<open>An \<^verbatim>\<open>*os.File\<close>: the file it refers to, and whether it has not been closed.\<close>

datatype handle = Handle (hname: string) (hopen: bool)

type_synonym 'a os_op = "(osys, os_error, 'a) gomethod"

definition fs :: "osys \<Rightarrow> string \<rightharpoonup> node" where
  "fs s name = (case dir s of None \<Rightarrow> None | Some d \<Rightarrow> map_of d name)"

definition put_file :: "string \<Rightarrow> node \<Rightarrow> osys \<Rightarrow> osys" where
  "put_file name nd s = s\<lparr>dir := map_option (AList.update name nd) (dir s)\<rparr>"

definition remove_file :: "string \<Rightarrow> osys \<Rightarrow> osys" where
  "remove_file name s = s\<lparr>dir := map_option (AList.delete name) (dir s)\<rparr>"

definition tick :: "osys \<Rightarrow> osys" where
  "tick s = s\<lparr>calls := Suc (calls s)\<rparr>"

definition next_outcome :: "osys \<Rightarrow> outcome" where
  "next_outcome s = fault s (calls s)"

text \<open>A call that either happens completely or reports an error and changes nothing.\<close>

definition os_call :: "'a os_op \<Rightarrow> 'a os_op" where
  "os_call act s = (if next_outcome s = Ok then act (tick s) else (Inl ErrIO, tick s))"

definition ensure_dir :: "osys \<Rightarrow> osys" where
  "ensure_dir s = (case dir s of None \<Rightarrow> s\<lparr>dir := Some []\<rparr> | Some _ \<Rightarrow> s)"

definition os_MkdirAll :: "unit os_op" where
  "os_MkdirAll = os_call (\<lambda>s. (Inr (), ensure_dir s))"

text \<open>\<^verbatim>\<open>O_CREATE|O_APPEND|O_WRONLY\<close>.\<close>

definition os_OpenAppend :: "string \<Rightarrow> handle os_op" where
  "os_OpenAppend name = os_call (\<lambda>s.
     if dir s = None then (Inl ErrNotExist, s)
     else case fs s name of
            None \<Rightarrow> (Inr (Handle name True), put_file name (File [] 0) s)
          | Some Directory \<Rightarrow> (Inl ErrIO, s)
          | Some (File b k) \<Rightarrow> (Inr (Handle name True), s))"

text \<open>\<^verbatim>\<open>O_CREATE|O_WRONLY|O_TRUNC\<close>.\<close>

definition os_OpenTrunc :: "string \<Rightarrow> handle os_op" where
  "os_OpenTrunc name = os_call (\<lambda>s.
     if dir s = None then (Inl ErrNotExist, s)
     else if fs s name = Some Directory then (Inl ErrIO, s)
     else (Inr (Handle name True), put_file name (File [] 0) s))"

definition file_Stat_Size :: "handle \<Rightarrow> int os_op" where
  "file_Stat_Size h = os_call (\<lambda>s.
     if \<not> hopen h then (Inl ErrIO, s)
     else case fs s (hname h) of
            Some (File b k) \<Rightarrow> (Inr (int (length b)), s)
          | _ \<Rightarrow> (Inr 0, s))"

definition append_bytes :: "string \<Rightarrow> string \<Rightarrow> osys \<Rightarrow> osys" where
  "append_bytes name data s =
     (case fs s name of Some (File b k) \<Rightarrow> put_file name (File (b @ data) k) s | _ \<Rightarrow> s)"

definition file_Write :: "handle \<Rightarrow> string \<Rightarrow> unit os_op" where
  "file_Write h data s =
     (if \<not> hopen h then (Inl ErrIO, tick s)
      else case next_outcome s of
             Ok \<Rightarrow> (Inr (), append_bytes (hname h) data (tick s))
           | Fail \<Rightarrow> (Inl ErrIO, tick s)
           | Short n \<Rightarrow> (Inl ErrIO, append_bytes (hname h) (take n data) (tick s)))"

definition sync_bytes :: "string \<Rightarrow> osys \<Rightarrow> osys" where
  "sync_bytes name s =
     (case fs s name of Some (File b k) \<Rightarrow> put_file name (File b (length b)) s | _ \<Rightarrow> s)"

definition file_Sync :: "handle \<Rightarrow> unit os_op" where
  "file_Sync h = os_call (\<lambda>s.
     if \<not> hopen h then (Inl ErrIO, s) else (Inr (), sync_bytes (hname h) s))"

definition file_Close :: "handle \<Rightarrow> unit os_op" where
  "file_Close h = os_call (\<lambda>s. if hopen h then (Inr (), s) else (Inl ErrIO, s))"

definition os_ReadFile :: "string \<Rightarrow> string os_op" where
  "os_ReadFile name = os_call (\<lambda>s.
     case fs s name of
       None \<Rightarrow> (Inl ErrNotExist, s)
     | Some Directory \<Rightarrow> (Inl ErrIO, s)
     | Some (File b k) \<Rightarrow> (Inr b, s))"

text \<open>The entries of the directory, with \<^verbatim>\<open>IsDir\<close>.\<close>

definition dir_entries :: "osys \<Rightarrow> (string \<times> bool) list" where
  "dir_entries s =
     (case dir s of None \<Rightarrow> [] | Some d \<Rightarrow> map (\<lambda>(name, nd). (name, nd = Directory)) d)"

definition os_ReadDir :: "(string \<times> bool) list os_op" where
  "os_ReadDir = os_call (\<lambda>s. (if dir s = None then Inl ErrNotExist else Inr (dir_entries s), s))"

definition os_Remove :: "string \<Rightarrow> unit os_op" where
  "os_Remove name = os_call (\<lambda>s.
     if fs s name = None then (Inl ErrNotExist, s) else (Inr (), remove_file name s))"

text \<open>
  Loss of power: of each file at least the synced bytes survive, and of the rest the prefix the
  argument \<open>kept\<close> says. All handles are gone.
\<close>

definition crash_node :: "nat \<Rightarrow> node \<Rightarrow> node" where
  "crash_node n nd =
     (case nd of
        Directory \<Rightarrow> Directory
      | File b k \<Rightarrow> (let b' = take (max k n) b in File b' (length b')))"

definition os_crash :: "(string \<Rightarrow> nat) \<Rightarrow> osys \<Rightarrow> osys" where
  "os_crash kept s =
     s\<lparr>dir := map_option (map (\<lambda>(name, nd). (name, crash_node (kept name) nd))) (dir s)\<rparr>"

section \<open>The directory as a finite map\<close>

definition wf_dir :: "osys \<Rightarrow> bool" where
  "wf_dir s \<longleftrightarrow> (case dir s of None \<Rightarrow> True | Some d \<Rightarrow> distinct (map fst d))"

definition healthy :: "osys \<Rightarrow> bool" where
  "healthy s \<longleftrightarrow> (\<forall>k \<ge> calls s. fault s k = Ok)"

lemma dir_tick [simp]: "dir (tick s) = dir s"
  by (simp add: tick_def)

lemma fs_tick [simp]: "fs (tick s) = fs s"
  by (simp add: fs_def fun_eq_iff)

lemma fs_put_file [simp]: "dir s \<noteq> None \<Longrightarrow> fs (put_file name nd s) = (fs s)(name \<mapsto> nd)"
  by (auto simp: fs_def put_file_def fun_eq_iff update_conv')

lemma fs_remove_file [simp]: "fs (remove_file name s) = (fs s)(name := None)"
  by (auto simp: fs_def remove_file_def fun_eq_iff delete_conv' split: option.split)

lemma fs_ensure_dir [simp]: "fs (ensure_dir s) = fs s"
  by (auto simp: fs_def ensure_dir_def fun_eq_iff split: option.split)

lemma dir_exists [simp]:
  "dir (put_file name nd s) = None \<longleftrightarrow> dir s = None"
  "dir (remove_file name s) = None \<longleftrightarrow> dir s = None"
  "dir (ensure_dir s) \<noteq> None"
  by (simp_all add: put_file_def remove_file_def ensure_dir_def split: option.split)

lemma fs_Some_dir: "fs s name = Some nd \<Longrightarrow> dir s \<noteq> None"
  by (auto simp: fs_def split: option.splits)

lemma wf_dir_simps [simp]:
  "wf_dir (tick s) = wf_dir s"
  "wf_dir s \<Longrightarrow> wf_dir (put_file name nd s)"
  "wf_dir s \<Longrightarrow> wf_dir (remove_file name s)"
  "wf_dir s \<Longrightarrow> wf_dir (ensure_dir s)"
  by (auto simp: wf_dir_def tick_def put_file_def remove_file_def ensure_dir_def distinct_update
      distinct_delete split: option.splits)

lemma healthy_simps [simp]:
  "healthy s \<Longrightarrow> healthy (tick s)"
  "healthy (put_file name nd s) = healthy s"
  "healthy (remove_file name s) = healthy s"
  "healthy (ensure_dir s) = healthy s"
  by (auto simp: healthy_def tick_def put_file_def remove_file_def ensure_dir_def
      split: option.splits)

lemma healthy_next [simp]: "healthy s \<Longrightarrow> next_outcome s = Ok"
  by (simp add: healthy_def next_outcome_def)

lemma set_dir_entries:
  assumes "wf_dir s"
  shows "(name, b) \<in> set (dir_entries s) \<longleftrightarrow> (\<exists>nd. fs s name = Some nd \<and> b = (nd = Directory))"
  using assms by (force simp: wf_dir_def fs_def dir_entries_def split: option.splits)

lemma distinct_dir_entries: "wf_dir s \<Longrightarrow> distinct (map fst (dir_entries s))"
  by (auto simp: wf_dir_def dir_entries_def comp_def case_prod_beta split: option.splits)

section \<open>Calls that meet no fault\<close>

lemma os_call_healthy [simp]: "healthy s \<Longrightarrow> os_call act s = act (tick s)"
  by (simp add: os_call_def)

lemma os_MkdirAll_healthy [simp]: "healthy s \<Longrightarrow> os_MkdirAll s = (Inr (), ensure_dir (tick s))"
  by (simp add: os_MkdirAll_def)

lemma os_ReadFile_healthy:
  "healthy s \<Longrightarrow> os_ReadFile name s =
    (case fs s name of None \<Rightarrow> Inl ErrNotExist | Some Directory \<Rightarrow> Inl ErrIO
     | Some (File b k) \<Rightarrow> Inr b, tick s)"
  by (simp add: os_ReadFile_def split: option.split node.split)

lemma os_ReadDir_healthy:
  "healthy s \<Longrightarrow> os_ReadDir s =
    (if dir s = None then Inl ErrNotExist else Inr (dir_entries s), tick s)"
  by (simp add: os_ReadDir_def dir_entries_def tick_def)

lemma os_Remove_healthy [simp]:
  "healthy s \<Longrightarrow> fs s name = Some nd \<Longrightarrow> os_Remove name s = (Inr (), remove_file name (tick s))"
  by (simp add: os_Remove_def)

lemma os_OpenTrunc_healthy [simp]:
  "healthy s \<Longrightarrow> dir s \<noteq> None \<Longrightarrow> fs s name \<noteq> Some Directory \<Longrightarrow>
   os_OpenTrunc name s = (Inr (Handle name True), put_file name (File [] 0) (tick s))"
  by (simp add: os_OpenTrunc_def)

lemma os_OpenAppend_healthy:
  "healthy s \<Longrightarrow> dir s \<noteq> None \<Longrightarrow> fs s name \<noteq> Some Directory \<Longrightarrow>
   os_OpenAppend name s =
     (Inr (Handle name True), if fs s name = None then put_file name (File [] 0) (tick s) else tick s)"
  by (simp add: os_OpenAppend_def split: option.split node.split)

lemma file_Stat_healthy [simp]:
  "healthy s \<Longrightarrow> fs s name = Some (File b k) \<Longrightarrow>
   file_Stat_Size (Handle name True) s = (Inr (int (length b)), tick s)"
  by (simp add: file_Stat_Size_def)

lemma file_Write_healthy [simp]:
  "healthy s \<Longrightarrow> fs s name = Some (File b k) \<Longrightarrow>
   file_Write (Handle name True) data s = (Inr (), put_file name (File (b @ data) k) (tick s))"
  by (simp add: file_Write_def append_bytes_def)

lemma file_Sync_healthy [simp]:
  "healthy s \<Longrightarrow> fs s name = Some (File b k) \<Longrightarrow>
   file_Sync (Handle name True) s = (Inr (), put_file name (File b (length b)) (tick s))"
  by (simp add: file_Sync_def sync_bytes_def)

lemma file_Close_healthy [simp]:
  "healthy s \<Longrightarrow> file_Close (Handle name True) s = (Inr (), tick s)"
  by (simp add: file_Close_def)

lemma map_of_map_pair: "map_of (map (\<lambda>(x, y). (x, f x y)) d) k = map_option (f k) (map_of d k)"
  by (induction d) auto

lemma fs_crash: "fs (os_crash kept s) name = map_option (crash_node (kept name)) (fs s name)"
  by (simp add: fs_def os_crash_def map_of_map_pair split: option.split)

lemma wf_dir_crash [simp]: "wf_dir (os_crash kept s) = wf_dir s"
  by (simp add: wf_dir_def os_crash_def comp_def case_prod_beta split: option.split)

lemma healthy_crash [simp]: "healthy (os_crash kept s) = healthy s"
  by (simp add: healthy_def os_crash_def)

end
