(* ===== verification/Spool.thy ===== *)
theory Spool
  imports Interfaces FileSys
begin

text \<open>
  \<^verbatim>\<open>internal/spool\<close>: the append-only on-disk spool (segment.go, manager.go, append.go, replay.go,
  compaction.go, status.go). The receiver \<^verbatim>\<open>*FileSpoolManager\<close> is a record; its field \<open>sys\<close>
  is the spool directory as theory \<open>FileSys\<close> has it. Files are named by their base name, since
  every path the package builds is \<^verbatim>\<open>filepath.Join(spoolDir, name)\<close>. \<^verbatim>\<open>nowFn\<close> is the
  stream of readings \<open>sclock\<close>, of which \<open>sticks\<close> have been used.
  Every exported method holds the mutex throughout, so a call is one step.
\<close>

section \<open>Segment names (segment.go)\<close>

definition segmentExtension :: string where
  "segmentExtension = ''.ndjson''"

definition checkpointFileName :: string where
  "checkpointFileName = ''checkpoint.json''"

definition SegmentFileName :: "uint64 \<Rightarrow> string" where
  "SegmentFileName startSeq = ''segment-'' @ pad_dec 20 (unat startSeq) @ segmentExtension"

definition ParseSegmentStartSeq :: "string \<Rightarrow> uint64 option" where
  "ParseSegmentStartSeq name =
     (let base = filepath_Base (trimSpace name) in
      if \<not> prefix ''segment-'' base \<or> \<not> suffix segmentExtension base then None
      else let raw = trimPrefix base ''segment-'';
               raw' = trimSuffix raw segmentExtension
           in parseUint64 raw')"

section \<open>State\<close>

datatype spool_error =
    ErrInvalidFSyncMode string
  | ErrEnsureSpoolDir
  | ErrOpenSegment | ErrStatSegment | ErrWriteRecord uint64 | ErrFsyncSegment
  | ErrSyncBeforeClose | ErrCloseSegment
  | ErrReadCheckpoint | ErrOpenCheckpoint | ErrWriteCheckpoint | ErrSyncCheckpoint
  | ErrCloseCheckpoint
  | ErrListSpoolDir | ErrReadSegment | ErrRemoveSegment
  | ErrCodec codec_error

record FileSpoolManager =
  segmentMaxBytes :: int
  fsyncMode :: string
  fsyncInterval :: duration
  fsyncThreshold :: int
  nextSeq :: uint64
  activeSegmentStart :: uint64
  activeSegmentSize :: int
  activeFile :: "handle option"
  bytesSinceSync :: int
  lastSyncAt :: gotime
  sclock :: "nat \<Rightarrow> gotime"
  sticks :: nat
  sys :: osys

type_synonym 'a spool_op = "(FileSpoolManager, spool_error, 'a) gomethod"

text \<open>
  A call into package \<^verbatim>\<open>os\<close>, its error wrapped by the caller
  (\<^verbatim>\<open>fmt.Errorf("...: %w", err)\<close>).
\<close>

definition io :: "(os_error \<Rightarrow> spool_error) \<Rightarrow> 'a os_op \<Rightarrow> 'a spool_op" where
  "io f act m =
     (case act (sys m) of
        (Inl e, s) \<Rightarrow> (Inl (f e), m\<lparr>sys := s\<rparr>)
      | (Inr x, s) \<Rightarrow> (Inr x, m\<lparr>sys := s\<rparr>))"

definition liftE :: "('e \<Rightarrow> 'f) \<Rightarrow> 'e + 'a \<Rightarrow> ('s, 'f, 'a) gomethod" where
  "liftE f r s = (case r of Inl e \<Rightarrow> (Inl (f e), s) | Inr x \<Rightarrow> (Inr x, s))"

definition modifyE :: "('s \<Rightarrow> 's) \<Rightarrow> ('s, 'e, unit) gomethod" where
  "modifyE f s = (Inr (), f s)"

definition nowFn :: "gotime spool_op" where
  "nowFn m = (Inr (sclock m (sticks m)), m\<lparr>sticks := Suc (sticks m)\<rparr>)"

text \<open>\<^verbatim>\<open>_ = file.Close()\<close> on an error path: the call is made and its result is ignored.\<close>

definition orCloseFile :: "handle \<Rightarrow> 'a spool_op \<Rightarrow> 'a spool_op" where
  "orCloseFile h act m =
     (case act m of
        (Inl e, m') \<Rightarrow> (Inl e, m'\<lparr>sys := snd (file_Close h (sys m'))\<rparr>)
      | (Inr x, m') \<Rightarrow> (Inr x, m'))"

section \<open>Construction (manager.go)\<close>

definition normalizeFSyncMode :: "string \<Rightarrow> string" where
  "normalizeFSyncMode mode =
     (let normalized = toLower (trimSpace mode) in
      if normalized \<in> {''always'', ''balanced'', ''low-wear''} then normalized else [])"

record ManagerOptions =
  FSyncMode :: string
  FSyncInterval :: duration
  FSyncByteThreshold :: int

definition NewFileSpoolManagerWithOptions ::
  "osys \<Rightarrow> (nat \<Rightarrow> gotime) \<Rightarrow> int \<Rightarrow> ManagerOptions \<Rightarrow> FileSpoolManager" where
  "NewFileSpoolManagerWithOptions os clk segMax options =
     \<lparr>segmentMaxBytes = segMax,
      fsyncMode = (let mode = normalizeFSyncMode (FSyncMode options) in
                   if mode = [] then ''balanced'' else mode),
      fsyncInterval = (if FSyncInterval options \<le> 0 then 2 * second else FSyncInterval options),
      fsyncThreshold =
        (if FSyncByteThreshold options \<le> 0 then 64 * 1024 else FSyncByteThreshold options),
      nextSeq = 1, activeSegmentStart = 0, activeSegmentSize = 0, activeFile = None,
      bytesSinceSync = 0, lastSyncAt = 0, sclock = clk, sticks = 0, sys = os\<rparr>"

definition NewFileSpoolManager :: "osys \<Rightarrow> (nat \<Rightarrow> gotime) \<Rightarrow> int \<Rightarrow> FileSpoolManager" where
  "NewFileSpoolManager os clk segMax =
     NewFileSpoolManagerWithOptions os clk segMax
       \<lparr>FSyncMode = ''balanced'', FSyncInterval = 2 * second, FSyncByteThreshold = 64 * 1024\<rparr>"

section \<open>Appending (append.go)\<close>

definition syncActive :: "handle \<Rightarrow> spool_error \<Rightarrow> unit spool_op" where
  "syncActive h err = io (\<lambda>_. err) (file_Sync h)"

text \<open>
  A failing \<^verbatim>\<open>Close\<close> leaves \<^verbatim>\<open>activeFile\<close> pointing at a file that is already closed.
\<close>

definition closeHandle :: "handle \<Rightarrow> unit spool_op" where
  "closeHandle h m =
     (case io (\<lambda>_. ErrCloseSegment) (file_Close h) m of
        (Inl e, m') \<Rightarrow> (Inl e, m'\<lparr>activeFile := Some (Handle (hname h) False)\<rparr>)
      | (Inr _, m') \<Rightarrow> (Inr (), m'))"

definition closeActiveLocked :: "bool \<Rightarrow> unit spool_op" where
  "closeActiveLocked syncBeforeClose m =
     (case activeFile m of
        None \<Rightarrow> (Inr (), m)
      | Some h \<Rightarrow>
          bindE (if syncBeforeClose \<and> bytesSinceSync m > 0 then syncActive h ErrSyncBeforeClose
                 else returnE ())
            (\<lambda>_. bindE (closeHandle h)
            (\<lambda>_. modifyE (\<lambda>m. m\<lparr>activeFile := None, activeSegmentStart := 0,
                                  activeSegmentSize := 0, bytesSinceSync := 0\<rparr>))) m)"

definition openNewSegmentLocked :: "uint64 \<Rightarrow> unit spool_op" where
  "openNewSegmentLocked startSeq =
     bindE (io (\<lambda>_. ErrOpenSegment) (os_OpenAppend (SegmentFileName startSeq))) (\<lambda>file.
     bindE (orCloseFile file (io (\<lambda>_. ErrStatSegment) (file_Stat_Size file))) (\<lambda>n.
     bindE (modifyE (\<lambda>m. m\<lparr>activeFile := Some file, activeSegmentStart := startSeq,
                             activeSegmentSize := n, bytesSinceSync := 0\<rparr>)) (\<lambda>_.
     bindE nowFn (\<lambda>now. modifyE (\<lambda>m. m\<lparr>lastSyncAt := now\<rparr>)))))"

definition ensureSegmentForWriteLocked :: "uint64 \<Rightarrow> int \<Rightarrow> unit spool_op" where
  "ensureSegmentForWriteLocked next incomingBytes m =
     (if activeFile m = None \<or>
         (segmentMaxBytes m > 0 \<and> activeSegmentSize m + incomingBytes > segmentMaxBytes m \<and>
          activeSegmentSize m > 0)
      then bindE (closeActiveLocked True) (\<lambda>_. openNewSegmentLocked next) m
      else (Inr (), m))"

text \<open>The clock is read only in mode \<^verbatim>\<open>balanced\<close> below the byte threshold.\<close>

definition shouldFSyncLocked :: "bool spool_op" where
  "shouldFSyncLocked m =
     (if fsyncMode m = ''always'' then (Inr True, m)
      else if fsyncMode m = ''balanced'' then
        (if bytesSinceSync m \<ge> fsyncThreshold m then (Inr True, m)
         else bindE nowFn (\<lambda>now. returnE (time_Sub now (lastSyncAt m) \<ge> fsyncInterval m)) m)
      else (Inr False, m))"

definition writeActive :: "uint64 \<Rightarrow> string \<Rightarrow> unit spool_op" where
  "writeActive n line m =
     (case activeFile m of
        None \<Rightarrow> (Inl (ErrWriteRecord n), m)
      | Some h \<Rightarrow> io (\<lambda>_. ErrWriteRecord n) (file_Write h line) m)"

definition fsyncActive :: "unit spool_op" where
  "fsyncActive m =
     (case activeFile m of
        None \<Rightarrow> (Inl ErrFsyncSegment, m)
      | Some h \<Rightarrow>
          bindE (syncActive h ErrFsyncSegment) (\<lambda>_.
          bindE nowFn (\<lambda>now. modifyE (\<lambda>m. m\<lparr>bytesSinceSync := 0, lastSyncAt := now\<rparr>))) m)"

definition newRecord :: "uint64 \<Rightarrow> gotime \<Rightarrow> CanonicalPoint \<Rightarrow> SpoolRecord" where
  "newRecord n now point =
     \<lparr>Seq = n, RecDeviceID = DeviceID point, ReceivedAt = now,
      Point = (if IngestHash point = []
               then point\<lparr>IngestHash := GenerateDeterministicIngestHash point\<rparr> else point),
      CheckpointOnly = False\<rparr>"

definition appendPoint :: "codec \<Rightarrow> CanonicalPoint \<Rightarrow> SpoolRecord spool_op" where
  "appendPoint J point =
     bindE nowFn (\<lambda>now. \<lambda>m.
       let record = newRecord (nextSeq m) now point in
       bindE (liftE ErrCodec (SerializeRecord J record)) (\<lambda>line.
       bindE (ensureSegmentForWriteLocked (Seq record) (int (length line))) (\<lambda>_.
       bindE (writeActive (Seq record) line) (\<lambda>_.
       bindE (modifyE (\<lambda>m. m\<lparr>activeSegmentSize := activeSegmentSize m + int (length line),
                               bytesSinceSync := bytesSinceSync m + int (length line)\<rparr>)) (\<lambda>_.
       bindE shouldFSyncLocked (\<lambda>b.
       bindE (if b then fsyncActive else returnE ()) (\<lambda>_.
       bindE (modifyE (\<lambda>m. m\<lparr>nextSeq := nextSeq m + 1\<rparr>)) (\<lambda>_.
       returnE record))))))) m)"

fun appendLoop :: "codec \<Rightarrow> SpoolRecord list \<Rightarrow> CanonicalPoint list \<Rightarrow> SpoolRecord list spool_op"
where
  "appendLoop J appended [] m = (Inr appended, m)"
| "appendLoop J appended (p # ps) m =
     bindE (appendPoint J p) (\<lambda>record. appendLoop J (appended @ [record]) ps) m"

definition AppendCanonicalPoints ::
  "codec \<Rightarrow> CanonicalPoint list \<Rightarrow> SpoolRecord list spool_op" where
  "AppendCanonicalPoints J points m =
     (if points = [] then (Inr [], m)
      else if normalizeFSyncMode (fsyncMode m) = [] then (Inl (ErrInvalidFSyncMode (fsyncMode m)), m)
      else bindE (io (\<lambda>_. ErrEnsureSpoolDir) os_MkdirAll) (\<lambda>_. appendLoop J [] points) m)"

definition Close :: "unit spool_op" where
  "Close = closeActiveLocked True"

section \<open>Checkpoint and replay (replay.go)\<close>

text \<open>\<^verbatim>\<open>reader.ReadBytes('\n')\<close> until the end of the file: the last line may lack its newline.\<close>

fun readLines :: "string \<Rightarrow> string list" where
  "readLines [] = []"
| "readLines (c # s) =
     (if c = newline then [c] # readLines s
      else case readLines s of [] \<Rightarrow> [[c]] | l # ls \<Rightarrow> (c # l) # ls)"

fun decodeLines :: "codec \<Rightarrow> string list \<Rightarrow> codec_error + SpoolRecord list" where
  "decodeLines J [] = Inr []"
| "decodeLines J (l # ls) =
     (case DeserializeRecord J l of
        Inl e \<Rightarrow> Inl e
      | Inr r \<Rightarrow> (case decodeLines J ls of Inl e \<Rightarrow> Inl e | Inr rs \<Rightarrow> Inr (r # rs)))"

definition readSegmentFile :: "codec \<Rightarrow> string \<Rightarrow> SpoolRecord list spool_op" where
  "readSegmentFile J name =
     bindE (io (\<lambda>_. ErrReadSegment) (os_ReadFile name)) (\<lambda>b.
     liftE ErrCodec (decodeLines J (readLines b)))"

definition zeroCheckpoint :: Checkpoint where
  "zeroCheckpoint = \<lparr>LastCommittedSeq = 0, UpdatedAtUTC = 0\<rparr>"

definition readCheckpointLocked :: "codec \<Rightarrow> Checkpoint spool_op" where
  "readCheckpointLocked J m =
     (case os_ReadFile checkpointFileName (sys m) of
        (Inl ErrNotExist, s) \<Rightarrow> (Inr zeroCheckpoint, m\<lparr>sys := s\<rparr>)
      | (Inl ErrIO, s) \<Rightarrow> (Inl ErrReadCheckpoint, m\<lparr>sys := s\<rparr>)
      | (Inr data, s) \<Rightarrow> liftE ErrCodec (DeserializeCheckpoint J data) (m\<lparr>sys := s\<rparr>))"

definition ReadCheckpoint :: "codec \<Rightarrow> Checkpoint spool_op" where
  "ReadCheckpoint J = readCheckpointLocked J"

definition AdvanceCheckpoint :: "codec \<Rightarrow> uint64 \<Rightarrow> Checkpoint spool_op" where
  "AdvanceCheckpoint J lastCommittedSeq =
     bindE (io (\<lambda>_. ErrEnsureSpoolDir) os_MkdirAll) (\<lambda>_.
     bindE (readCheckpointLocked J) (\<lambda>current.
     if lastCommittedSeq \<le> LastCommittedSeq current then returnE current
     else
       bindE nowFn (\<lambda>now. \<lambda>m.
       let next = \<lparr>LastCommittedSeq = lastCommittedSeq, UpdatedAtUTC = now\<rparr> in
       bindE (liftE ErrCodec (SerializeCheckpoint J (sclock m (sticks m)) next)) (\<lambda>data.
       bindE (io (\<lambda>_. ErrOpenCheckpoint) (os_OpenTrunc checkpointFileName)) (\<lambda>file.
       bindE (orCloseFile file (io (\<lambda>_. ErrWriteCheckpoint) (file_Write file data))) (\<lambda>_.
       bindE (orCloseFile file (io (\<lambda>_. ErrSyncCheckpoint) (file_Sync file))) (\<lambda>_.
       bindE (io (\<lambda>_. ErrCloseCheckpoint) (file_Close file)) (\<lambda>_.
       returnE next))))) m)))"

definition segment_starts :: "(string \<times> bool) list \<Rightarrow> uint64 list" where
  "segment_starts es =
     sort (List.map_filter (\<lambda>(name, isDir). if isDir then None else ParseSegmentStartSeq name) es)"

definition listSegmentStartsLocked :: "uint64 list spool_op" where
  "listSegmentStartsLocked m =
     (case os_ReadDir (sys m) of
        (Inl ErrNotExist, s) \<Rightarrow> (Inr [], m\<lparr>sys := s\<rparr>)
      | (Inl ErrIO, s) \<Rightarrow> (Inl ErrListSpoolDir, m\<lparr>sys := s\<rparr>)
      | (Inr es, s) \<Rightarrow> (Inr (segment_starts es), m\<lparr>sys := s\<rparr>))"

fun replayLoop :: "codec \<Rightarrow> uint64 \<Rightarrow> SpoolRecord list \<Rightarrow> uint64 list \<Rightarrow> SpoolRecord list spool_op"
where
  "replayLoop J ck out [] m = (Inr out, m)"
| "replayLoop J ck out (s # ss) m =
     bindE (readSegmentFile J (SegmentFileName s)) (\<lambda>records.
       replayLoop J ck (out @ filter (\<lambda>r. Seq r > ck) records) ss) m"

definition ReplayAfterCheckpoint :: "codec \<Rightarrow> SpoolRecord list spool_op" where
  "ReplayAfterCheckpoint J =
     bindE (readCheckpointLocked J) (\<lambda>checkpoint.
     bindE listSegmentStartsLocked (\<lambda>starts.
     replayLoop J (LastCommittedSeq checkpoint) [] starts))"

section \<open>Compaction and status (compaction.go, status.go)\<close>

definition maxRecordSeqInSegment :: "codec \<Rightarrow> string \<Rightarrow> uint64 \<Rightarrow> uint64 spool_op" where
  "maxRecordSeqInSegment J path startSeq =
     bindE (readSegmentFile J path) (\<lambda>records.
     returnE (case records of
         [] \<Rightarrow> if startSeq = 0 then 0 else startSeq - 1
       | r # rs \<Rightarrow> fold (\<lambda>r maxSeq. if Seq r > maxSeq then Seq r else maxSeq) rs (Seq r)))"

fun compactLoop :: "codec \<Rightarrow> uint64 \<Rightarrow> int \<Rightarrow> uint64 list \<Rightarrow> int spool_op" where
  "compactLoop J ck deleted [] m = (Inr deleted, m)"
| "compactLoop J ck deleted (s # ss) m =
     (if activeFile m \<noteq> None \<and> s = activeSegmentStart m then compactLoop J ck deleted ss m
      else if s > ck then compactLoop J ck deleted ss m
      else
        bindE (maxRecordSeqInSegment J (SegmentFileName s) s) (\<lambda>maxSeq. \<lambda>m.
          if maxSeq > ck then compactLoop J ck deleted ss m
          else case os_Remove (SegmentFileName s) (sys m) of
                 (Inl ErrNotExist, os) \<Rightarrow> compactLoop J ck deleted ss (m\<lparr>sys := os\<rparr>)
               | (Inl ErrIO, os) \<Rightarrow> (Inl ErrRemoveSegment, m\<lparr>sys := os\<rparr>)
               | (Inr _, os) \<Rightarrow> compactLoop J ck (deleted + 1) ss (m\<lparr>sys := os\<rparr>)) m)"

definition CompactCommittedSegments :: "codec \<Rightarrow> int spool_op" where
  "CompactCommittedSegments J =
     bindE (readCheckpointLocked J) (\<lambda>checkpoint.
     bindE listSegmentStartsLocked (\<lambda>starts.
     compactLoop J (LastCommittedSeq checkpoint) 0 starts))"

definition SegmentCount :: "int spool_op" where
  "SegmentCount = bindE listSegmentStartsLocked (\<lambda>starts. returnE (int (length starts)))"

section \<open>Names, lines and decoding\<close>

lemma SegmentFileName_graphic:
  "SegmentFileName s \<noteq> []" "hd (SegmentFileName s) = CHR ''s''" "last (SegmentFileName s) = CHR ''n''"
  by (simp_all add: SegmentFileName_def segmentExtension_def)

lemma SegmentFileName_no_slash: "CHR ''/'' \<notin> set (SegmentFileName s)"
  using pad_dec_digits [of 20 "unat s"] digit_not_slash
  by (auto simp: SegmentFileName_def segmentExtension_def)

lemma parse_segment_name [simp]: "ParseSegmentStartSeq (SegmentFileName s) = Some s"
proof -
  have "trimSpace (SegmentFileName s) = SegmentFileName s"
    by (rule trimSpace_graphic(1)) (simp_all add: SegmentFileName_graphic graphic_def)
  then have b: "filepath_Base (trimSpace (SegmentFileName s)) = SegmentFileName s"
    by (simp add: SegmentFileName_graphic(1) SegmentFileName_no_slash)
  have "suffix segmentExtension (SegmentFileName s)" and "prefix ''segment-'' (SegmentFileName s)"
    unfolding SegmentFileName_def by (metis append_assoc suffixI) simp
  moreover have "trimPrefix (SegmentFileName s) ''segment-'' = pad_dec 20 (unat s) @ segmentExtension"
    unfolding SegmentFileName_def by (rule trimPrefix_append)
  ultimately show ?thesis by (simp add: ParseSegmentStartSeq_def b Let_def)
qed

lemma SegmentFileName_inject [simp]: "SegmentFileName s = SegmentFileName t \<longleftrightarrow> s = t"
  by (metis option.inject parse_segment_name)

lemma checkpoint_name_no_segment [simp]:
  "ParseSegmentStartSeq checkpointFileName = None"
  "SegmentFileName s \<noteq> checkpointFileName" "checkpointFileName \<noteq> SegmentFileName s"
proof -
  have "trimSpace checkpointFileName = checkpointFileName"
    by (rule trimSpace_graphic(1)) (simp_all add: checkpointFileName_def graphic_def)
  then show "ParseSegmentStartSeq checkpointFileName = None"
    by (simp add: ParseSegmentStartSeq_def checkpointFileName_def)
  show "SegmentFileName s \<noteq> checkpointFileName" "checkpointFileName \<noteq> SegmentFileName s"
    by (simp_all add: SegmentFileName_def checkpointFileName_def)
qed

lemma readLines_line [simp]:
  "newline \<notin> set d \<Longrightarrow> readLines (d @ newline # t) = (d @ [newline]) # readLines t"
  by (induction d) auto

lemma readLines_torn: "newline \<notin> set d \<Longrightarrow> d \<noteq> [] \<Longrightarrow> readLines d = [d]"
proof (induction d)
  case (Cons c d)
  then show ?case by (cases d) auto
qed simp

definition whole_lines :: "string \<Rightarrow> bool" where
  "whole_lines b \<longleftrightarrow> b = [] \<or> last b = newline"

lemma readLines_nonempty [simp]: "readLines a = [] \<longleftrightarrow> a = []"
  by (cases a) (auto split: list.splits)

lemma readLines_append: "whole_lines a \<Longrightarrow> readLines (a @ b) = readLines a @ readLines b"
proof (induction a)
  case (Cons c a)
  have "whole_lines a" using Cons.prems by (cases a) (auto simp: whole_lines_def)
  with Cons.IH have IH: "readLines (a @ b) = readLines a @ readLines b" by simp
  show ?case
  proof (cases "c = newline")
    case False
    with Cons.prems have "a \<noteq> []" by (auto simp: whole_lines_def)
    then obtain l ls where "readLines a = l # ls"
      by (metis readLines_nonempty list.exhaust)
    then show ?thesis using False IH by simp
  qed (simp add: IH)
qed simp

lemma decodeLines_append:
  "decodeLines J (xs @ ys) =
   (case decodeLines J xs of
      Inl e \<Rightarrow> Inl e
    | Inr rs \<Rightarrow> (case decodeLines J ys of Inl e \<Rightarrow> Inl e | Inr ts \<Rightarrow> Inr (rs @ ts)))"
  by (induction xs) (auto split: sum.splits)

text \<open>Appending one encoded record to a segment appends that record to what it decodes to.\<close>

lemma decode_append_record:
  assumes "codec_ok J" and "utf8_record r" and "SerializeRecord J r = Inr line"
    and "whole_lines b" and "decodeLines J (readLines b) = Inr rs"
  shows "decodeLines J (readLines (b @ line)) = Inr (rs @ [r])" and "whole_lines (b @ line)"
    and "line \<noteq> []"
proof -
  obtain d where d: "line = d @ [newline]" "newline \<notin> set d"
    using SerializeRecord_line [OF assms(1-3)] by blast
  then have "readLines line = [line]" using readLines_line [of d "[]"] by simp
  moreover have "DeserializeRecord J line = Inr r"
    using Deserialize_Serialize_Record [OF assms(1-3)] .
  ultimately show "decodeLines J (readLines (b @ line)) = Inr (rs @ [r])"
    using assms(4,5) by (simp add: readLines_append decodeLines_append)
  show "whole_lines (b @ line)" and "line \<noteq> []" using d by (auto simp: whole_lines_def)
qed

section \<open>The spool as a log of records\<close>

text \<open>
  \<open>seg_set\<close> is the set of start sequences with a segment file, \<open>seg_records\<close> what a segment
  decodes to, \<open>log_records\<close> their concatenation in ascending order, and \<open>pending_records\<close> the part
  above the checkpoint: what a replay returns.
\<close>

definition seg_set :: "FileSpoolManager \<Rightarrow> uint64 set" where
  "seg_set m = {s. fs (sys m) (SegmentFileName s) \<noteq> None}"

definition seg_records :: "codec \<Rightarrow> FileSpoolManager \<Rightarrow> uint64 \<Rightarrow> SpoolRecord list" where
  "seg_records J m s =
     (case fs (sys m) (SegmentFileName s) of
        Some (File b k) \<Rightarrow> (case decodeLines J (readLines b) of Inr rs \<Rightarrow> rs | Inl _ \<Rightarrow> [])
      | _ \<Rightarrow> [])"

definition log_records :: "codec \<Rightarrow> FileSpoolManager \<Rightarrow> SpoolRecord list" where
  "log_records J m = concat (map (seg_records J m) (sorted_list_of_set (seg_set m)))"

definition current_checkpoint :: "codec \<Rightarrow> FileSpoolManager \<Rightarrow> Checkpoint" where
  "current_checkpoint J m =
     (case fs (sys m) checkpointFileName of
        Some (File b k) \<Rightarrow>
          (case DeserializeCheckpoint J b of Inr c \<Rightarrow> c | Inl _ \<Rightarrow> zeroCheckpoint)
      | _ \<Rightarrow> zeroCheckpoint)"

definition committed_seq :: "codec \<Rightarrow> FileSpoolManager \<Rightarrow> uint64" where
  "committed_seq J m = LastCommittedSeq (current_checkpoint J m)"

definition pending_records :: "codec \<Rightarrow> FileSpoolManager \<Rightarrow> SpoolRecord list" where
  "pending_records J m = filter (\<lambda>r. committed_seq J m < Seq r) (log_records J m)"

text \<open>
  The files the package owns are readable: segment names are the ones \<open>SegmentFileName\<close> makes,
  every segment consists of whole lines that decode, and the checkpoint, if there is one, decodes.
\<close>

definition segments_readable :: "codec \<Rightarrow> (string \<rightharpoonup> node) \<Rightarrow> bool" where
  "segments_readable J f \<longleftrightarrow>
     (\<forall>s nd. f (SegmentFileName s) = Some nd \<longrightarrow>
        (\<exists>b k rs. nd = File b k \<and> whole_lines b \<and> decodeLines J (readLines b) = Inr rs))"

definition checkpoint_readable :: "codec \<Rightarrow> (string \<rightharpoonup> node) \<Rightarrow> bool" where
  "checkpoint_readable J f \<longleftrightarrow>
     (\<forall>nd. f checkpointFileName = Some nd \<longrightarrow>
        (\<exists>b k c. nd = File b k \<and> DeserializeCheckpoint J b = Inr c))"

definition canonical_names :: "(string \<rightharpoonup> node) \<Rightarrow> bool" where
  "canonical_names f \<longleftrightarrow>
     (\<forall>name nd s. f name = Some nd \<longrightarrow> nd \<noteq> Directory \<longrightarrow> ParseSegmentStartSeq name = Some s \<longrightarrow>
        name = SegmentFileName s)"

definition spool_inv :: "codec \<Rightarrow> FileSpoolManager \<Rightarrow> bool" where
  "spool_inv J m \<longleftrightarrow>
     codec_ok J \<and> healthy (sys m) \<and> wf_dir (sys m) \<and> canonical_names (fs (sys m)) \<and>
     segments_readable J (fs (sys m)) \<and> checkpoint_readable J (fs (sys m))"

lemma view_cong:
  assumes "fs (sys m') = fs (sys m)"
  shows "seg_set m' = seg_set m" "seg_records J m' = seg_records J m"
    "log_records J m' = log_records J m" "current_checkpoint J m' = current_checkpoint J m"
    "committed_seq J m' = committed_seq J m" "pending_records J m' = pending_records J m"
proof -
  show 1: "seg_set m' = seg_set m" by (simp add: seg_set_def assms)
  show 2: "seg_records J m' = seg_records J m" by (simp add: seg_records_def fun_eq_iff assms)
  show 3: "log_records J m' = log_records J m" by (simp add: log_records_def 1 2)
  show "current_checkpoint J m' = current_checkpoint J m" by (simp add: current_checkpoint_def assms)
  then show 4: "committed_seq J m' = committed_seq J m" by (simp add: committed_seq_def)
  show "pending_records J m' = pending_records J m" by (simp add: pending_records_def 3 4)
qed

lemma spool_inv_cong:
  "spool_inv J m \<Longrightarrow> fs (sys m') = fs (sys m) \<Longrightarrow> healthy (sys m') \<Longrightarrow> wf_dir (sys m') \<Longrightarrow>
   spool_inv J m'"
  by (simp add: spool_inv_def)

lemma spool_inv_segment:
  assumes "spool_inv J m" and "s \<in> seg_set m"
  obtains b k where "fs (sys m) (SegmentFileName s) = Some (File b k)" and "whole_lines b"
    and "decodeLines J (readLines b) = Inr (seg_records J m s)"
proof -
  from assms obtain b k rs where "fs (sys m) (SegmentFileName s) = Some (File b k)"
    "whole_lines b" "decodeLines J (readLines b) = Inr rs"
    unfolding spool_inv_def segments_readable_def seg_set_def by blast
  moreover from this have "seg_records J m s = rs" by (simp add: seg_records_def)
  ultimately show ?thesis using that by simp
qed

lemma segment_starts_entries:
  assumes "wf_dir s" and "canonical_names (fs s)"
    and "\<forall>n nd. fs s (SegmentFileName n) = Some nd \<longrightarrow> nd \<noteq> Directory"
  shows "segment_starts (dir_entries s) =
    sorted_list_of_set {n. fs s (SegmentFileName n) \<noteq> None}"
proof -
  let ?g = "\<lambda>(name, isDir). if isDir then None else ParseSegmentStartSeq name"
  let ?xs = "List.map_filter ?g (dir_entries s)"
  have set: "set ?xs = {n. fs s (SegmentFileName n) \<noteq> None}" (is "_ = ?S")
  proof
    show "set ?xs \<subseteq> ?S"
      using assms(2) by (force simp: set_map_filter set_dir_entries [OF assms(1)] canonical_names_def
          split: if_splits)
    show "?S \<subseteq> set ?xs"
    proof
      fix n assume "n \<in> ?S"
      then obtain nd where "fs s (SegmentFileName n) = Some nd" "nd \<noteq> Directory"
        using assms(3) by auto
      then have "(SegmentFileName n, False) \<in> set (dir_entries s)"
        by (simp add: set_dir_entries [OF assms(1)])
      then show "n \<in> set ?xs" by (force simp: set_map_filter parse_segment_name)
    qed
  qed
  have "fst e = SegmentFileName n" if "e \<in> set (dir_entries s)" "?g e = Some n" for e n
    using that assms(2) set_dir_entries [OF assms(1), of "fst e" "snd e"]
    by (auto simp: canonical_names_def case_prod_beta split: if_splits)
  from distinct_map_filter [OF distinct_dir_entries [OF assms(1)] this] have "distinct ?xs" .
  then show ?thesis
    unfolding segment_starts_def set [symmetric]
    by (simp add: sorted_list_of_set_sort_remdups distinct_remdups_id)
qed

section \<open>Reading without faults\<close>

abbreviation ticked :: "FileSpoolManager \<Rightarrow> FileSpoolManager" where
  "ticked m \<equiv> m\<lparr>sys := tick (sys m)\<rparr>"

lemma spool_invD:
  assumes "spool_inv J m"
  shows "codec_ok J" "healthy (sys m)" "wf_dir (sys m)" "canonical_names (fs (sys m))"
    "segments_readable J (fs (sys m))" "checkpoint_readable J (fs (sys m))"
  using assms by (simp_all add: spool_inv_def)

lemma ticked_inv [simp]: "spool_inv J m \<Longrightarrow> spool_inv J (ticked m)"
  by (rule spool_inv_cong) (simp_all add: spool_invD)

lemma ticked_view [simp]:
  "seg_set (ticked m) = seg_set m" "seg_records J (ticked m) = seg_records J m"
  "log_records J (ticked m) = log_records J m"
  "current_checkpoint J (ticked m) = current_checkpoint J m"
  "committed_seq J (ticked m) = committed_seq J m"
  "pending_records J (ticked m) = pending_records J m"
  by (rule view_cong, simp)+

lemma readCheckpoint_ok:
  assumes "spool_inv J m"
  shows "readCheckpointLocked J m = (Inr (current_checkpoint J m), ticked m)"
proof (cases "fs (sys m) checkpointFileName")
  case None
  with assms show ?thesis
    by (simp add: readCheckpointLocked_def os_ReadFile_healthy spool_invD(2) current_checkpoint_def)
next
  case (Some nd)
  with spool_invD(6) [OF assms] obtain b k c where "nd = File b k" "DeserializeCheckpoint J b = Inr c"
    unfolding checkpoint_readable_def by blast
  with Some assms show ?thesis
    by (simp add: readCheckpointLocked_def os_ReadFile_healthy spool_invD(2) current_checkpoint_def
        liftE_def)
qed

lemma listSegmentStarts_ok:
  assumes "spool_inv J m"
  shows "listSegmentStartsLocked m = (Inr (sorted_list_of_set (seg_set m)), ticked m)"
proof (cases "dir (sys m) = None")
  case True
  then have "seg_set m = {}" by (simp add: seg_set_def fs_def)
  with True assms show ?thesis
    by (simp add: listSegmentStartsLocked_def os_ReadDir_healthy spool_invD(2))
next
  case False
  have "\<forall>n nd. fs (sys m) (SegmentFileName n) = Some nd \<longrightarrow> nd \<noteq> Directory"
    using spool_invD(5) [OF assms] by (auto simp: segments_readable_def)
  from segment_starts_entries [OF spool_invD(3,4) [OF assms] this] False assms show ?thesis
    by (auto simp: listSegmentStartsLocked_def os_ReadDir_healthy spool_invD(2) seg_set_def)
qed

lemma readSegment_ok:
  assumes "spool_inv J m" and "s \<in> seg_set m"
  shows "readSegmentFile J (SegmentFileName s) m = (Inr (seg_records J m s), ticked m)"
proof -
  obtain b k where "fs (sys m) (SegmentFileName s) = Some (File b k)"
    "decodeLines J (readLines b) = Inr (seg_records J m s)"
    using spool_inv_segment [OF assms] by metis
  with assms show ?thesis
    by (simp add: readSegmentFile_def bindE_def io_def os_ReadFile_healthy spool_invD(2) liftE_def)
qed

lemma replayLoop_ok:
  assumes "spool_inv J m" and "set ss \<subseteq> seg_set m"
  shows "\<exists>m'. replayLoop J ck out ss m =
      (Inr (out @ filter (\<lambda>r. ck < Seq r) (concat (map (seg_records J m) ss))), m') \<and>
    spool_inv J m' \<and> fs (sys m') = fs (sys m) \<and> m' = m\<lparr>sys := sys m'\<rparr>"
  using assms
proof (induction ss arbitrary: out m)
  case (Cons s ss)
  let ?m = "ticked m"
  have "spool_inv J ?m" "set ss \<subseteq> seg_set ?m" using Cons.prems by auto
  from Cons.IH [OF this, of "out @ filter (\<lambda>r. ck < Seq r) (seg_records J m s)"] obtain m' where
    "replayLoop J ck (out @ filter (\<lambda>r. ck < Seq r) (seg_records J m s)) ss ?m =
      (Inr (out @ filter (\<lambda>r. ck < Seq r) (concat (map (seg_records J m) (s # ss)))), m')"
    "spool_inv J m'" "fs (sys m') = fs (sys m)" "m' = m\<lparr>sys := sys m'\<rparr>"
    by auto
  with Cons.prems readSegment_ok [of J m s] show ?case by auto
qed auto

text \<open>On a readable spool, a replay returns exactly the records above the checkpoint.\<close>

lemma Replay_ok:
  assumes "spool_inv J m"
  shows "\<exists>m'. ReplayAfterCheckpoint J m = (Inr (pending_records J m), m') \<and>
    spool_inv J m' \<and> fs (sys m') = fs (sys m) \<and> m' = m\<lparr>sys := sys m'\<rparr>"
proof -
  let ?m = "ticked (ticked m)"
  have "spool_inv J ?m" "set (sorted_list_of_set (seg_set m)) \<subseteq> seg_set ?m"
    using ticked_inv [OF ticked_inv [OF assms]] ticked_view(1) [of "ticked m"] by simp_all
  moreover have v: "seg_records J ?m = seg_records J m" by (rule view_cong) simp
  ultimately obtain m' where
    "replayLoop J (committed_seq J m) [] (sorted_list_of_set (seg_set m)) ?m =
       (Inr (pending_records J m), m')"
    "spool_inv J m'" "fs (sys m') = fs (sys m)" "m' = m\<lparr>sys := sys m'\<rparr>"
    using replayLoop_ok [of J ?m "sorted_list_of_set (seg_set m)" "committed_seq J m" "[]"]
    by (auto simp: pending_records_def log_records_def)
  then show ?thesis
    using readCheckpoint_ok [OF assms] listSegmentStarts_ok [OF ticked_inv [OF assms]]
    by (auto simp: ReplayAfterCheckpoint_def committed_seq_def)
qed

section \<open>Advancing the checkpoint\<close>

text \<open>Two states of the spool that differ in the checkpoint file only.\<close>

lemma checkpoint_written_views:
  assumes "fs (sys m') = (fs (sys m))(checkpointFileName \<mapsto> File data k)"
    and "DeserializeCheckpoint J data = Inr c"
  shows "seg_set m' = seg_set m" "log_records J m' = log_records J m"
    "committed_seq J m' = LastCommittedSeq c" "seg_records J m' = seg_records J m"
proof -
  have f: "fs (sys m') (SegmentFileName s) = fs (sys m) (SegmentFileName s)" for s
    using assms(1) by simp
  show 1: "seg_set m' = seg_set m" by (simp add: seg_set_def f)
  show 2: "seg_records J m' = seg_records J m" by (simp add: seg_records_def f fun_eq_iff)
  show "log_records J m' = log_records J m" by (simp add: log_records_def 1 2)
  show "committed_seq J m' = LastCommittedSeq c"
    using assms by (simp add: committed_seq_def current_checkpoint_def)
qed

lemma checkpoint_written_inv:
  assumes "spool_inv J m" and "fs (sys m') = (fs (sys m))(checkpointFileName \<mapsto> File data k)"
    and "DeserializeCheckpoint J data = Inr c" and "healthy (sys m')" and "wf_dir (sys m')"
  shows "spool_inv J m'"
  using assms unfolding spool_inv_def
  by (auto simp: canonical_names_def segments_readable_def checkpoint_readable_def)

text \<open>The three ways \<open>AdvanceCheckpoint\<close> can go when no call fails.\<close>

lemma Advance_cases:
  assumes "spool_inv J m"
  obtains
    (old) m' where "n \<le> committed_seq J m"
      "AdvanceCheckpoint J n m = (Inr (current_checkpoint J m), m')"
      "spool_inv J m'" "fs (sys m') = fs (sys m)" "m' = m\<lparr>sys := sys m'\<rparr>"
  | (refused) e m' where "committed_seq J m < n" "AdvanceCheckpoint J n m = (Inl (ErrCodec e), m')"
      "spool_inv J m'" "fs (sys m') = fs (sys m)" "m' = m\<lparr>sys := sys m', sticks := Suc (sticks m)\<rparr>"
  | (new) c data m' where "committed_seq J m < n" "LastCommittedSeq c = n"
      "AdvanceCheckpoint J n m = (Inr c, m')"
      "DeserializeCheckpoint J data = Inr c \<or> UpdatedAtUTC c = 0"
      "\<exists>c'. DeserializeCheckpoint J data = Inr c' \<and> LastCommittedSeq c' = n"
      "fs (sys m') = (fs (sys m))(checkpointFileName \<mapsto> File data (length data))"
      "spool_inv J m'" "m' = m\<lparr>sys := sys m', sticks := Suc (sticks m)\<rparr>"
proof -
  note I = spool_invD [OF assms]
  let ?m1 = "m\<lparr>sys := ensure_dir (tick (sys m))\<rparr>"
  have i1: "spool_inv J ?m1" using assms by (rule spool_inv_cong) (simp_all add: I)
  have mk: "io (\<lambda>_. ErrEnsureSpoolDir) os_MkdirAll m = (Inr (), ?m1)" by (simp add: io_def I)
  have ck: "current_checkpoint J ?m1 = current_checkpoint J m"
    by (rule view_cong) simp
  have rd: "readCheckpointLocked J ?m1 = (Inr (current_checkpoint J m), ticked ?m1)"
    using readCheckpoint_ok [OF i1] ck by simp
  have i2: "spool_inv J (ticked ?m1)" using ticked_inv [OF i1] .
  show ?thesis
  proof (cases "n \<le> committed_seq J m")
    case True
    show ?thesis
      by (rule old [of "ticked ?m1"]) (use True mk rd i2 in \<open>simp_all add: AdvanceCheckpoint_def
          committed_seq_def\<close>)
  next
    case False
    let ?now = "sclock m (sticks m)"
    let ?next = "\<lparr>LastCommittedSeq = n, UpdatedAtUTC = ?now\<rparr>"
    let ?m3 = "(ticked ?m1)\<lparr>sticks := Suc (sticks m)\<rparr>"
    have i3: "spool_inv J ?m3" using i2 by (rule spool_inv_cong) (simp_all add: I)
    note A = AdvanceCheckpoint_def mk rd nowFn_def
    show ?thesis
    proof (cases "SerializeCheckpoint J (sclock m (Suc (sticks m))) ?next")
      case (Inl e)
      show ?thesis
        by (rule refused [of e ?m3]) (use False i3 Inl in \<open>simp_all add: A committed_seq_def liftE_def Let_def\<close>)
    next
      case (Inr data)
      have "fs (sys m) checkpointFileName \<noteq> Some Directory"
        using I(6) by (auto simp: checkpoint_readable_def)
      note D = Deserialize_Serialize_Checkpoint [OF I(1) Inr]
      define s1 where "s1 = put_file checkpointFileName (File [] 0) (tick (sys ?m3))"
      define s2 where "s2 = put_file checkpointFileName (File data 0) (tick s1)"
      define s3 where "s3 = put_file checkpointFileName (File data (length data)) (tick s2)"
      have h: "healthy s1" "healthy s2" "healthy s3" "dir s1 \<noteq> None" "dir s2 \<noteq> None"
        by (simp_all add: s1_def s2_def s3_def I)
      have f: "fs s1 checkpointFileName = Some (File [] 0)" "fs s2 checkpointFileName = Some (File data 0)"
        by (simp_all add: s1_def s2_def I h)
      let ?h = "Handle checkpointFileName True"
      have steps:
        "io (\<lambda>_. ErrOpenCheckpoint) (os_OpenTrunc checkpointFileName) x = (Inr ?h, x\<lparr>sys := s1\<rparr>)"
        if "sys x = sys ?m3" for x
        using that \<open>fs (sys m) checkpointFileName \<noteq> Some Directory\<close> by (simp add: io_def s1_def I)
      moreover have
        "orCloseFile ?h (io (\<lambda>_. ErrWriteCheckpoint) (file_Write ?h data)) x = (Inr (), x\<lparr>sys := s2\<rparr>)"
        if "sys x = s1" for x
        using that h f by (simp add: orCloseFile_def io_def s2_def)
      moreover have
        "orCloseFile ?h (io (\<lambda>_. ErrSyncCheckpoint) (file_Sync ?h)) x = (Inr (), x\<lparr>sys := s3\<rparr>)"
        if "sys x = s2" for x
        using that h f by (simp add: orCloseFile_def io_def s3_def)
      moreover have
        "io (\<lambda>_. ErrCloseCheckpoint) (file_Close ?h) x = (Inr (), x\<lparr>sys := tick s3\<rparr>)"
        if "sys x = s3" for x
        using that h by (simp add: io_def)
      ultimately have run: "AdvanceCheckpoint J n m = (Inr ?next, ?m3\<lparr>sys := tick s3\<rparr>)"
        using False Inr by (simp add: A committed_seq_def liftE_def Let_def)
      have fs: "fs (sys (?m3\<lparr>sys := tick s3\<rparr>)) =
          (fs (sys m))(checkpointFileName \<mapsto> File data (length data))"
        using h by (simp add: s3_def s2_def s1_def)
      have "wf_dir s3" by (simp add: s3_def s2_def s1_def I)
      then have "spool_inv J (?m3\<lparr>sys := tick s3\<rparr>)"
        using checkpoint_written_inv [OF assms fs D] h by simp
      then show ?thesis
        using new [OF _ _ run _ _ fs] False D by (auto simp: time_IsZero_def)
    qed
  qed
qed

section \<open>Compaction\<close>

text \<open>
  What makes a segment removable: it is not the open one, and all its records are at or below
  the checkpoint.
\<close>

definition compactable :: "codec \<Rightarrow> FileSpoolManager \<Rightarrow> uint64 \<Rightarrow> uint64 \<Rightarrow> bool" where
  "compactable J m ck s \<longleftrightarrow>
     \<not> (activeFile m \<noteq> None \<and> s = activeSegmentStart m) \<and> s \<le> ck \<and>
     (\<forall>r \<in> set (seg_records J m s). Seq r \<le> ck)"

lemma fold_max_le:
  "fold (\<lambda>r maxSeq. if Seq r > maxSeq then Seq r else maxSeq) rs a \<le> ck \<longleftrightarrow>
   a \<le> ck \<and> (\<forall>r \<in> set rs. Seq r \<le> ck)"
  by (induction rs arbitrary: a) (simp_all, meson linorder_not_less order.trans nless_le)

lemma pred_le: "(s :: uint64) \<le> ck \<Longrightarrow> (if s = 0 then 0 else s - 1) \<le> ck"
  by (auto simp: word_le_nat_alt unat_minus_one)

lemma maxRecordSeq_ok:
  assumes "spool_inv J m" and "s \<in> seg_set m" and "s \<le> ck"
  shows "\<exists>x. maxRecordSeqInSegment J (SegmentFileName s) s m = (Inr x, ticked m) \<and>
    (x \<le> ck \<longleftrightarrow> (\<forall>r \<in> set (seg_records J m s). Seq r \<le> ck))"
  using readSegment_ok [OF assms(1,2)] pred_le [OF assms(3)]
  by (auto simp: maxRecordSeqInSegment_def fold_max_le split: list.split)

lemma removed_segment_inv:
  assumes "spool_inv J m" and "fs (sys m') = fs (sys m) |` (- D)"
    and "healthy (sys m')" and "wf_dir (sys m')"
  shows "spool_inv J m'"
  using assms unfolding spool_inv_def
  by (auto simp: canonical_names_def segments_readable_def checkpoint_readable_def restrict_map_def
      split: if_splits)

lemma compactLoop_ok:
  assumes "spool_inv J m" and "set ss \<subseteq> seg_set m" and "distinct ss"
  shows "\<exists>m'. compactLoop J ck n ss m = (Inr (n + int (length (filter (compactable J m ck) ss))), m') \<and>
    spool_inv J m' \<and> m' = m\<lparr>sys := sys m'\<rparr> \<and>
    fs (sys m') = fs (sys m) |` (- SegmentFileName ` {s \<in> set ss. compactable J m ck s})"
  using assms
proof (induction ss arbitrary: n m)
  case Nil
  then show ?case by auto
next
  case (Cons s ss)
  show ?case
  proof (cases "activeFile m \<noteq> None \<and> s = activeSegmentStart m \<or> ck < s")
    case True
    then have "\<not> compactable J m ck s" by (auto simp: compactable_def)
    moreover have "compactLoop J ck n (s # ss) m = compactLoop J ck n ss m" using True by auto
    moreover have "{t \<in> set (s # ss). compactable J m ck t} = {t \<in> set ss. compactable J m ck t}"
      using \<open>\<not> compactable J m ck s\<close> by auto
    ultimately show ?thesis using Cons.IH [of m n] Cons.prems by simp
  next
    case False
    have m1: "spool_inv J (ticked m)" using Cons.prems(1) by simp
    obtain x where x: "maxRecordSeqInSegment J (SegmentFileName s) s m = (Inr x, ticked m)"
      "x \<le> ck \<longleftrightarrow> (\<forall>r \<in> set (seg_records J m s). Seq r \<le> ck)"
      using maxRecordSeq_ok [of J m s ck] Cons.prems(1,2) False by (auto simp: not_less)
    have c: "compactable J m ck s \<longleftrightarrow> x \<le> ck" using x(2) False by (auto simp: compactable_def)
    have same: "compactable J (ticked m) ck = compactable J m ck"
      by (simp add: compactable_def fun_eq_iff)
    show ?thesis
    proof (cases "x \<le> ck")
      case False
      with c have "{t \<in> set (s # ss). compactable J m ck t} = {t \<in> set ss. compactable J m ck t}"
        by auto
      moreover have "compactLoop J ck n (s # ss) m = compactLoop J ck n ss (ticked m)"
        using \<open>\<not> (activeFile m \<noteq> None \<and> s = activeSegmentStart m \<or> ck < s)\<close> x(1) False by auto
      ultimately show ?thesis using Cons.IH [OF m1, of n] Cons.prems c False same by simp
    next
      case True
      obtain b k where b: "fs (sys m) (SegmentFileName s) = Some (File b k)"
        using spool_inv_segment [OF Cons.prems(1), of s] Cons.prems(2) by (metis list.set_intros(1) subsetD)
      let ?m2 = "m\<lparr>sys := remove_file (SegmentFileName s) (tick (tick (sys m)))\<rparr>"
      have run: "compactLoop J ck n (s # ss) m = compactLoop J ck (n + 1) ss ?m2"
        using \<open>\<not> (activeFile m \<noteq> None \<and> s = activeSegmentStart m \<or> ck < s)\<close> x(1) True b
          spool_invD(2) [OF Cons.prems(1)] by auto
      have f2: "fs (sys ?m2) = fs (sys m) |` (- {SegmentFileName s})"
        by (auto simp: restrict_map_def)
      have i2: "spool_inv J ?m2"
        using removed_segment_inv [OF Cons.prems(1) f2] spool_invD [OF Cons.prems(1)] by simp
      have other: "compactable J ?m2 ck t = compactable J m ck t" if "t \<in> set ss" for t
        using that Cons.prems(3) by (auto simp: compactable_def seg_records_def)
      have fl: "filter (compactable J ?m2 ck) ss = filter (compactable J m ck) ss"
        and st: "{t \<in> set ss. compactable J ?m2 ck t} = {t \<in> set ss. compactable J m ck t}"
        by (rule filter_cong [OF refl other], assumption) (use other in auto)
      have "set ss \<subseteq> seg_set ?m2" using Cons.prems by (auto simp: seg_set_def)
      moreover have "distinct ss" using Cons.prems(3) by simp
      ultimately obtain m' where m':
        "compactLoop J ck (n + 1) ss ?m2 =
           (Inr (n + 1 + int (length (filter (compactable J m ck) ss))), m')"
        "spool_inv J m'" "m' = m\<lparr>sys := sys m'\<rparr>"
        "fs (sys m') = fs (sys m) |` (- {SegmentFileName s}) |`
           (- SegmentFileName ` {t \<in> set ss. compactable J m ck t})"
        using Cons.IH [OF i2, of "n + 1"] unfolding fl st f2 by auto
      show ?thesis
        unfolding run m'(1) using m'(2-4) f2 True c by (auto simp: fun_eq_iff restrict_map_def)
    qed
  qed
qed

lemma sorted_list_of_set_minus:
  "sorted_list_of_set (A - D) = filter (\<lambda>s. s \<notin> D) (sorted_list_of_set (A :: uint64 set))"
proof -
  have "sorted (filter (\<lambda>s. s \<notin> D) (sorted_list_of_set A))"
    and "distinct (filter (\<lambda>s. s \<notin> D) (sorted_list_of_set A))"
    by (simp_all add: sorted_wrt_filter)
  moreover have "set (filter (\<lambda>s. s \<notin> D) (sorted_list_of_set A)) = A - D" by auto
  ultimately show ?thesis
    by (metis sorted_list_of_set.idem_if_sorted_distinct)
qed

lemma concat_map_filter_skip:
  "(\<And>s. s \<in> set xs \<Longrightarrow> \<not> P s \<Longrightarrow> g s = []) \<Longrightarrow> concat (map g (filter P xs)) = concat (map g xs)"
  by (induction xs) auto

text \<open>
  Compaction deletes exactly the compactable segments, counts them, and changes neither the
  checkpoint nor what a replay returns.
\<close>

lemma Compact_ok:
  assumes "spool_inv J m"
  shows "\<exists>m'. CompactCommittedSegments J m =
      (Inr (int (card {s \<in> seg_set m. compactable J m (committed_seq J m) s})), m') \<and>
    spool_inv J m' \<and> m' = m\<lparr>sys := sys m'\<rparr> \<and>
    seg_set m' = {s \<in> seg_set m. \<not> compactable J m (committed_seq J m) s} \<and>
    committed_seq J m' = committed_seq J m \<and> pending_records J m' = pending_records J m \<and>
    log_records J m' = concat (map (seg_records J m) (sorted_list_of_set (seg_set m'))) \<and>
    fs (sys m') =
      fs (sys m) |` (- SegmentFileName ` {s \<in> seg_set m. compactable J m (committed_seq J m) s})"
proof -
  let ?m = "ticked (ticked m)" and ?ck = "committed_seq J m"
  let ?D = "{s \<in> seg_set m. compactable J m ?ck s}"
  let ?ss = "sorted_list_of_set (seg_set m)"
  have i: "spool_inv J ?m" using ticked_inv [OF ticked_inv [OF assms]] .
  have v: "seg_records J ?m = seg_records J m" "seg_set ?m = seg_set m"
    by (rule view_cong, simp)+
  have c: "compactable J ?m ?ck = compactable J m ?ck"
    by (simp add: compactable_def fun_eq_iff v [simplified])
  have len: "length (filter (compactable J m ?ck) ?ss) = card ?D"
    using distinct_card [of "filter (compactable J m ?ck) ?ss"] by (simp add: conj_commute)
  have fm: "fs (sys ?m) = fs (sys m)" by simp
  from compactLoop_ok [OF i, of ?ss ?ck 0, unfolded c fm] obtain m' where m':
    "compactLoop J ?ck 0 ?ss ?m = (Inr (int (card ?D)), m')" "spool_inv J m'"
    "m' = m\<lparr>sys := sys m'\<rparr>"
    "fs (sys m') = fs (sys m) |` (- SegmentFileName ` ?D)"
    using v(2) len by auto
  have run: "CompactCommittedSegments J m = (Inr (int (card ?D)), m')"
    using m'(1) readCheckpoint_ok [OF assms] listSegmentStarts_ok [OF ticked_inv [OF assms]]
    by (simp add: CompactCommittedSegments_def committed_seq_def)
  have set: "seg_set m' = seg_set m - ?D"
    using m'(4) by (auto simp: seg_set_def restrict_map_def)
  have recs: "seg_records J m' s = seg_records J m s" if "s \<in> seg_set m'" for s
    using m'(4) that by (auto simp: seg_records_def seg_set_def restrict_map_def)
  have "checkpointFileName \<notin> SegmentFileName ` ?D" by auto
  then have ck: "committed_seq J m' = ?ck"
    using m'(4) by (simp add: committed_seq_def current_checkpoint_def)
  have log: "log_records J m' = concat (map (seg_records J m) (sorted_list_of_set (seg_set m')))"
    unfolding log_records_def using recs by (intro arg_cong [of _ _ concat] map_cong) auto
  have "pending_records J m' =
      concat (map (\<lambda>s. filter (\<lambda>r. ?ck < Seq r) (seg_records J m s)) (filter (\<lambda>s. s \<notin> ?D) ?ss))"
    unfolding pending_records_def log ck
    by (simp only: set sorted_list_of_set_minus filter_concat map_map comp_def)
  also have "\<dots> = concat (map (\<lambda>s. filter (\<lambda>r. ?ck < Seq r) (seg_records J m s)) ?ss)"
    by (rule concat_map_filter_skip) (auto simp: compactable_def filter_empty_conv not_less)
  also have "\<dots> = pending_records J m"
    by (simp add: pending_records_def log_records_def filter_concat comp_def)
  finally show ?thesis using run m'(2-4) set ck log by auto
qed

section \<open>The spool provides the checkpoint manager's contract\<close>

interpretation disk: checkpoint_manager "spool_inv J" "committed_seq J" "pending_records J"
  "AdvanceCheckpoint J" "CompactCommittedSegments J" for J
proof unfold_locales
  fix c c' :: FileSpoolManager and n cp
  assume i: "spool_inv J c" and r: "AdvanceCheckpoint J n c = (Inr cp, c')"
  from i show "spool_inv J c' \<and> committed_seq J c' = max (committed_seq J c) n \<and>
      pending_records J c' = filter (\<lambda>r. n < Seq r) (pending_records J c)"
  proof (cases rule: Advance_cases [of J c n])
    case (old m')
    then have "c' = m'" using r by simp
    moreover have "filter (\<lambda>r. n < Seq r) (pending_records J c) = pending_records J c"
      using old(1) unfolding pending_records_def filter_filter by (intro filter_cong) auto
    ultimately show ?thesis using old view_cong [OF old(4)] by (simp add: max_def)
  next
    case (new d data m')
    then have c': "c' = m'" using r by simp
    obtain d' where d': "DeserializeCheckpoint J data = Inr d'" "LastCommittedSeq d' = n"
      using new(5) by blast
    note v = checkpoint_written_views [OF new(6) d'(1)]
    have "filter (\<lambda>r. n < Seq r) (pending_records J c) = filter (\<lambda>r. n < Seq r) (log_records J c)"
      using new(1) unfolding pending_records_def filter_filter by (intro filter_cong) auto
    moreover have "pending_records J c' = filter (\<lambda>r. n < Seq r) (log_records J c)"
      using v d' c' by (simp add: pending_records_def)
    ultimately show ?thesis using new v d' c' by (auto simp: max_def)
  qed (use r in simp)
next
  fix c c' :: FileSpoolManager and n e
  assume i: "spool_inv J c" and r: "AdvanceCheckpoint J n c = (Inl e, c')"
  from i show "spool_inv J c' \<and> committed_seq J c' = committed_seq J c \<and>
      pending_records J c' = pending_records J c"
    by (cases rule: Advance_cases [of J c n]) (use r view_cong [of c' c] in auto)
next
  fix c c' :: FileSpoolManager and res
  assume "spool_inv J c" and "CompactCommittedSegments J c = (res, c')"
  then show "spool_inv J c' \<and> committed_seq J c' = committed_seq J c \<and>
      pending_records J c' = pending_records J c"
    using Compact_ok [of J c] by auto
qed

end
