(* ===== verification/SpoolAppend.thy ===== *)
theory SpoolAppend
  imports Spool
begin

text \<open>
  Appending to the spool in one run of the process: the records of a batch get consecutive
  sequence numbers, end up at the end of the log, and are on disk to the degree the fsync mode
  promises. The invariants speak about the first run on a spool directory; what a restart does
  to them is the subject of the last section.
\<close>

section \<open>Invariants of a run\<close>

definition active_ok :: "FileSpoolManager \<Rightarrow> bool" where
  "active_ok m \<longleftrightarrow>
     (case activeFile m of
        None \<Rightarrow> True
      | Some h \<Rightarrow>
          h = Handle (SegmentFileName (activeSegmentStart m)) True \<and>
          (\<exists>b k. fs (sys m) (SegmentFileName (activeSegmentStart m)) = Some (File b k) \<and>
                 activeSegmentSize m = int (length b)) \<and>
          (\<forall>s \<in> seg_set m. s \<le> activeSegmentStart m))"

text \<open>Bytes that a crash may take: at most \<open>bytesSinceSync\<close> of the open segment, none elsewhere.\<close>

definition durable_inv :: "FileSpoolManager \<Rightarrow> bool" where
  "durable_inv m \<longleftrightarrow>
     0 \<le> bytesSinceSync m \<and>
     (\<forall>s b k. fs (sys m) (SegmentFileName s) = Some (File b k) \<longrightarrow>
        int (length b) - int k \<le>
          (if activeFile m \<noteq> None \<and> s = activeSegmentStart m then bytesSinceSync m else 0))"

definition sync_policy :: "FileSpoolManager \<Rightarrow> bool" where
  "sync_policy m \<longleftrightarrow>
     0 < fsyncThreshold m \<and>
     (fsyncMode m = ''always'' \<longrightarrow> bytesSinceSync m = 0) \<and>
     (fsyncMode m = ''balanced'' \<longrightarrow> bytesSinceSync m < fsyncThreshold m)"

definition log_inv :: "codec \<Rightarrow> FileSpoolManager \<Rightarrow> bool" where
  "log_inv J m \<longleftrightarrow>
     sorted_wrt (<) (map Seq (log_records J m)) \<and>
     (\<forall>r \<in> set (log_records J m). Seq r < nextSeq m)"

definition checkpoint_synced :: "FileSpoolManager \<Rightarrow> bool" where
  "checkpoint_synced m \<longleftrightarrow>
     (\<forall>b k. fs (sys m) checkpointFileName = Some (File b k) \<longrightarrow> length b \<le> k)"

definition run_inv :: "codec \<Rightarrow> FileSpoolManager \<Rightarrow> bool" where
  "run_inv J m \<longleftrightarrow>
     spool_inv J m \<and> active_ok m \<and> durable_inv m \<and> sync_policy m \<and> log_inv J m \<and>
     checkpoint_synced m \<and>
     normalizeFSyncMode (fsyncMode m) \<noteq> [] \<and> (\<forall>s \<in> seg_set m. s < nextSeq m)"

text \<open>What the steps of an append leave alone.\<close>

definition same_config :: "FileSpoolManager \<Rightarrow> FileSpoolManager \<Rightarrow> bool" where
  "same_config m m' \<longleftrightarrow>
     segmentMaxBytes m' = segmentMaxBytes m \<and> fsyncMode m' = fsyncMode m \<and>
     fsyncInterval m' = fsyncInterval m \<and> fsyncThreshold m' = fsyncThreshold m \<and>
     sclock m' = sclock m \<and>
     fs (sys m') checkpointFileName = fs (sys m) checkpointFileName"

lemma same_config_refl [simp]: "same_config m m"
  by (simp add: same_config_def)

lemma same_config_trans: "same_config a b \<Longrightarrow> same_config b c \<Longrightarrow> same_config a c"
  by (simp add: same_config_def)

lemma same_config_committed: "same_config m m' \<Longrightarrow> committed_seq J m' = committed_seq J m"
  by (simp add: same_config_def committed_seq_def current_checkpoint_def)

section \<open>One segment file changes\<close>

lemma sorted_list_of_set_max:
  assumes "\<forall>s \<in> S. s < (a :: uint64)"
  shows "sorted_list_of_set (insert a S) = sorted_list_of_set S @ [a]"
proof -
  have "sorted (sorted_list_of_set S @ [a])" and "distinct (sorted_list_of_set S @ [a])"
    using assms by (auto simp: sorted_append less_imp_le)
  moreover have "set (sorted_list_of_set S @ [a]) = insert a S" by auto
  ultimately show ?thesis by (metis sorted_list_of_set.idem_if_sorted_distinct)
qed

lemma segment_put_views:
  assumes "fs (sys m') = (fs (sys m))(SegmentFileName a \<mapsto> File b k)"
  shows "seg_set m' = insert a (seg_set m)"
    "t \<noteq> a \<Longrightarrow> seg_records J m' t = seg_records J m t"
    "decodeLines J (readLines b) = Inr rs \<Longrightarrow> seg_records J m' a = rs"
    "committed_seq J m' = committed_seq J m"
  using assms
  by (auto simp: seg_set_def seg_records_def committed_seq_def current_checkpoint_def)

lemma segment_put_inv:
  assumes "spool_inv J m" and "fs (sys m') = (fs (sys m))(SegmentFileName a \<mapsto> File b k)"
    and "whole_lines b" and "decodeLines J (readLines b) = Inr rs"
    and "healthy (sys m')" and "wf_dir (sys m')"
  shows "spool_inv J m'"
  using assms unfolding spool_inv_def
  by (auto simp: canonical_names_def segments_readable_def checkpoint_readable_def)

text \<open>The last segment of the log is replaced: the log changes at its end only.\<close>

lemma log_put_last:
  assumes "fs (sys m') = (fs (sys m))(SegmentFileName a \<mapsto> File b k)"
    and "\<forall>s \<in> seg_set m. s \<le> a" and "decodeLines J (readLines b) = Inr (seg_records J m a @ rs)"
  shows "log_records J m' = log_records J m @ rs"
proof -
  let ?S = "seg_set m - {a}"
  have lt: "\<forall>s \<in> ?S. s < a" using assms(2) by (auto simp: less_le)
  note v = segment_put_views [OF assms(1)]
  have "map (seg_records J m') (sorted_list_of_set ?S) = map (seg_records J m) (sorted_list_of_set ?S)"
    using v(2) by (intro map_cong) auto
  moreover have "seg_set m' = insert a ?S" using v(1) by auto
  ultimately have new: "log_records J m' =
      concat (map (seg_records J m) (sorted_list_of_set ?S)) @ seg_records J m a @ rs"
    unfolding log_records_def using v(3) [OF assms(3)]
    by (simp only: sorted_list_of_set_max [OF lt] map_append concat_append) simp
  show ?thesis
  proof (cases "a \<in> seg_set m")
    case True
    then have "seg_set m = insert a ?S" by auto
    then have "sorted_list_of_set (seg_set m) = sorted_list_of_set ?S @ [a]"
      using sorted_list_of_set_max [OF lt] by simp
    then show ?thesis using new by (simp add: log_records_def)
  next
    case False
    then have "seg_records J m a = []" and "?S = seg_set m"
      by (auto simp: seg_records_def seg_set_def)
    then show ?thesis using new by (simp add: log_records_def)
  qed
qed

section \<open>Closing and opening segments\<close>

lemma active_file:
  assumes "spool_inv J m" and "active_ok m" and "activeFile m = Some h"
  obtains b k where "h = Handle (SegmentFileName (activeSegmentStart m)) True"
    "fs (sys m) (SegmentFileName (activeSegmentStart m)) = Some (File b k)"
    "activeSegmentSize m = int (length b)" "whole_lines b"
    "decodeLines J (readLines b) = Inr (seg_records J m (activeSegmentStart m))"
    "activeSegmentStart m \<in> seg_set m" "\<forall>s \<in> seg_set m. s \<le> activeSegmentStart m"
proof -
  from assms obtain b k where *: "h = Handle (SegmentFileName (activeSegmentStart m)) True"
    "fs (sys m) (SegmentFileName (activeSegmentStart m)) = Some (File b k)"
    "activeSegmentSize m = int (length b)" "\<forall>s \<in> seg_set m. s \<le> activeSegmentStart m"
    by (auto simp: active_ok_def)
  then have "activeSegmentStart m \<in> seg_set m" by (simp add: seg_set_def)
  with * spool_inv_segment [OF assms(1)] that show ?thesis by (metis node.inject option.inject)
qed

text \<open>Syncing the open segment changes no byte.\<close>

lemma sync_active:
  assumes "spool_inv J m" and "active_ok m" and "activeFile m = Some h"
  obtains s where "file_Sync h (sys m) = (Inr (), s)"
    "spool_inv J (m\<lparr>sys := s\<rparr>)" "active_ok (m\<lparr>sys := s\<rparr>)"
    "same_config m (m\<lparr>sys := s\<rparr>)" "seg_set (m\<lparr>sys := s\<rparr>) = seg_set m"
    "log_records J (m\<lparr>sys := s\<rparr>) = log_records J m"
    "durable_inv m \<Longrightarrow> durable_inv (m\<lparr>sys := s, bytesSinceSync := 0\<rparr>)"
    "\<exists>b. fs s (SegmentFileName (activeSegmentStart m)) = Some (File b (length b))"
    "dir s \<noteq> None"
proof -
  let ?a = "activeSegmentStart m"
  obtain b k where b: "h = Handle (SegmentFileName ?a) True"
    "fs (sys m) (SegmentFileName ?a) = Some (File b k)" "activeSegmentSize m = int (length b)"
    "whole_lines b" "decodeLines J (readLines b) = Inr (seg_records J m ?a)"
    "?a \<in> seg_set m" "\<forall>s \<in> seg_set m. s \<le> ?a"
    using active_file [OF assms] by blast
  note I = spool_invD [OF assms(1)]
  define s where "s = put_file (SegmentFileName ?a) (File b (length b)) (tick (sys m))"
  have d: "dir (sys m) \<noteq> None" using fs_Some_dir [OF b(2)] .
  have f: "fs (sys (m\<lparr>sys := s\<rparr>)) = (fs (sys m))(SegmentFileName ?a \<mapsto> File b (length b))"
    using d by (simp add: s_def)
  show ?thesis
  proof (rule that [of s])
    show "file_Sync h (sys m) = (Inr (), s)" using b(1,2) I by (simp add: s_def)
    show "spool_inv J (m\<lparr>sys := s\<rparr>)"
      using segment_put_inv [OF assms(1) f b(4,5)] I by (simp add: s_def)
    show set: "seg_set (m\<lparr>sys := s\<rparr>) = seg_set m"
      using segment_put_views(1) [OF f] b(6) by auto
    show "active_ok (m\<lparr>sys := s\<rparr>)"
      using assms(2,3) set f b(3) by (simp add: active_ok_def)
    show "same_config m (m\<lparr>sys := s\<rparr>)" using f by (simp add: same_config_def)
    show "log_records J (m\<lparr>sys := s\<rparr>) = log_records J m"
      using log_put_last [OF f b(7), of J "[]"] b(5) by simp
    show "durable_inv (m\<lparr>sys := s, bytesSinceSync := 0\<rparr>)" if "durable_inv m"
      using that f by (auto simp: durable_inv_def split: if_splits)
    show "\<exists>b. fs s (SegmentFileName ?a) = Some (File b (length b))" using f by simp
    show "dir s \<noteq> None" using d by (simp add: s_def)
  qed
qed

lemma durable_zero:
  assumes "bytesSinceSync m = 0"
  shows "durable_inv m \<longleftrightarrow>
    (\<forall>s b k. fs (sys m) (SegmentFileName s) = Some (File b k) \<longrightarrow> length b \<le> k)"
  using assms by (simp add: durable_inv_def cong: if_cong)

lemma durable_synced:
  assumes "durable_inv (x\<lparr>bytesSinceSync := 0\<rparr>)" and "fs (sys y) = fs (sys x)"
    and "bytesSinceSync y = 0"
  shows "durable_inv y"
  using assms by (simp add: durable_zero)

lemma close_ok:
  assumes "spool_inv J m" and "active_ok m" and "durable_inv m"
  shows "\<exists>m'. closeActiveLocked True m = (Inr (), m') \<and> spool_inv J m' \<and> durable_inv m' \<and>
    activeFile m' = None \<and> same_config m m' \<and> nextSeq m' = nextSeq m \<and>
    log_records J m' = log_records J m \<and> seg_set m' = seg_set m \<and>
    (activeFile m = None \<longrightarrow> m' = m) \<and> (activeFile m \<noteq> None \<longrightarrow> bytesSinceSync m' = 0) \<and>
    (dir (sys m) \<noteq> None \<longrightarrow> dir (sys m') \<noteq> None)"
proof (cases "activeFile m")
  case None
  with assms show ?thesis by (simp add: closeActiveLocked_def)
next
  case (Some h)
  let ?z = "\<lambda>m. m\<lparr>activeFile := None, activeSegmentStart := 0, activeSegmentSize := 0,
    bytesSinceSync := 0\<rparr>"
  obtain b k where b: "h = Handle (SegmentFileName (activeSegmentStart m)) True"
    "fs (sys m) (SegmentFileName (activeSegmentStart m)) = Some (File b k)"
    using active_file [OF assms(1,2) Some] by blast
  have close: "closeHandle h x = (Inr (), ticked x)" if "healthy (sys x)" for x
    using that b(1) by (simp add: closeHandle_def io_def)
  have fin: "\<exists>m'. m' = ?z (ticked x) \<and> spool_inv J m' \<and> durable_inv m' \<and> same_config m m' \<and>
      nextSeq m' = nextSeq m \<and> log_records J m' = log_records J m \<and> seg_set m' = seg_set m \<and>
      dir (sys m') \<noteq> None"
    if x: "spool_inv J x" "durable_inv (x\<lparr>bytesSinceSync := 0\<rparr>)" "same_config m x"
      "nextSeq x = nextSeq m" "log_records J x = log_records J m" "seg_set x = seg_set m"
      "dir (sys x) \<noteq> None" for x
  proof -
    have f: "fs (sys (?z (ticked x))) = fs (sys x)" by simp
    have "spool_inv J (?z (ticked x))"
      using x(1) by (rule spool_inv_cong) (simp_all add: spool_invD [OF x(1)])
    then show ?thesis
      using x view_cong [OF f] durable_synced [OF x(2) f] by (simp add: same_config_def)
  qed
  show ?thesis
  proof (cases "bytesSinceSync m > 0")
    case True
    from sync_active [OF assms(1,2) Some] obtain s where s: "file_Sync h (sys m) = (Inr (), s)"
      "spool_inv J (m\<lparr>sys := s\<rparr>)" "same_config m (m\<lparr>sys := s\<rparr>)"
      "seg_set (m\<lparr>sys := s\<rparr>) = seg_set m" "log_records J (m\<lparr>sys := s\<rparr>) = log_records J m"
      "durable_inv (m\<lparr>sys := s, bytesSinceSync := 0\<rparr>)" "dir s \<noteq> None"
      using assms(3) by metis
    have "healthy s" using spool_invD(2) [OF s(2)] by simp
    then have "closeActiveLocked True m = (Inr (), ?z (ticked (m\<lparr>sys := s\<rparr>)))"
      using True Some s(1) close by (simp add: closeActiveLocked_def syncActive_def io_def modifyE_def)
    with fin [of "m\<lparr>sys := s\<rparr>"] s Some show ?thesis by auto
  next
    case False
    then have "bytesSinceSync m = 0" using assms(3) by (simp add: durable_inv_def)
    then have "m\<lparr>bytesSinceSync := 0\<rparr> = m" by simp
    moreover have "closeActiveLocked True m = (Inr (), ?z (ticked m))"
      using False Some close [of m] spool_invD(2) [OF assms(1)]
      by (simp add: closeActiveLocked_def modifyE_def)
    ultimately show ?thesis using fin [of m] assms Some fs_Some_dir [OF b(2)] by auto
  qed
qed

lemma inert_views [simp]:
  "seg_set (m\<lparr>sticks := t\<rparr>) = seg_set m" "seg_set (m\<lparr>lastSyncAt := l\<rparr>) = seg_set m"
  "seg_set (m\<lparr>nextSeq := n\<rparr>) = seg_set m" "seg_set (m\<lparr>bytesSinceSync := z\<rparr>) = seg_set m"
  "log_records J (m\<lparr>sticks := t\<rparr>) = log_records J m"
  "log_records J (m\<lparr>lastSyncAt := l\<rparr>) = log_records J m"
  "log_records J (m\<lparr>nextSeq := n\<rparr>) = log_records J m"
  "log_records J (m\<lparr>bytesSinceSync := z\<rparr>) = log_records J m"
  by (rule view_cong, simp)+

lemma inert_inv [simp]:
  "spool_inv J (m\<lparr>sticks := t\<rparr>) = spool_inv J m" "spool_inv J (m\<lparr>lastSyncAt := l\<rparr>) = spool_inv J m"
  "spool_inv J (m\<lparr>nextSeq := n\<rparr>) = spool_inv J m"
  "spool_inv J (m\<lparr>bytesSinceSync := z\<rparr>) = spool_inv J m"
  "active_ok (m\<lparr>sticks := t\<rparr>) = active_ok m" "active_ok (m\<lparr>lastSyncAt := l\<rparr>) = active_ok m"
  "active_ok (m\<lparr>nextSeq := n\<rparr>) = active_ok m" "active_ok (m\<lparr>bytesSinceSync := z\<rparr>) = active_ok m"
  "durable_inv (m\<lparr>sticks := t\<rparr>) = durable_inv m" "durable_inv (m\<lparr>lastSyncAt := l\<rparr>) = durable_inv m"
  "durable_inv (m\<lparr>nextSeq := n\<rparr>) = durable_inv m"
  by (simp_all add: spool_inv_def active_ok_def durable_inv_def split: option.split)

lemma open_ok:
  assumes "spool_inv J m" and "activeFile m = None" and "durable_inv m" and "dir (sys m) \<noteq> None"
    and "\<forall>s \<in> seg_set m. s < a"
  shows "\<exists>m'. openNewSegmentLocked a m = (Inr (), m') \<and> spool_inv J m' \<and> active_ok m' \<and>
    durable_inv m' \<and> activeFile m' \<noteq> None \<and> same_config m m' \<and> nextSeq m' = nextSeq m \<and>
    log_records J m' = log_records J m \<and> seg_set m' = insert a (seg_set m)"
proof -
  let ?n = "SegmentFileName a"
  define s where "s = tick (put_file ?n (File [] 0) (tick (sys m)))"
  define m' where "m' = m\<lparr>activeFile := Some (Handle ?n True), activeSegmentStart := a,
    activeSegmentSize := 0, bytesSinceSync := 0, lastSyncAt := sclock m (sticks m),
    sticks := Suc (sticks m), sys := s\<rparr>"
  note I = spool_invD [OF assms(1)]
  have new: "fs (sys m) ?n = None" using assms(5) by (auto simp: seg_set_def)
  have f: "fs (sys m') = (fs (sys m))(?n \<mapsto> File [] 0)" using assms(4) by (simp add: m'_def s_def)
  have run: "openNewSegmentLocked a m = (Inr (), m')"
    using new assms(4) I
    by (simp add: openNewSegmentLocked_def io_def os_OpenAppend_healthy orCloseFile_def modifyE_def
        nowFn_def m'_def s_def)
  have inv: "spool_inv J m'"
    by (rule segment_put_inv [OF assms(1) f]) (simp_all add: m'_def s_def I whole_lines_def)
  note v = segment_put_views [OF f]
  have "seg_records J m a = []" using new by (simp add: seg_records_def)
  then have log: "log_records J m' = log_records J m"
    using log_put_last [OF f, of J "[]"] assms(5) by (simp add: less_imp_le)
  have "active_ok m'"
    using f v(1) assms(5) by (auto simp: active_ok_def m'_def less_imp_le)
  moreover have "durable_inv m'"
  proof (subst durable_zero)
    show "\<forall>t b k. fs (sys m') (SegmentFileName t) = Some (File b k) \<longrightarrow> length b \<le> k"
      using assms(2,3) f by (auto simp: durable_inv_def split: if_splits)
  qed (simp add: m'_def)
  moreover have "same_config m m'" using f by (simp add: same_config_def m'_def)
  ultimately show ?thesis using run inv log v(1) by (simp add: m'_def)
qed

lemma ensure_ok:
  assumes "spool_inv J m" and "active_ok m" and "durable_inv m" and "dir (sys m) \<noteq> None"
    and "\<forall>s \<in> seg_set m. s < a"
  shows "\<exists>m'. ensureSegmentForWriteLocked a n m = (Inr (), m') \<and> spool_inv J m' \<and> active_ok m' \<and>
    durable_inv m' \<and> activeFile m' \<noteq> None \<and> same_config m m' \<and> nextSeq m' = nextSeq m \<and>
    log_records J m' = log_records J m \<and> (\<forall>s \<in> seg_set m'. s \<le> a)"
proof (cases "activeFile m = None \<or> (segmentMaxBytes m > 0 \<and>
    activeSegmentSize m + n > segmentMaxBytes m \<and> activeSegmentSize m > 0)")
  case True
  from close_ok [OF assms(1-3)] obtain m1 where m1: "closeActiveLocked True m = (Inr (), m1)"
    "spool_inv J m1" "durable_inv m1" "activeFile m1 = None" "same_config m m1"
    "nextSeq m1 = nextSeq m" "log_records J m1 = log_records J m" "seg_set m1 = seg_set m"
    "dir (sys m1) \<noteq> None"
    using assms(4) by auto
  have "\<forall>s \<in> seg_set m1. s < a" using assms(5) m1(8) by simp
  from open_ok [OF m1(2,4,3,9) this] obtain m2 where m2: "openNewSegmentLocked a m1 = (Inr (), m2)"
    "spool_inv J m2" "active_ok m2" "durable_inv m2" "activeFile m2 \<noteq> None" "same_config m1 m2"
    "nextSeq m2 = nextSeq m1" "log_records J m2 = log_records J m1"
    "seg_set m2 = insert a (seg_set m1)"
    by blast
  have "ensureSegmentForWriteLocked a n m = (Inr (), m2)"
    using True m1(1) m2(1) by (simp add: ensureSegmentForWriteLocked_def)
  with m1 m2 assms(5) show ?thesis using same_config_trans by fastforce
next
  case False
  then have "ensureSegmentForWriteLocked a n m = (Inr (), m)"
    by (simp only: ensureSegmentForWriteLocked_def if_False)
  with False assms show ?thesis by (auto simp: less_imp_le)
qed

section \<open>Writing one record\<close>

lemma write_ok:
  assumes "spool_inv J m" and "active_ok m" and "durable_inv m" and "activeFile m \<noteq> None"
    and "utf8_record r" and "SerializeRecord J r = Inr line"
  shows "\<exists>s m2. writeActive n line m = (Inr (), m\<lparr>sys := s\<rparr>) \<and>
    m2 = m\<lparr>sys := s, activeSegmentSize := activeSegmentSize m + int (length line),
           bytesSinceSync := bytesSinceSync m + int (length line)\<rparr> \<and>
    spool_inv J m2 \<and> active_ok m2 \<and> durable_inv m2 \<and> same_config m m2 \<and>
    log_records J m2 = log_records J m @ [r] \<and> seg_set m2 = seg_set m \<and> dir s \<noteq> None"
proof -
  obtain h where h: "activeFile m = Some h" using assms(4) by blast
  let ?a = "activeSegmentStart m"
  obtain b k where b: "h = Handle (SegmentFileName ?a) True"
    "fs (sys m) (SegmentFileName ?a) = Some (File b k)" "activeSegmentSize m = int (length b)"
    "whole_lines b" "decodeLines J (readLines b) = Inr (seg_records J m ?a)"
    "?a \<in> seg_set m" "\<forall>s \<in> seg_set m. s \<le> ?a"
    using active_file [OF assms(1,2) h] by blast
  note I = spool_invD [OF assms(1)]
  note D = decode_append_record [OF I(1) assms(5,6) b(4,5)]
  define s where "s = put_file (SegmentFileName ?a) (File (b @ line) k) (tick (sys m))"
  define m2 where "m2 = m\<lparr>sys := s, activeSegmentSize := activeSegmentSize m + int (length line),
    bytesSinceSync := bytesSinceSync m + int (length line)\<rparr>"
  have f: "fs (sys m2) = (fs (sys m))(SegmentFileName ?a \<mapsto> File (b @ line) k)"
    using fs_Some_dir [OF b(2)] by (simp add: m2_def s_def)
  have "writeActive n line m = (Inr (), m\<lparr>sys := s\<rparr>)"
    using h b I by (simp add: writeActive_def io_def s_def)
  moreover have "spool_inv J m2"
    by (rule segment_put_inv [OF assms(1) f D(2,1)]) (simp_all add: m2_def s_def I)
  moreover have set: "seg_set m2 = seg_set m" using segment_put_views(1) [OF f] b(6) by auto
  moreover have "active_ok m2"
    using h b f set by (simp add: active_ok_def m2_def)
  moreover have "durable_inv m2"
    using assms(3) h f b(2) by (fastforce simp: durable_inv_def m2_def split: if_splits)
  moreover have "same_config m m2" using f by (simp add: same_config_def m2_def)
  moreover have "log_records J m2 = log_records J m @ [r]"
    using log_put_last [OF f b(7) D(1)] .
  moreover have "dir s \<noteq> None" using fs_Some_dir [OF b(2)] by (simp add: s_def)
  ultimately show ?thesis using m2_def by blast
qed

lemma shouldFSync_ok:
  "\<exists>b t. shouldFSyncLocked m = (Inr b, m\<lparr>sticks := t\<rparr>) \<and> (fsyncMode m = ''always'' \<longrightarrow> b) \<and>
    (fsyncMode m = ''balanced'' \<longrightarrow> \<not> b \<longrightarrow> bytesSinceSync m < fsyncThreshold m)"
proof (cases "fsyncMode m = ''balanced'' \<and> bytesSinceSync m < fsyncThreshold m")
  case True
  then show ?thesis by (auto simp: shouldFSyncLocked_def nowFn_def)
next
  case False
  then have "fst (shouldFSyncLocked m) = Inr (fsyncMode m = ''always'' \<or> fsyncMode m = ''balanced'')"
    and "snd (shouldFSyncLocked m) = m\<lparr>sticks := sticks m\<rparr>"
    by (auto simp: shouldFSyncLocked_def)
  then show ?thesis
    by (intro exI [of _ "fsyncMode m = ''always'' \<or> fsyncMode m = ''balanced''"] exI [of _ "sticks m"])
      (simp add: prod_eq_iff)
qed

lemma fsync_ok:
  assumes "spool_inv J m" and "active_ok m" and "durable_inv m" and "activeFile m \<noteq> None"
  shows "\<exists>m'. fsyncActive m = (Inr (), m') \<and> spool_inv J m' \<and> active_ok m' \<and> durable_inv m' \<and>
    same_config m m' \<and> log_records J m' = log_records J m \<and> seg_set m' = seg_set m \<and>
    nextSeq m' = nextSeq m \<and> bytesSinceSync m' = 0 \<and> dir (sys m') \<noteq> None"
proof -
  obtain h where h: "activeFile m = Some h" using assms(4) by blast
  from sync_active [OF assms(1,2) h] obtain s where s: "file_Sync h (sys m) = (Inr (), s)"
    "spool_inv J (m\<lparr>sys := s\<rparr>)" "active_ok (m\<lparr>sys := s\<rparr>)" "same_config m (m\<lparr>sys := s\<rparr>)"
    "seg_set (m\<lparr>sys := s\<rparr>) = seg_set m" "log_records J (m\<lparr>sys := s\<rparr>) = log_records J m"
    "durable_inv (m\<lparr>sys := s, bytesSinceSync := 0\<rparr>)" "dir s \<noteq> None"
    using assms(3) by metis
  let ?m = "m\<lparr>sys := s, bytesSinceSync := 0, lastSyncAt := sclock m (sticks m), sticks := Suc (sticks m)\<rparr>"
  have "fsyncActive m = (Inr (), ?m)"
    using h s(1) by (simp add: fsyncActive_def syncActive_def io_def nowFn_def modifyE_def)
  moreover have "same_config m ?m" using s(4) by (simp add: same_config_def)
  moreover have "spool_inv J ?m" "active_ok ?m" "durable_inv ?m" "log_records J ?m = log_records J m"
    "seg_set ?m = seg_set m"
    using s by simp_all
  ultimately show ?thesis using s(8) by auto
qed

section \<open>Appending a batch\<close>

definition utf8_point :: "CanonicalPoint \<Rightarrow> bool" where
  "utf8_point p \<longleftrightarrow>
     utf8_valid (UserID p) \<and> utf8_valid (DeviceID p) \<and> utf8_valid (SourceType p) \<and>
     utf8_valid (IngestHash p) \<and> (case MotionType p of None \<Rightarrow> True | Some x \<Rightarrow> utf8_valid x)"

lemma utf8_newRecord: "utf8_point p \<Longrightarrow> utf8_record (newRecord n t p)"
  using utf8_ascii [OF sha256_hex_ascii]
  by (auto simp: utf8_point_def utf8_record_def newRecord_def GenerateDeterministicIngestHash_def
      hashPayload_def split: option.splits)

lemma log_inv_snoc:
  assumes "log_inv J m" and "log_records J m' = log_records J m @ [r]" and "Seq r = nextSeq m"
    and "nextSeq m' = nextSeq m + 1" and "unat (nextSeq m) + 1 < 2 ^ 64"
  shows "log_inv J m'"
proof -
  have "nextSeq m < nextSeq m + 1" using uint64_less_Suc [OF assms(5)] .
  with assms(1-4) show ?thesis
    by (auto simp: log_inv_def sorted_wrt_append intro: less_trans)
qed

lemma appendPoint_ok:
  assumes "run_inv J m" and "dir (sys m) \<noteq> None" and "utf8_point p"
    and "unat (nextSeq m) + 1 < 2 ^ 64"
    and r: "r = newRecord (nextSeq m) (sclock m (sticks m)) p"
  shows "case SerializeRecord J r of
      Inl e \<Rightarrow> appendPoint J p m = (Inl (ErrCodec e), m\<lparr>sticks := Suc (sticks m)\<rparr>)
    | Inr line \<Rightarrow>
        \<exists>m'. appendPoint J p m = (Inr r, m') \<and> run_inv J m' \<and>
          log_records J m' = log_records J m @ [r] \<and> nextSeq m' = nextSeq m + 1 \<and>
          same_config m m' \<and> dir (sys m') \<noteq> None"
proof (cases "SerializeRecord J r")
  case (Inl e)
  then show ?thesis by (simp add: appendPoint_def nowFn_def r liftE_def Let_def)
next
  case (Inr line)
  let ?m0 = "m\<lparr>sticks := Suc (sticks m)\<rparr>"
  have R: "spool_inv J m" "active_ok m" "durable_inv m" "sync_policy m" "log_inv J m"
    "\<forall>s \<in> seg_set m. s < nextSeq m" "normalizeFSyncMode (fsyncMode m) \<noteq> []"
    "checkpoint_synced m"
    using assms(1) by (simp_all add: run_inv_def)
  have sr: "Seq r = nextSeq m" by (simp add: r newRecord_def)
  have u: "utf8_record r" using utf8_newRecord [OF assms(3)] r by simp
  from ensure_ok [of J ?m0 "nextSeq m" "int (length line)"] R(1-3,6) assms(2) obtain m1 where m1:
    "ensureSegmentForWriteLocked (nextSeq m) (int (length line)) ?m0 = (Inr (), m1)"
    "spool_inv J m1" "active_ok m1" "durable_inv m1" "activeFile m1 \<noteq> None" "same_config ?m0 m1"
    "nextSeq m1 = nextSeq m" "log_records J m1 = log_records J m" "\<forall>s \<in> seg_set m1. s \<le> nextSeq m"
    by auto
  from write_ok [OF m1(2-5) u Inr] obtain s m2 where m2:
    "writeActive (nextSeq m) line m1 = (Inr (), m1\<lparr>sys := s\<rparr>)"
    "m2 = m1\<lparr>sys := s, activeSegmentSize := activeSegmentSize m1 + int (length line),
             bytesSinceSync := bytesSinceSync m1 + int (length line)\<rparr>"
    "spool_inv J m2" "active_ok m2" "durable_inv m2" "same_config m1 m2"
    "log_records J m2 = log_records J m1 @ [r]" "seg_set m2 = seg_set m1" "dir s \<noteq> None"
    by blast
  obtain b t where sf: "shouldFSyncLocked m2 = (Inr b, m2\<lparr>sticks := t\<rparr>)"
    "fsyncMode m2 = ''always'' \<longrightarrow> b"
    "fsyncMode m2 = ''balanced'' \<longrightarrow> \<not> b \<longrightarrow> bytesSinceSync m2 < fsyncThreshold m2"
    using shouldFSync_ok [of m2] by blast
  obtain m3 where m3: "(if b then fsyncActive else returnE ()) (m2\<lparr>sticks := t\<rparr>) = (Inr (), m3)"
    "spool_inv J m3" "active_ok m3" "durable_inv m3" "same_config m2 m3"
    "log_records J m3 = log_records J m2" "seg_set m3 = seg_set m2" "nextSeq m3 = nextSeq m2"
    "dir (sys m3) \<noteq> None" "b \<longrightarrow> bytesSinceSync m3 = 0"
    "\<not> b \<longrightarrow> bytesSinceSync m3 = bytesSinceSync m2"
  proof (cases b)
    case True
    have "activeFile (m2\<lparr>sticks := t\<rparr>) \<noteq> None" using m1(5) m2(2) by simp
    with fsync_ok [of J "m2\<lparr>sticks := t\<rparr>"] m2 True show ?thesis
      using that by (auto simp: same_config_def)
  next
    case False
    then show ?thesis using that [of "m2\<lparr>sticks := t\<rparr>"] m2 by (simp add: same_config_def)
  qed
  let ?m' = "m3\<lparr>nextSeq := nextSeq m3 + 1\<rparr>"
  have n3: "nextSeq m3 = nextSeq m" using m3(8) m2(2) m1(7) by simp
  have cfg: "same_config m ?m'"
    using m1(6) m2(6) m3(5) by (auto simp: same_config_def)
  have log: "log_records J ?m' = log_records J m @ [r]" using m3(6) m2(7) m1(8) by simp
  have "appendPoint J p m = (Inr r, ?m')"
    using m1(1) m2(1,2) sf(1) m3(1) Inr
    by (simp add: appendPoint_def nowFn_def r [symmetric] liftE_def Let_def modifyE_def sr)
  moreover have "sync_policy ?m'"
    using R(4) sf(2,3) m3(10,11) cfg m3(5) by (auto simp: sync_policy_def same_config_def)
  moreover have "log_inv J ?m'"
    using log_inv_snoc [OF R(5) log sr _ assms(4)] n3 by simp
  moreover have "\<forall>s \<in> seg_set ?m'. s < nextSeq ?m'"
    using m1(9) m2(8) m3(7) n3 uint64_less_Suc [OF assms(4)] by (auto intro: le_less_trans)
  ultimately have "run_inv J ?m'"
    using m3 R(7,8) cfg by (simp add: run_inv_def same_config_def checkpoint_synced_def)
  with \<open>appendPoint J p m = (Inr r, ?m')\<close> log n3 cfg m3(9) Inr show ?thesis by auto
qed

text \<open>The records an append makes of its points: consecutive numbers from \<open>n\<close>.\<close>

fun stamped :: "uint64 \<Rightarrow> SpoolRecord list \<Rightarrow> CanonicalPoint list \<Rightarrow> bool" where
  "stamped n [] [] = True"
| "stamped n (r # rs) (p # ps) = (r = newRecord n (ReceivedAt r) p \<and> stamped (n + 1) rs ps)"
| "stamped n _ _ = False"

lemma newRecord_received [simp]: "ReceivedAt (newRecord n t p) = t"
  by (simp add: newRecord_def)

lemma appendLoop_ok:
  assumes "run_inv J m" and "dir (sys m) \<noteq> None" and "\<forall>p \<in> set ps. utf8_point p"
    and "unat (nextSeq m) + length ps < 2 ^ 64"
  shows "\<exists>recs m'. run_inv J m' \<and> log_records J m' = log_records J m @ recs \<and> same_config m m' \<and>
    stamped (nextSeq m) recs (take (length recs) ps) \<and>
    nextSeq m' = nextSeq m + of_nat (length recs) \<and>
    (appendLoop J acc ps m = (Inr (acc @ recs), m') \<and> length recs = length ps \<or>
     (\<exists>e. appendLoop J acc ps m = (Inl (ErrCodec e), m') \<and> length recs < length ps))"
  using assms
proof (induction ps arbitrary: acc m)
  case Nil
  then show ?case by (intro exI [of _ "[]"] exI [of _ m]) simp
next
  case (Cons p ps)
  define r where "r = newRecord (nextSeq m) (sclock m (sticks m)) p"
  have u: "utf8_point p" and bound: "unat (nextSeq m) + 1 < 2 ^ 64" using Cons.prems by auto
  note A = appendPoint_ok [OF Cons.prems(1,2) u bound r_def]
  show ?case
  proof (cases "SerializeRecord J r")
    case (Inl e)
    let ?m = "m\<lparr>sticks := Suc (sticks m)\<rparr>"
    have "run_inv J ?m"
      using Cons.prems(1) by (simp add: run_inv_def sync_policy_def log_inv_def checkpoint_synced_def)
    then show ?thesis
      using A Inl by (intro exI [of _ "[]"] exI [of _ ?m]) (simp add: same_config_def)
  next
    case (Inr line)
    with A obtain m1 where m1: "appendPoint J p m = (Inr r, m1)" "run_inv J m1"
      "log_records J m1 = log_records J m @ [r]" "nextSeq m1 = nextSeq m + 1" "same_config m m1"
      "dir (sys m1) \<noteq> None"
      by auto
    have "unat (nextSeq m1) + length ps < 2 ^ 64"
      using m1(4) uint64_Suc [OF bound] Cons.prems(4) by simp
    with Cons.IH [OF m1(2,6), of "acc @ [r]"] Cons.prems(3) obtain recs m' where IH:
      "run_inv J m'" "log_records J m' = log_records J m1 @ recs" "same_config m1 m'"
      "stamped (nextSeq m1) recs (take (length recs) ps)"
      "nextSeq m' = nextSeq m1 + of_nat (length recs)"
      "appendLoop J (acc @ [r]) ps m1 = (Inr (acc @ r # recs), m') \<and> length recs = length ps \<or>
       (\<exists>e. appendLoop J (acc @ [r]) ps m1 = (Inl (ErrCodec e), m') \<and> length recs < length ps)"
      by auto
    show ?thesis
      by (intro exI [of _ "r # recs"] exI [of _ m'])
        (use IH m1 same_config_trans [OF m1(5) IH(3)] in \<open>auto simp: r_def add_ac\<close>)
  qed
qed

lemma run_inv_cong:
  assumes "run_inv J m" and "fs s = fs (sys m)" and "healthy s" and "wf_dir s"
  shows "run_inv J (m\<lparr>sys := s\<rparr>)"
proof -
  have f: "fs (sys (m\<lparr>sys := s\<rparr>)) = fs (sys m)" using assms(2) by simp
  have "spool_inv J (m\<lparr>sys := s\<rparr>)"
    by (rule spool_inv_cong [of J m]) (use assms in \<open>simp_all add: run_inv_def\<close>)
  moreover have "active_ok (m\<lparr>sys := s\<rparr>) = active_ok m"
    by (cases "activeFile m") (simp_all add: active_ok_def seg_set_def assms(2))
  moreover have "durable_inv (m\<lparr>sys := s\<rparr>) = durable_inv m"
    by (simp add: durable_inv_def assms(2) cong: if_cong)
  moreover note view_cong(1,3) [OF f]
  ultimately show ?thesis
    using assms by (simp add: run_inv_def sync_policy_def log_inv_def checkpoint_synced_def)
qed

lemma run_inv_mkdir:
  assumes "run_inv J m"
  shows "run_inv J (m\<lparr>sys := ensure_dir (tick (sys m))\<rparr>)"
    and "same_config m (m\<lparr>sys := ensure_dir (tick (sys m))\<rparr>)"
    and "log_records J (m\<lparr>sys := ensure_dir (tick (sys m))\<rparr>) = log_records J m"
proof -
  have i: "spool_inv J m" using assms by (simp add: run_inv_def)
  show "run_inv J (m\<lparr>sys := ensure_dir (tick (sys m))\<rparr>)"
    by (rule run_inv_cong [OF assms]) (simp_all add: spool_invD [OF i])
  show "same_config m (m\<lparr>sys := ensure_dir (tick (sys m))\<rparr>)" by (simp add: same_config_def)
  show "log_records J (m\<lparr>sys := ensure_dir (tick (sys m))\<rparr>) = log_records J m"
    by (rule view_cong) simp
qed

lemma Append_ok:
  assumes "run_inv J m" and "\<forall>p \<in> set ps. utf8_point p"
    and "unat (nextSeq m) + length ps < 2 ^ 64"
  shows "\<exists>recs m'. run_inv J m' \<and> log_records J m' = log_records J m @ recs \<and> same_config m m' \<and>
    stamped (nextSeq m) recs (take (length recs) ps) \<and>
    nextSeq m' = nextSeq m + of_nat (length recs) \<and>
    (AppendCanonicalPoints J ps m = (Inr recs, m') \<and> length recs = length ps \<or>
     (\<exists>e. AppendCanonicalPoints J ps m = (Inl (ErrCodec e), m') \<and> length recs < length ps))"
proof (cases "ps = []")
  case True
  with assms show ?thesis
    by (intro exI [of _ "[]"] exI [of _ m]) (simp add: AppendCanonicalPoints_def)
next
  case False
  let ?m = "m\<lparr>sys := ensure_dir (tick (sys m))\<rparr>"
  note M = run_inv_mkdir [OF assms(1)]
  have h: "healthy (sys m)" "normalizeFSyncMode (fsyncMode m) \<noteq> []"
    using assms(1) by (simp_all add: run_inv_def spool_inv_def)
  have run: "AppendCanonicalPoints J ps m = appendLoop J [] ps ?m"
    using False h by (simp add: AppendCanonicalPoints_def io_def bindE_def)
  have "dir (sys ?m) \<noteq> None" "unat (nextSeq ?m) + length ps < 2 ^ 64" using assms(3) by simp_all
  from appendLoop_ok [OF M(1) this(1) assms(2) this(2), of "[]"] show ?thesis
    unfolding run using M(2,3) by simp (meson same_config_trans)
qed

section \<open>The other operations in a run\<close>

lemma run_inv_ticks [simp]: "run_inv J (m\<lparr>sticks := t\<rparr>) = run_inv J m"
  by (simp add: run_inv_def sync_policy_def log_inv_def checkpoint_synced_def)

lemma run_inv_quiet:
  assumes "run_inv J m" and "spool_inv J m'" and "fs (sys m') = fs (sys m)" and "m' = m\<lparr>sys := sys m'\<rparr>"
  shows "run_inv J m'"
  using run_inv_cong [OF assms(1,3)] spool_invD [OF assms(2)] assms(4) by simp

lemma run_inv_checkpoint:
  assumes "run_inv J m" and "spool_inv J (m\<lparr>sys := s\<rparr>)"
    and "fs s = (fs (sys m))(checkpointFileName \<mapsto> File data (length data))"
    and "DeserializeCheckpoint J data = Inr c"
  shows "run_inv J (m\<lparr>sys := s\<rparr>)"
proof -
  have f: "fs (sys (m\<lparr>sys := s\<rparr>)) = (fs (sys m))(checkpointFileName \<mapsto> File data (length data))"
    using assms(3) by simp
  note v = checkpoint_written_views [OF f assms(4)]
  have "active_ok (m\<lparr>sys := s\<rparr>) = active_ok m"
    using v(1) by (cases "activeFile m") (simp_all add: active_ok_def assms(3))
  moreover have "durable_inv (m\<lparr>sys := s\<rparr>) = durable_inv m"
    by (simp add: durable_inv_def assms(3) cong: if_cong)
  ultimately show ?thesis
    using assms v(1,2) by (simp add: run_inv_def sync_policy_def log_inv_def checkpoint_synced_def)
qed

lemma Advance_run [inv_intros]:
  assumes "run_inv J m" and "AdvanceCheckpoint J n m = (res, m')"
  shows "run_inv J m'"
proof -
  have i: "spool_inv J m" using assms(1) by (simp add: run_inv_def)
  then show ?thesis
  proof (cases rule: Advance_cases [of J m n])
    case (old x)
    then show ?thesis using run_inv_quiet [OF assms(1)] assms(2) by simp
  next
    case (refused e x)
    let ?x = "m\<lparr>sys := sys x\<rparr>"
    have "run_inv J ?x"
      using run_inv_cong [OF assms(1) refused(4)] spool_invD [OF refused(3)] by simp
    then have "run_inv J (?x\<lparr>sticks := Suc (sticks m)\<rparr>)" by (simp only: run_inv_ticks)
    with refused(2,5) assms(2) show ?thesis by simp
  next
    case (new c data x)
    obtain c' where c': "DeserializeCheckpoint J data = Inr c'" using new(5) by blast
    let ?x = "m\<lparr>sys := sys x\<rparr>"
    have "spool_inv J ?x" using new(7) by (simp add: spool_inv_def)
    from run_inv_checkpoint [OF assms(1) this new(6) c']
    have "run_inv J (?x\<lparr>sticks := Suc (sticks m)\<rparr>)" by (simp only: run_inv_ticks)
    with new(3,8) assms(2) show ?thesis by simp
  qed
qed

lemma sorted_wrt_skip:
  "sorted_wrt R (map f (concat (map g xs))) \<Longrightarrow> sorted_wrt R (map f (concat (map g (filter P xs))))"
  by (induction xs) (auto simp: sorted_wrt_append)

lemma Compact_run [inv_intros]:
  assumes "run_inv J m" and "CompactCommittedSegments J m = (res, m')"
  shows "run_inv J m'"
proof -
  let ?D = "{s \<in> seg_set m. compactable J m (committed_seq J m) s}"
  have R: "spool_inv J m" "active_ok m" "durable_inv m" "log_inv J m" "checkpoint_synced m"
    "\<forall>s \<in> seg_set m. s < nextSeq m"
    using assms(1) by (simp_all add: run_inv_def)
  from Compact_ok [OF R(1)] assms(2) have m': "spool_inv J m'" "m' = m\<lparr>sys := sys m'\<rparr>"
    "seg_set m' = {s \<in> seg_set m. \<not> compactable J m (committed_seq J m) s}"
    "log_records J m' = concat (map (seg_records J m) (sorted_list_of_set (seg_set m')))"
    "fs (sys m') = fs (sys m) |` (- SegmentFileName ` ?D)"
    by auto
  have set: "seg_set m' = seg_set m - ?D" using m'(3) by auto
  have log: "log_records J m' =
      concat (map (seg_records J m) (filter (\<lambda>s. s \<notin> ?D) (sorted_list_of_set (seg_set m))))"
    unfolding m'(4) unfolding set by (simp only: sorted_list_of_set_minus)
  have "log_inv J m'"
    using R(4) sorted_wrt_skip [of "(<)" Seq "seg_records J m" "sorted_list_of_set (seg_set m)"]
      arg_cong [OF m'(2), of nextSeq]
    unfolding log_inv_def log by (auto simp: log_records_def)
  moreover have "active_ok (m\<lparr>sys := sys m'\<rparr>)"
  proof (cases "activeFile m")
    case (Some h)
    then have "SegmentFileName (activeSegmentStart m) \<notin> SegmentFileName ` ?D"
      by (auto simp: compactable_def)
    then have "fs (sys m') (SegmentFileName (activeSegmentStart m)) =
        fs (sys m) (SegmentFileName (activeSegmentStart m))"
      using m'(5) by simp
    then show ?thesis
      using R(2) Some m'(3) view_cong(1) [of "m\<lparr>sys := sys m'\<rparr>" m'] by (auto simp: active_ok_def)
  qed (simp add: active_ok_def)
  moreover have "durable_inv (m\<lparr>sys := sys m'\<rparr>)"
    using R(3) m'(5) by (auto simp: durable_inv_def restrict_map_def split: if_splits)
  moreover have "checkpoint_synced (m\<lparr>sys := sys m'\<rparr>)"
    using R(5) m'(5) by (auto simp: checkpoint_synced_def restrict_map_def split: if_splits)
  moreover have "sync_policy (m\<lparr>sys := sys m'\<rparr>)"
    "normalizeFSyncMode (fsyncMode (m\<lparr>sys := sys m'\<rparr>)) \<noteq> []"
    using assms(1) by (simp_all add: run_inv_def sync_policy_def)
  moreover have "\<forall>s \<in> seg_set m'. s < nextSeq (m\<lparr>sys := sys m'\<rparr>)" using m'(3) R(6) by simp
  ultimately show ?thesis using m'(1,2) by (simp add: run_inv_def)
qed

lemma Close_run [inv_intros]:
  assumes "run_inv J m" and "Close m = (res, m')"
  shows "run_inv J m'" and "res = Inr ()" and "log_records J m' = log_records J m"
    and "activeFile m' = None"
proof -
  have R: "spool_inv J m" "active_ok m" "durable_inv m" using assms(1) by (simp_all add: run_inv_def)
  from close_ok [OF R] assms(2) have m': "res = Inr ()" "spool_inv J m'" "durable_inv m'"
    "activeFile m' = None" "same_config m m'" "nextSeq m' = nextSeq m"
    "log_records J m' = log_records J m" "seg_set m' = seg_set m"
    "activeFile m = None \<longrightarrow> m' = m" "activeFile m \<noteq> None \<longrightarrow> bytesSinceSync m' = 0"
    by (auto simp: Close_def)
  have "sync_policy m'"
    using assms(1) m'(5,9,10) by (cases "activeFile m") (auto simp: run_inv_def sync_policy_def same_config_def)
  with m' assms(1) show "run_inv J m'" and "res = Inr ()" and "log_records J m' = log_records J m"
    and "activeFile m' = None"
    by (simp_all add: run_inv_def active_ok_def log_inv_def checkpoint_synced_def same_config_def)
qed

lemma Append_run [inv_intros]:
  assumes "run_inv J m" and "\<forall>p \<in> set ps. utf8_point p" and "unat (nextSeq m) + length ps < 2 ^ 64"
    and "AppendCanonicalPoints J ps m = (res, m')"
  shows "run_inv J m'"
  using Append_ok [OF assms(1-3)] assms(4) by auto

lemma Replay_run [inv_intros]:
  assumes "run_inv J m" and "ReplayAfterCheckpoint J m = (res, m')"
  shows "run_inv J m'" and "res = Inr (pending_records J m)"
proof -
  have "spool_inv J m" using assms(1) by (simp add: run_inv_def)
  from Replay_ok [OF this] assms(2) have m': "res = Inr (pending_records J m)" "spool_inv J m'"
    "fs (sys m') = fs (sys m)" "m' = m\<lparr>sys := sys m'\<rparr>"
    by auto
  then show "run_inv J m'" and "res = Inr (pending_records J m)"
    using run_inv_quiet [OF assms(1)] by simp_all
qed

section \<open>A run of the process as a state machine\<close>

inductive spool_step :: "codec \<Rightarrow> FileSpoolManager \<Rightarrow> FileSpoolManager \<Rightarrow> bool" for J where
  Append: "\<forall>p \<in> set ps. utf8_point p \<Longrightarrow> unat (nextSeq m) + length ps < 2 ^ 64 \<Longrightarrow>
     AppendCanonicalPoints J ps m = (res, m') \<Longrightarrow> spool_step J m m'"
| Advance: "AdvanceCheckpoint J n m = (res', m') \<Longrightarrow> spool_step J m m'"
| Replay: "ReplayAfterCheckpoint J m = (res, m') \<Longrightarrow> spool_step J m m'"
| Compact: "CompactCommittedSegments J m = (n', m') \<Longrightarrow> spool_step J m m'"
| Read: "ReadCheckpoint J m = (res', m') \<Longrightarrow> spool_step J m m'"
| Count: "SegmentCount m = (n', m') \<Longrightarrow> spool_step J m m'"
| CloseS: "Close m = (u, m') \<Longrightarrow> spool_step J m m'"

inductive spool_reach :: "codec \<Rightarrow> FileSpoolManager \<Rightarrow> FileSpoolManager \<Rightarrow> bool" for J m0 where
  start: "spool_reach J m0 m0"
| step: "spool_reach J m0 m \<Longrightarrow> spool_step J m m' \<Longrightarrow> spool_reach J m0 m'"

inductive_cases spool_stepE: "spool_step J m m'"

definition fresh_disk :: "osys \<Rightarrow> bool" where
  "fresh_disk s \<longleftrightarrow> healthy s \<and> (dir s = None \<or> dir s = Some [])"

lemma normalizeFSyncMode_stable:
  "normalizeFSyncMode x \<noteq> [] \<Longrightarrow> normalizeFSyncMode (normalizeFSyncMode x) \<noteq> []"
proof -
  have "normalizeFSyncMode ''always'' = ''always''" "normalizeFSyncMode ''balanced'' = ''balanced''"
    "normalizeFSyncMode ''low-wear'' = ''low-wear''"
    by (simp_all add: normalizeFSyncMode_def trimSpace_graphic graphic_def toLower_def lower_char_def)
  moreover assume "normalizeFSyncMode x \<noteq> []"
  ultimately show ?thesis unfolding normalizeFSyncMode_def [of x] by (auto simp: Let_def split: if_splits)
qed

lemma New_mode:
  "normalizeFSyncMode (fsyncMode (NewFileSpoolManagerWithOptions s clk mx opts)) \<noteq> []"
proof -
  have "normalizeFSyncMode ''balanced'' \<noteq> []"
    by (simp add: normalizeFSyncMode_def trimSpace_graphic graphic_def toLower_def lower_char_def)
  then show ?thesis
    using normalizeFSyncMode_stable by (simp add: NewFileSpoolManagerWithOptions_def Let_def)
qed

lemma New_run:
  assumes "codec_ok J" and "fresh_disk s"
  shows "run_inv J (NewFileSpoolManagerWithOptions s clk mx opts)"
proof -
  let ?m = "NewFileSpoolManagerWithOptions s clk mx opts"
  have f: "fs (sys ?m) = Map.empty" and h: "healthy (sys ?m)" and w: "wf_dir (sys ?m)"
    using assms(2)
    by (auto simp: fresh_disk_def NewFileSpoolManagerWithOptions_def fs_def wf_dir_def fun_eq_iff)
  have "seg_set ?m = {}" by (simp add: seg_set_def f)
  then have "log_records J ?m = []" by (simp add: log_records_def)
  then have "log_inv J ?m" by (simp add: log_inv_def)
  moreover have "spool_inv J ?m"
    using assms(1) h w
    by (simp add: spool_inv_def f canonical_names_def segments_readable_def checkpoint_readable_def)
  moreover have "active_ok ?m" and "bytesSinceSync ?m = 0" and "0 < fsyncThreshold ?m"
    by (simp_all add: active_ok_def NewFileSpoolManagerWithOptions_def)
  moreover have "durable_inv ?m"
    using durable_zero [OF \<open>bytesSinceSync ?m = 0\<close>] f by simp
  ultimately show ?thesis
    using \<open>seg_set ?m = {}\<close> New_mode [of s clk mx opts]
    by (simp add: run_inv_def sync_policy_def checkpoint_synced_def f)
qed

lemma spool_step_run:
  assumes "run_inv J m" and "spool_step J m m'"
  shows "run_inv J m'"
  using assms(2)
proof (cases rule: spool_step.cases)
  case (Append ps res)
  then show ?thesis using Append_run [OF assms(1)] by blast
next
  case (Read res')
  have i: "spool_inv J m" using assms(1) by (simp add: run_inv_def)
  have "m' = ticked m" using Read readCheckpoint_ok [OF i] by (simp add: ReadCheckpoint_def)
  then show ?thesis using run_inv_quiet [OF assms(1) ticked_inv [OF i]] by simp
next
  case (Count n')
  have i: "spool_inv J m" using assms(1) by (simp add: run_inv_def)
  have "m' = ticked m" using Count listSegmentStarts_ok [OF i] by (simp add: SegmentCount_def)
  then show ?thesis using run_inv_quiet [OF assms(1) ticked_inv [OF i]] by simp
qed (use assms(1) in \<open>auto intro: inv_intros\<close>)

lemma frame_mode:
  "m' = m\<lparr>sys := sys m'\<rparr> \<Longrightarrow> fsyncMode m' = fsyncMode m"
  "m' = m\<lparr>sys := sys m', sticks := t\<rparr> \<Longrightarrow> fsyncMode m' = fsyncMode m"
  by (drule arg_cong [of _ _ fsyncMode], simp)+

lemma Advance_mode:
  assumes "spool_inv J m" and "AdvanceCheckpoint J n m = (res, m')"
  shows "fsyncMode m' = fsyncMode m"
  using assms(1)
proof (cases rule: Advance_cases [of J m n])
  case (old x)
  with assms(2) show ?thesis using frame_mode(1) [OF old(5)] by simp
next
  case (refused e x)
  with assms(2) show ?thesis using frame_mode(2) [OF refused(5)] by simp
next
  case (new c d x)
  with assms(2) show ?thesis using frame_mode(2) [OF new(8)] by simp
qed

lemma spool_step_mode:
  assumes "run_inv J m" and "spool_step J m m'"
  shows "fsyncMode m' = fsyncMode m"
proof -
  have i: "spool_inv J m" "active_ok m" "durable_inv m" using assms(1) by (simp_all add: run_inv_def)
  from assms(2) show ?thesis
  proof (cases rule: spool_step.cases)
    case (Append ps res)
    then show ?thesis using Append_ok [OF assms(1), of ps] by (auto simp: same_config_def)
  next
    case (Advance n res')
    then show ?thesis using Advance_mode [OF i(1)] by blast
  next
    case (Replay res)
    obtain x where "ReplayAfterCheckpoint J m = (Inr (pending_records J m), x)" "x = m\<lparr>sys := sys x\<rparr>"
      using Replay_ok [OF i(1)] by blast
    then show ?thesis using Replay frame_mode(1) [of x m] by simp
  next
    case (Compact n')
    obtain x y where "CompactCommittedSegments J m = (y, x)" "x = m\<lparr>sys := sys x\<rparr>"
      using Compact_ok [OF i(1)] by blast
    then show ?thesis using Compact frame_mode(1) [of x m] by simp
  next
    case (Read res')
    then show ?thesis using readCheckpoint_ok [OF i(1)] by (auto simp: ReadCheckpoint_def)
  next
    case (Count n')
    then show ?thesis using listSegmentStarts_ok [OF i(1)] by (auto simp: SegmentCount_def)
  next
    case (CloseS u)
    then show ?thesis using close_ok [OF i] by (auto simp: Close_def same_config_def)
  qed
qed

lemma spool_reach_run:
  assumes "spool_reach J m0 m" and "run_inv J m0"
  shows "run_inv J m"
  using assms by (induction rule: spool_reach.induct) (auto intro: spool_step_run)

section \<open>Sequence numbers and what a replay returns\<close>

lemma stamped_length: "stamped n rs ps \<Longrightarrow> length rs = length ps"
  by (induction n rs ps rule: stamped.induct) auto

lemma stamped_seqs:
  assumes "stamped n rs ps" and "unat n + length ps < 2 ^ 64"
  shows "map (\<lambda>r. unat (Seq r)) rs = [unat n ..< unat n + length ps]"
  using assms
proof (induction n rs ps rule: stamped.induct)
  case (2 n r rs p ps)
  then have "unat (n + 1) = unat n + 1" by (intro uint64_Suc) simp
  moreover have "Seq r = n" using "2.prems"(1) by (metis newRecord_def SpoolRecord.select_convs(1) stamped.simps(2))
  moreover have "[unat n ..< unat n + length (p # ps)] =
      unat n # [unat n + 1 ..< unat n + 1 + length ps]"
    by (simp add: upt_rec)
  ultimately show ?case using 2 by simp
qed auto

text \<open>
  A segment's file name determines its start sequence, for every \<open>uint64\<close>, and the
  checkpoint file is never taken for a segment.
\<close>

theorem segment_name_roundtrip:
  "ParseSegmentStartSeq (SegmentFileName s) = Some s \<and> ParseSegmentStartSeq checkpointFileName = None"
  by simp


text \<open>
  Claim C9. From a new spool directory and without I/O faults, after any sequence of spool
  operations a replay succeeds and returns records in strictly increasing sequence order, all
  above the checkpoint and below \<open>nextSeq\<close>; all operations keep the spool's files readable.
\<close>

theorem spool_run_replayable:
  assumes "codec_ok J" and "fresh_disk s"
    and "spool_reach J (NewFileSpoolManagerWithOptions s clk mx opts) m"
  shows "\<exists>out. fst (ReplayAfterCheckpoint J m) = Inr out \<and> sorted_wrt (<) (map Seq out) \<and>
    (\<forall>r \<in> set out. LastCommittedSeq (current_checkpoint J m) < Seq r \<and> Seq r < nextSeq m)"
proof -
  have R: "run_inv J m" using spool_reach_run [OF assms(3) New_run [OF assms(1,2)]] .
  then have "fst (ReplayAfterCheckpoint J m) = Inr (pending_records J m)"
    using Replay_run(2) by (metis prod.collapse)
  moreover have "sorted_wrt (<) (map Seq (pending_records J m))"
    using R by (simp add: run_inv_def log_inv_def pending_records_def sorted_wrt_map sorted_wrt_filter)
  moreover have "\<forall>r \<in> set (pending_records J m). committed_seq J m < Seq r \<and> Seq r < nextSeq m"
    using R by (auto simp: run_inv_def log_inv_def pending_records_def)
  ultimately show ?thesis by (auto simp: committed_seq_def)
qed

section \<open>Loss of power\<close>

lemma crash_node_synced: "length b \<le> k \<Longrightarrow> crash_node n (File b k) = File b (length b)"
  by (simp add: crash_node_def Let_def)

lemma crash_node_kind [simp]:
  "crash_node n nd = Directory \<longleftrightarrow> nd = Directory" "Directory = crash_node n nd \<longleftrightarrow> nd = Directory"
  by (auto simp: crash_node_def Let_def split: node.split)

text \<open>A new process on the disk a crash left behind.\<close>

definition restart_after_crash ::
  "(string \<Rightarrow> nat) \<Rightarrow> FileSpoolManager \<Rightarrow> (nat \<Rightarrow> gotime) \<Rightarrow> int \<Rightarrow> ManagerOptions \<Rightarrow> FileSpoolManager"
where
  "restart_after_crash kept m clk mx opts =
     NewFileSpoolManagerWithOptions (os_crash kept (sys m)) clk mx opts"

lemma sys_restart [simp]: "sys (restart_after_crash kept m clk mx opts) = os_crash kept (sys m)"
  by (simp add: restart_after_crash_def NewFileSpoolManagerWithOptions_def)

lemma crash_synced:
  assumes "spool_inv J m" and "durable_inv m" and "bytesSinceSync m = 0" and "checkpoint_synced m"
    and m2: "m2 = restart_after_crash kept m clk mx opts"
  shows "spool_inv J m2" and "pending_records J m2 = pending_records J m"
    and "log_records J m2 = log_records J m"
proof -
  note I = spool_invD [OF assms(1)]
  have f: "fs (sys m2) n = map_option (crash_node (kept n)) (fs (sys m) n)" for n
    by (simp add: m2 fs_crash)
  have seg: "\<exists>k'. fs (sys m2) (SegmentFileName s) = Some (File b k')"
    if "fs (sys m) (SegmentFileName s) = Some (File b k)" for s b k
    using that assms(2) durable_zero [OF assms(3)] f by (simp add: crash_node_synced)
  have ck: "\<exists>k'. fs (sys m2) checkpointFileName = Some (File b k')"
    if "fs (sys m) checkpointFileName = Some (File b k)" for b k
    using that assms(4) f by (simp add: checkpoint_synced_def crash_node_synced)
  have set: "seg_set m2 = seg_set m" by (simp add: seg_set_def f)
  have recs: "seg_records J m2 s = seg_records J m s" for s
  proof (cases "s \<in> seg_set m")
    case True
    then obtain b k where "fs (sys m) (SegmentFileName s) = Some (File b k)"
      using spool_inv_segment [OF assms(1)] by metis
    with seg show ?thesis by (fastforce simp: seg_records_def)
  qed (simp add: seg_records_def seg_set_def f)
  have cp: "current_checkpoint J m2 = current_checkpoint J m"
  proof (cases "fs (sys m) checkpointFileName")
    case (Some nd)
    then obtain b k where "nd = File b k" using I(6) by (auto simp: checkpoint_readable_def)
    with Some ck show ?thesis by (fastforce simp: current_checkpoint_def)
  qed (simp add: current_checkpoint_def f)
  show log: "log_records J m2 = log_records J m"
    unfolding log_records_def set using recs by (intro arg_cong [of _ _ concat] map_cong) auto
  then show "pending_records J m2 = pending_records J m"
    by (simp add: pending_records_def committed_seq_def cp)
  have "canonical_names (fs (sys m2))"
    using I(4) by (auto simp: canonical_names_def f)
  moreover have "segments_readable J (fs (sys m2))"
    using I(5) seg unfolding segments_readable_def f by (fastforce simp: f)
  moreover have "checkpoint_readable J (fs (sys m2))"
    using I(6) ck unfolding checkpoint_readable_def f by (fastforce simp: f)
  ultimately show "spool_inv J m2" using I by (simp add: spool_inv_def m2)
qed


text \<open>
  In mode \<open>balanced\<close> a crash can shorten a segment by fewer bytes than the configured
  threshold, and only from its end.
\<close>

theorem balanced_loss_bounded:
  assumes "run_inv J m" and "fsyncMode m = ''balanced''"
    and "fs (sys m) (SegmentFileName s) = Some (File b k)"
  shows "\<exists>b' k'. fs (sys (restart_after_crash kept m clk mx opts)) (SegmentFileName s) =
      Some (File b' k') \<and> prefix b' b \<and> int (length b) - int (length b') < fsyncThreshold m"
proof -
  let ?n = "kept (SegmentFileName s)"
  have d: "durable_inv m" "bytesSinceSync m < fsyncThreshold m" "0 < fsyncThreshold m"
    using assms(1,2) by (auto simp: run_inv_def sync_policy_def)
  have "int (length b) - int k \<le>
      (if activeFile m \<noteq> None \<and> s = activeSegmentStart m then bytesSinceSync m else 0)"
    using d(1) assms(3) unfolding durable_inv_def by blast
  then have "int (length b) - int k < fsyncThreshold m" using d(2,3) by (auto split: if_splits)
  then have "int (length b) - int (length (take (max k ?n) b)) < fsyncThreshold m"
    using d(3) by (simp add: min_def max_def)
  then show ?thesis
    using assms(3) by (simp add: fs_crash crash_node_def Let_def take_is_prefix)
qed

section \<open>Witnesses\<close>

definition sample_sys :: osys where
  "sample_sys = \<lparr>dir = None, fault = (\<lambda>_. Ok), calls = 0\<rparr>"

definition sample_options :: "string \<Rightarrow> ManagerOptions" where
  "sample_options mode = \<lparr>FSyncMode = mode, FSyncInterval = 0, FSyncByteThreshold = 0\<rparr>"

definition sample_spool :: "string \<Rightarrow> FileSpoolManager" where
  "sample_spool mode =
     NewFileSpoolManagerWithOptions sample_sys (\<lambda>_. 7) 1000 (sample_options mode)"

definition sample_codec :: codec where
  "sample_codec =
     table_codec [sample_record 1 ''d'' ''h'' 7, sample_record 2 ''d'' ''i'' 7]
       [\<lparr>LastCommittedSeq = 1, UpdatedAtUTC = 7\<rparr>, \<lparr>LastCommittedSeq = 2, UpdatedAtUTC = 7\<rparr>]"

definition sample_points :: "CanonicalPoint list" where
  "sample_points = [sample_point ''d'' ''h'' 7, sample_point ''d'' ''i'' 7]"

definition sample_records :: "SpoolRecord list" where
  "sample_records = [sample_record 1 ''d'' ''h'' 7, sample_record 2 ''d'' ''i'' 7]"

text \<open>The sample spool after its two points have been appended.\<close>

definition sample_full :: "string \<Rightarrow> FileSpoolManager" where
  "sample_full mode = snd (AppendCanonicalPoints sample_codec sample_points (sample_spool mode))"

lemma sample_codec_ok: "codec_ok sample_codec"
  by (simp add: sample_codec_def table_codec_ok)

lemma sample_fresh: "fresh_disk sample_sys"
  by (simp add: fresh_disk_def sample_sys_def healthy_def)

lemma sample_run: "run_inv sample_codec (sample_spool mode)"
  by (simp add: sample_spool_def New_run sample_codec_ok sample_fresh)

lemma sample_utf8: "\<forall>p \<in> set sample_points. utf8_point p"
  by code_simp

lemma sample_append:
  "AppendCanonicalPoints sample_codec sample_points (sample_spool ''always'') =
     (Inr sample_records, sample_full ''always'')"
  "AppendCanonicalPoints sample_codec sample_points (sample_spool ''balanced'') =
     (Inr sample_records, sample_full ''balanced'')"
proof -
  have "fst (AppendCanonicalPoints sample_codec sample_points (sample_spool ''always'')) =
      Inr sample_records"
    "fst (AppendCanonicalPoints sample_codec sample_points (sample_spool ''balanced'')) =
      Inr sample_records"
    by code_simp+
  then show "AppendCanonicalPoints sample_codec sample_points (sample_spool ''always'') =
     (Inr sample_records, sample_full ''always'')"
  "AppendCanonicalPoints sample_codec sample_points (sample_spool ''balanced'') =
     (Inr sample_records, sample_full ''balanced'')"
    by (simp_all add: sample_full_def prod_eq_iff)
qed

lemma sample_next: "nextSeq (sample_spool mode) = 1"
  by (simp add: sample_spool_def NewFileSpoolManagerWithOptions_def)

lemma sample_bound: "unat (nextSeq (sample_spool mode)) + length sample_points < 2 ^ 64"
  by (simp add: sample_next sample_points_def)

lemma sample_full_run:
  "run_inv sample_codec (sample_full ''always'')" "run_inv sample_codec (sample_full ''balanced'')"
  using Append_run [OF sample_run sample_utf8 sample_bound] sample_append by metis+

lemma sample_reach:
  "spool_reach sample_codec (sample_spool ''always'') (sample_full ''always'')"
  by (rule spool_reach.step [OF spool_reach.start])
    (rule spool_step.Append [OF sample_utf8 sample_bound sample_append(1)])


theorem spool_run_replayable_witness:
  "\<exists>out. fst (ReplayAfterCheckpoint sample_codec (sample_full ''always'')) = Inr out \<and>
    sorted_wrt (<) (map Seq out)"
  using spool_run_replayable [OF sample_codec_ok sample_fresh sample_reach [unfolded sample_spool_def]]
  by blast


theorem balanced_loss_bounded_witness:
  "\<exists>b' k'. fs (sys (restart_after_crash (\<lambda>_. 1) (sample_full ''balanced'') (\<lambda>_. 9) 1000
      (sample_options ''balanced''))) (SegmentFileName 1) = Some (File b' k') \<and>
    prefix b' (''{0}'' @ [newline] @ ''{1}'' @ [newline])"
proof -
  have "fsyncMode (sample_full ''balanced'') = ''balanced''"
    and "fs (sys (sample_full ''balanced'')) (SegmentFileName 1) =
      Some (File (''{0}'' @ [newline] @ ''{1}'' @ [newline]) 0)"
    by code_simp+
  from balanced_loss_bounded [OF sample_full_run(2) this] show ?thesis by blast
qed

end
