(* ===== verification/Database.thy ===== *)
theory Database
  imports Codec "HOL-Library.List_Lexorder" "HOL-Library.Char_ord" "HOL-Library.Product_Lexorder"
begin

text \<open>
  The database of \<^verbatim>\<open>internal/store\<close>: the tables of \<^verbatim>\<open>migrations/0001\<close> to
  \<^verbatim>\<open>migrations/0009\<close> as lists of row records, the constraints the schema declares, and the way
  \<^verbatim>\<open>database/sql\<close> runs a statement. Each Go operation of the package is then a method over
  \<open>dbstate\<close> whose SQL statements are the functions of this theory.

  \<^item> Every \<^verbatim>\<open>Begin\<close>, \<^verbatim>\<open>Prepare\<close>, \<^verbatim>\<open>Exec\<close>, \<^verbatim>\<open>Query\<close> and \<^verbatim>\<open>Commit\<close> is one call of the driver;
    the call number \<open>i\<close> fails when \<open>dbfault i\<close> holds. A failing statement changes no row.
  \<^item> \<open>dbclock\<close> gives the successive readings of \<^verbatim>\<open>time.Now().UTC()\<close>, \<open>dbrand i n\<close> the result of the
    \<open>i\<close>-th \<^verbatim>\<open>rand.Read\<close> of \<open>n\<close> bytes.
  \<^item> \<open>fk_on\<close> tells whether the connection enforces foreign keys (a pragma of the connection).
  \<^item> Text compares byte by byte (the \<^verbatim>\<open>BINARY\<close> collation): the lexicographic order on strings.
\<close>

section \<open>Rows\<close>

record user_row =
  u_id :: int
  u_name :: string
  u_email :: "string option"
  u_password_hash :: string
  u_is_admin :: int
  u_created_at :: string
  u_updated_at :: string

record device_row =
  d_id :: int
  d_user_id :: int
  d_name :: string
  d_source_type :: string
  d_api_key :: string
  d_api_key_hash :: "string option"
  d_api_key_preview :: "string option"
  d_last_seen_at :: "string option"
  d_last_seq_received :: int
  d_created_at :: string
  d_updated_at :: "string option"

record raw_point_row =
  rp_id :: int
  rp_seq :: int
  rp_user_id :: int
  rp_device_id :: int
  rp_source_type :: string
  rp_timestamp_utc :: string
  rp_lat :: float64
  rp_lon :: float64
  rp_altitude :: "float64 option"
  rp_accuracy :: "float64 option"
  rp_speed :: "float64 option"
  rp_heading :: "float64 option"
  rp_battery :: "float64 option"
  rp_motion_type :: "string option"
  rp_raw_payload_json :: "string option"
  rp_ingest_hash :: string
  rp_created_at :: string

record point_row =
  p_id :: int
  p_raw_point_id :: int
  p_user_id :: int
  p_device_id :: int
  p_timestamp_utc :: string
  p_lat :: float64
  p_lon :: float64
  p_created_at :: string

record session_row =
  s_token :: string
  s_user_id :: int
  s_expires_at :: string
  s_created_at :: string

record visit_row =
  v_id :: int
  v_device_id :: int
  v_start_at :: string
  v_end_at :: string
  v_centroid_lat :: float64
  v_centroid_lon :: float64
  v_point_count :: int
  v_created_at :: string

record place_row =
  pl_provider :: string
  pl_lat_key :: string
  pl_lon_key :: string
  pl_label :: string
  pl_updated_at :: string

record gen_state_row =
  g_device_id :: int
  g_last_processed_seq :: int
  g_updated_at :: string

text \<open>
  The tables, and for each \<^verbatim>\<open>AUTOINCREMENT\<close> key the highest value handed out so far.
\<close>

record tables =
  users :: "user_row list"
  devices :: "device_row list"
  raw_points :: "raw_point_row list"
  points :: "point_row list"
  sessions :: "session_row list"
  visits :: "visit_row list"
  visit_place_cache :: "place_row list"
  visit_generation_state :: "gen_state_row list"
  last_user_id :: int
  last_device_id :: int
  last_raw_point_id :: int
  last_point_id :: int
  last_visit_id :: int

definition empty_tables :: tables where
  "empty_tables =
     \<lparr>users = [], devices = [], raw_points = [], points = [], sessions = [], visits = [],
      visit_place_cache = [], visit_generation_state = [], last_user_id = 0, last_device_id = 0,
      last_raw_point_id = 0, last_point_id = 0, last_visit_id = 0\<rparr>"

record dbstate =
  tables :: tables
  fk_on :: bool
  dbfault :: "nat \<Rightarrow> bool"
  dbcalls :: nat
  dbclock :: "nat \<Rightarrow> gotime"
  dbticks :: nat
  dbrand :: "nat \<Rightarrow> nat \<Rightarrow> string option"
  dbrands :: nat

datatype store_error =
    ErrDriver
  | ErrUniqueConstraint
  | ErrForeignKey
  | ErrNoRows
  | ErrScanNull
  | ErrUint64HighBit
  | ErrRandom
  | ErrParseTime
  | ErrUserNotFound
  | ErrDeviceNotFound
  | ErrSessionNotFound
  | ErrRequired string

section \<open>Running statements\<close>

definition exec ::
  "(bool \<Rightarrow> gotime \<Rightarrow> tables \<Rightarrow> store_error + 'a \<times> tables) \<Rightarrow> (dbstate, store_error, 'a) gomethod"
  where
  "exec stmt d =
     (let d1 = d\<lparr>dbcalls := Suc (dbcalls d)\<rparr> in
      if dbfault d (dbcalls d) then (Inl ErrDriver, d1)
      else case stmt (fk_on d) (dbclock d (dbticks d)) (tables d) of
             Inl e \<Rightarrow> (Inl e, d1)
           | Inr (x, t) \<Rightarrow> (Inr x, d1\<lparr>tables := t\<rparr>))"

definition query :: "(tables \<Rightarrow> store_error + 'a) \<Rightarrow> (dbstate, store_error, 'a) gomethod" where
  "query q = exec (\<lambda>fk now t. case q t of Inl e \<Rightarrow> Inl e | Inr x \<Rightarrow> Inr (x, t))"

text \<open>A call that touches no row: \<^verbatim>\<open>Prepare\<close>, \<^verbatim>\<open>Begin\<close>, \<^verbatim>\<open>Commit\<close>.\<close>

definition sql_call :: "(dbstate, store_error, unit) gomethod" where
  "sql_call = exec (\<lambda>fk now t. Inr ((), t))"

text \<open>
  \<^verbatim>\<open>db.Begin()\<close>, the body, \<^verbatim>\<open>tx.Commit()\<close>, and the deferred \<^verbatim>\<open>tx.Rollback()\<close>: unless the commit
  succeeds the tables are what they were.
\<close>

definition in_tx :: "(dbstate, store_error, 'a) gomethod \<Rightarrow> (dbstate, store_error, 'a) gomethod" where
  "in_tx body d =
     (case bindE sql_call (\<lambda>_. bindE body (\<lambda>x. bindE sql_call (\<lambda>_. returnE x))) d of
        (Inl e, d') \<Rightarrow> (Inl e, d'\<lparr>tables := tables d\<rparr>)
      | (Inr x, d') \<Rightarrow> (Inr x, d'))"

definition time_Now :: "(dbstate, store_error, gotime) gomethod" where
  "time_Now d = (Inr (dbclock d (dbticks d)), d\<lparr>dbticks := Suc (dbticks d)\<rparr>)"

definition rand_Read :: "nat \<Rightarrow> (dbstate, store_error, string) gomethod" where
  "rand_Read n d =
     (let d1 = d\<lparr>dbrands := Suc (dbrands d)\<rparr> in
      case dbrand d (dbrands d) n of None \<Rightarrow> (Inl ErrRandom, d1) | Some b \<Rightarrow> (Inr b, d1))"

definition fromE :: "store_error + 'a \<Rightarrow> (dbstate, store_error, 'a) gomethod" where
  "fromE r d = (r, d)"

text \<open>\<^verbatim>\<open>database/sql\<close> refuses a \<^verbatim>\<open>uint64\<close> argument whose high bit is set.\<close>

definition bindUint64 :: "uint64 \<Rightarrow> store_error + int" where
  "bindUint64 n = (if uint n < 2 ^ 63 then Inr (uint n) else Inl ErrUint64HighBit)"

text \<open>\<^verbatim>\<open>hex.EncodeToString\<close>.\<close>

definition hex_EncodeToString :: "string \<Rightarrow> string" where
  "hex_EncodeToString b =
     concat (map (\<lambda>c. let n = of_char c in [hex_digit (n div 16), hex_digit (n mod 16)]) b)"

text \<open>\<^verbatim>\<open>strftime('%Y-%m-%dT%H:%M:%fZ','now')\<close>: milliseconds, always three digits.\<close>

definition sql_strftime :: "gotime \<Rightarrow> string" where
  "sql_strftime t =
     (let day = t div (86400 * second); r = t mod (86400 * second);
          sec = r div second; ms = (r mod second) div 1000000;
          (y, m, dd) = civil day
      in pad_dec 4 (nat y) @ ''-'' @ pad_dec 2 (nat m) @ ''-'' @ pad_dec 2 (nat dd) @ ''T'' @
         pad_dec 2 (nat (sec div 3600)) @ '':'' @ pad_dec 2 (nat (sec div 60 mod 60)) @ '':'' @
         pad_dec 2 (nat (sec mod 60)) @ ''.'' @ pad_dec 3 (nat ms) @ ''Z'')"

text \<open>SQL \<^verbatim>\<open>trim(x)\<close> strips spaces.\<close>

definition sql_trim :: "string \<Rightarrow> string" where
  "sql_trim s = (let l = dropWhile (\<lambda>c. c = CHR '' '') s
                 in rev (dropWhile (\<lambda>c. c = CHR '' '') (rev l)))"

section \<open>Constraint checks\<close>

definition user_exists :: "int \<Rightarrow> tables \<Rightarrow> bool" where
  "user_exists i t \<longleftrightarrow> i \<in> u_id ` set (users t)"

definition device_exists :: "int \<Rightarrow> tables \<Rightarrow> bool" where
  "device_exists i t \<longleftrightarrow> i \<in> d_id ` set (devices t)"

text \<open>The partial index \<^verbatim>\<open>idx_devices_api_key_hash\<close>: only hashes that are not blank are unique.\<close>

definition indexed_hash :: "string option \<Rightarrow> string option" where
  "indexed_hash h = (case h of None \<Rightarrow> None | Some s \<Rightarrow> if sql_trim s = [] then None else Some s)"

definition indexed_hashes :: "device_row list \<Rightarrow> string list" where
  "indexed_hashes ds = List.map_filter (indexed_hash \<circ> d_api_key_hash) ds"

text \<open>The partial index \<^verbatim>\<open>idx_users_email_unique_nonempty\<close>.\<close>

definition indexed_email :: "string option \<Rightarrow> string option" where
  "indexed_email e = (case e of None \<Rightarrow> None | Some s \<Rightarrow> if s = [] then None else Some s)"

definition indexed_emails :: "user_row list \<Rightarrow> string list" where
  "indexed_emails us = List.map_filter (indexed_email \<circ> u_email) us"

section \<open>Statements shared by the operations\<close>

text \<open>\<^verbatim>\<open>INSERT INTO users(id, name) VALUES(1, 'default') ON CONFLICT(id) DO NOTHING\<close>.\<close>

definition insert_default_user :: "bool \<Rightarrow> gotime \<Rightarrow> tables \<Rightarrow> store_error + unit \<times> tables" where
  "insert_default_user fk now t =
     (if user_exists 1 t then Inr ((), t)
      else Inr ((), t\<lparr>users := users t @
             [\<lparr>u_id = 1, u_name = ''default'', u_email = None, u_password_hash = [], u_is_admin = 0,
               u_created_at = sql_strftime now, u_updated_at = []\<rparr>],
             last_user_id := max 1 (last_user_id t)\<rparr>))"

text \<open>
  \<^verbatim>\<open>INSERT INTO devices(user_id, name, source_type, api_key, api_key_hash, api_key_preview,
  last_seq_received, updated_at)\<close>, returning the row id.
\<close>

definition insert_device ::
  "int \<Rightarrow> string \<Rightarrow> string \<Rightarrow> string \<Rightarrow> string \<Rightarrow> string \<Rightarrow> string \<Rightarrow>
   bool \<Rightarrow> gotime \<Rightarrow> tables \<Rightarrow> store_error + int \<times> tables" where
  "insert_device user nm src key h preview upd fk now t =
     (if key \<in> d_api_key ` set (devices t) then Inl ErrUniqueConstraint
      else if sql_trim h \<noteq> [] \<and> h \<in> set (indexed_hashes (devices t)) then Inl ErrUniqueConstraint
      else if fk \<and> \<not> user_exists user t then Inl ErrForeignKey
      else let i = last_device_id t + 1 in
        Inr (i, t\<lparr>devices := devices t @
          [\<lparr>d_id = i, d_user_id = user, d_name = nm, d_source_type = src, d_api_key = key,
            d_api_key_hash = Some h, d_api_key_preview = Some preview, d_last_seen_at = None,
            d_last_seq_received = 0, d_created_at = sql_strftime now, d_updated_at = Some upd\<rparr>],
          last_device_id := i\<rparr>))"

definition update_devices :: "int \<Rightarrow> (device_row \<Rightarrow> device_row) \<Rightarrow> tables \<Rightarrow> tables" where
  "update_devices i f t = t\<lparr>devices := map (\<lambda>r. if d_id r = i then f r else r) (devices t)\<rparr>"

section \<open>What holds of the tables after a call\<close>

text \<open>
  Most facts only concern the tables: \<open>on_tables P\<close> is a property of them.
\<close>

abbreviation (input) on_tables :: "(tables \<Rightarrow> bool) \<Rightarrow> dbstate \<Rightarrow> bool" where
  "on_tables P d \<equiv> P (tables d)"

lemma in_tx_error: "in_tx body d = (Inl e, d') \<Longrightarrow> tables d' = tables d"
  by (auto simp: in_tx_def split: prod.splits sum.splits)

text \<open>What a successful call did to the tables.\<close>

lemma exec_tables:
  "exec stmt d = (Inr x, d') \<Longrightarrow> \<exists>fk now. stmt fk now (tables d) = Inr (x, tables d')"
  by (auto simp: exec_def Let_def split: if_splits sum.splits prod.splits) blast

lemma query_tables: "query q d = (Inr x, d') \<Longrightarrow> q (tables d) = Inr x \<and> tables d' = tables d"
  unfolding query_def by (drule exec_tables) (auto split: sum.splits)

lemma sql_call_tables: "sql_call d = (r, d') \<Longrightarrow> tables d' = tables d"
  by (auto simp: sql_call_def exec_def Let_def split: if_splits)

lemma time_Now_tables: "time_Now d = (r, d') \<Longrightarrow> tables d' = tables d"
  by (auto simp: time_Now_def)

lemma rand_Read_tables: "rand_Read n d = (r, d') \<Longrightarrow> tables d' = tables d"
  by (auto simp: rand_Read_def Let_def split: option.splits)

lemma fromE_Inr [simp]: "fromE r d = (Inr x, d') \<longleftrightarrow> r = Inr x \<and> d' = d"
  by (auto simp: fromE_def)

lemma in_tx_success:
  assumes "in_tx body d = (Inr x, d')"
  obtains d1 d2 where "body d1 = (Inr x, d2)" and "tables d1 = tables d" and "tables d' = tables d2"
proof -
  from assms have "bindE sql_call (\<lambda>_. bindE body (\<lambda>x. bindE sql_call (\<lambda>_. returnE x))) d = (Inr x, d')"
    by (auto simp: in_tx_def split: prod.splits sum.splits)
  then obtain d1 d2 u1 u2 where "sql_call d = (Inr u1, d1)" and "body d1 = (Inr x, d2)"
    and "sql_call d2 = (Inr u2, d')"
    by (auto simp: bindE_eq_Inr)
  then show thesis
    using that sql_call_tables by metis
qed

section \<open>Calls that succeed\<close>

text \<open>No call of the driver fails.\<close>

definition calm :: "dbstate \<Rightarrow> bool" where
  "calm d \<longleftrightarrow> (\<forall>n. \<not> dbfault d n)"

text \<open>\<open>runs m P d\<close>: \<open>m\<close> succeeds from \<open>d\<close> with the tables as \<open>P\<close> says, and the driver stays calm.\<close>

definition runs :: "(dbstate, store_error, 'a) gomethod \<Rightarrow> ('a \<Rightarrow> tables \<Rightarrow> bool) \<Rightarrow> dbstate \<Rightarrow> bool" where
  "runs m P d \<longleftrightarrow> (\<exists>x d'. m d = (Inr x, d') \<and> P x (tables d') \<and> calm d')"

lemma runs_bindE:
  "runs m R d \<Longrightarrow> (\<And>x d'. R x (tables d') \<Longrightarrow> calm d' \<Longrightarrow> runs (f x) P d') \<Longrightarrow> runs (bindE m f) P d"
  unfolding runs_def by (fastforce simp: bindE_eq_Inr)

lemma runs_returnE: "calm d \<Longrightarrow> P x (tables d) \<Longrightarrow> runs (returnE x) P d"
  by (simp add: runs_def)

lemma runs_fromE: "calm d \<Longrightarrow> P x (tables d) \<Longrightarrow> runs (fromE (Inr x)) P d"
  by (simp add: runs_def)

lemma runs_exec:
  assumes "calm d" and "\<And>fk now. \<exists>x t. stmt fk now (tables d) = Inr (x, t) \<and> P x t"
  shows "runs (exec stmt) P d"
  using assms(1) assms(2) [of "fk_on d" "dbclock d (dbticks d)"]
  by (auto simp: runs_def exec_def calm_def Let_def)

lemma runs_query: "calm d \<Longrightarrow> q (tables d) = Inr x \<Longrightarrow> P x (tables d) \<Longrightarrow> runs (query q) P d"
  unfolding query_def by (rule runs_exec) auto

lemma runs_sql_call: "calm d \<Longrightarrow> P () (tables d) \<Longrightarrow> runs sql_call P d"
  unfolding sql_call_def by (rule runs_exec) auto

lemma runs_time_Now: "calm d \<Longrightarrow> (\<And>x. P x (tables d)) \<Longrightarrow> runs time_Now P d"
  by (simp add: runs_def time_Now_def calm_def)

lemmas runs_rules = runs_returnE runs_fromE runs_query runs_sql_call runs_time_Now

lemma runs_in_tx:
  assumes "calm d" and "\<And>d1. calm d1 \<Longrightarrow> tables d1 = tables d \<Longrightarrow> runs body P d1"
  shows "runs (in_tx body) P d"
proof -
  have "runs (bindE sql_call (\<lambda>_. bindE body (\<lambda>x. bindE sql_call (\<lambda>_. returnE x)))) P d"
  proof (rule runs_bindE [where R = "\<lambda>_ t. t = tables d"])
    show "runs (bindE body (\<lambda>x. bindE sql_call (\<lambda>_. returnE x))) P d1"
      if "tables d1 = tables d" "calm d1" for d1
      using assms(2) [OF that(2,1)]
      by (rule runs_bindE) (auto intro!: runs_bindE [where m = sql_call and R = "\<lambda>_. P x" for x]
          runs_sql_call runs_returnE)
  qed (simp add: assms(1) runs_sql_call)
  then show ?thesis by (auto simp: runs_def in_tx_def)
qed

section \<open>Properties that every outcome keeps\<close>

text \<open>
  \<open>keeps P m\<close>: if \<open>P\<close> holds of the tables before, it holds after, whether \<open>m\<close> succeeds or fails.
  One rule per construct; a method is then checked by \<open>auto intro!: keeps\<close>, down to its statements.
\<close>

definition keeps :: "(tables \<Rightarrow> bool) \<Rightarrow> (dbstate, 'e, 'a) gomethod \<Rightarrow> bool" where
  "keeps P m \<longleftrightarrow> (\<forall>d r d'. P (tables d) \<longrightarrow> m d = (r, d') \<longrightarrow> P (tables d'))"

named_theorems keeps_intros \<open>methods that keep a property of the tables\<close>

lemma keepsD: "keeps P m \<Longrightarrow> P (tables d) \<Longrightarrow> m d = (r, d') \<Longrightarrow> P (tables d')"
  by (auto simp: keeps_def)

lemma keeps_bindE [keeps_intros]: "keeps P m \<Longrightarrow> (\<And>x. keeps P (f x)) \<Longrightarrow> keeps P (bindE m f)"
proof (unfold keeps_def, intro allI impI)
  fix d r d' assume m: "\<forall>d r d'. P (tables d) \<longrightarrow> m d = (r, d') \<longrightarrow> P (tables d')"
    and f: "\<And>x. \<forall>d r d'. P (tables d) \<longrightarrow> f x d = (r, d') \<longrightarrow> P (tables d')"
    and d: "P (tables d)" and run: "bindE m f d = (r, d')"
  obtain r1 d1 where 1: "m d = (r1, d1)" by fastforce
  then have "P (tables d1)" using m d by blast
  with 1 f run show "P (tables d')" by (cases r1) auto
qed

lemma keeps_simple [keeps_intros]:
  "keeps P (returnE x)" "keeps P (throwE e)" "keeps P (fromE r)" "keeps P time_Now" "keeps P (rand_Read n)"
  by (auto simp: keeps_def returnE_def throwE_def fromE_def time_Now_def rand_Read_def Let_def
      split: option.splits)

lemma keeps_if [keeps_intros]:
  "(b \<Longrightarrow> keeps P m) \<Longrightarrow> (\<not> b \<Longrightarrow> keeps P m') \<Longrightarrow> keeps P (if b then m else m')"
  by simp

lemma keeps_exec:
  assumes "\<And>fk now t x t'. P t \<Longrightarrow> stmt fk now t = Inr (x, t') \<Longrightarrow> P t'"
  shows "keeps P (exec stmt)"
  using assms by (auto simp: keeps_def exec_def Let_def split: if_splits sum.splits prod.splits)

lemma keeps_query [keeps_intros]: "keeps P (query q)" and keeps_sql_call [keeps_intros]: "keeps P sql_call"
  unfolding query_def sql_call_def by (rule keeps_exec; auto split: sum.splits)+

lemma keeps_option [keeps_intros]:
  "(x = None \<Longrightarrow> keeps P m) \<Longrightarrow> (\<And>y. x = Some y \<Longrightarrow> keeps P (f y)) \<Longrightarrow>
   keeps P (case x of None \<Rightarrow> m | Some y \<Rightarrow> f y)"
  by (cases x) auto

lemma keeps_in_tx [keeps_intros]:
  assumes "keeps P body"
  shows "keeps P (in_tx body)"
proof -
  have "keeps P (bindE sql_call (\<lambda>_. bindE body (\<lambda>x. bindE sql_call (\<lambda>_. returnE x))))"
    using assms by (intro keeps_intros)
  then show ?thesis
    unfolding keeps_def in_tx_def by (auto split: prod.splits sum.splits)
qed

section \<open>The schema's constraints\<close>

text \<open>
  One predicate per table: keys and unique indexes, and that the \<^verbatim>\<open>AUTOINCREMENT\<close> counters are
  ahead of the ids in use.
\<close>

definition users_ok :: "tables \<Rightarrow> bool" where
  "users_ok t \<longleftrightarrow>
     distinct (map u_id (users t)) \<and> (\<forall>u \<in> set (users t). u_id u \<le> last_user_id t) \<and>
     0 \<le> last_user_id t \<and>
     distinct (indexed_emails (users t)) \<and>
     (\<forall>u \<in> set (users t). \<forall>e. u_email u = Some e \<longrightarrow> toLower e = e)"

definition devices_ok :: "tables \<Rightarrow> bool" where
  "devices_ok t \<longleftrightarrow>
     distinct (map d_id (devices t)) \<and> 0 \<le> last_device_id t \<and>
     (\<forall>r \<in> set (devices t). d_id r \<le> last_device_id t \<and> 0 \<le> d_last_seq_received r) \<and>
     distinct (map d_api_key (devices t)) \<and> distinct (indexed_hashes (devices t))"

definition raw_points_ok :: "tables \<Rightarrow> bool" where
  "raw_points_ok t \<longleftrightarrow>
     distinct (map rp_id (raw_points t)) \<and>
     (\<forall>r \<in> set (raw_points t). rp_id r \<le> last_raw_point_id t) \<and>
     distinct (map rp_seq (raw_points t)) \<and> distinct (map rp_ingest_hash (raw_points t))"

text \<open>Every raw point belongs to a device of its own user.\<close>

definition owners_ok :: "tables \<Rightarrow> bool" where
  "owners_ok t \<longleftrightarrow>
     (\<forall>r \<in> set (raw_points t). \<exists>d \<in> set (devices t).
        d_id d = rp_device_id r \<and> d_user_id d = rp_user_id r)"

text \<open>The table \<^verbatim>\<open>points\<close> is the projection of \<^verbatim>\<open>raw_points\<close>, row by row.\<close>

definition raw_view :: "raw_point_row \<Rightarrow> int \<times> int \<times> int \<times> string \<times> float64 \<times> float64" where
  "raw_view r = (rp_id r, rp_user_id r, rp_device_id r, rp_timestamp_utc r, rp_lat r, rp_lon r)"

definition point_view :: "point_row \<Rightarrow> int \<times> int \<times> int \<times> string \<times> float64 \<times> float64" where
  "point_view p =
     (p_raw_point_id p, p_user_id p, p_device_id p, p_timestamp_utc p, p_lat p, p_lon p)"

definition projection_ok :: "tables \<Rightarrow> bool" where
  "projection_ok t \<longleftrightarrow> map point_view (points t) = map raw_view (raw_points t)"

text \<open>The sequence number a device row reports covers every point of the device.\<close>

definition seqs_ok :: "tables \<Rightarrow> bool" where
  "seqs_ok t \<longleftrightarrow>
     (\<forall>r \<in> set (raw_points t). \<forall>d \<in> set (devices t).
        d_id d = rp_device_id r \<longrightarrow> rp_seq r \<le> d_last_seq_received d)"

definition others_ok :: "tables \<Rightarrow> bool" where
  "others_ok t \<longleftrightarrow>
     distinct (map s_token (sessions t)) \<and>
     distinct (map v_id (visits t)) \<and> (\<forall>v \<in> set (visits t). v_id v \<le> last_visit_id t) \<and>
     distinct (map (\<lambda>r. (pl_provider r, pl_lat_key r, pl_lon_key r)) (visit_place_cache t)) \<and>
     distinct (map g_device_id (visit_generation_state t))"

definition db_inv :: "tables \<Rightarrow> bool" where
  "db_inv t \<longleftrightarrow>
     users_ok t \<and> devices_ok t \<and> raw_points_ok t \<and> owners_ok t \<and> projection_ok t \<and> seqs_ok t \<and>
     others_ok t"

lemmas db_inv_defs =
  users_ok_def devices_ok_def raw_points_ok_def owners_ok_def projection_ok_def seqs_ok_def
  others_ok_def

lemma db_inv_empty: "db_inv empty_tables"
  by (simp add: db_inv_def db_inv_defs empty_tables_def indexed_emails_def indexed_hashes_def
      List.map_filter_simps)

lemma map_filter_append: "List.map_filter f (xs @ ys) = List.map_filter f xs @ List.map_filter f ys"
  by (induction xs) (auto simp: List.map_filter_simps split: option.splits)

lemma indexed_emails_append [simp]:
  "indexed_emails (us @ [u]) =
     indexed_emails us @ (case indexed_email (u_email u) of None \<Rightarrow> [] | Some e \<Rightarrow> [e])"
  by (simp add: indexed_emails_def map_filter_append List.map_filter_simps split: option.splits)

lemma indexed_hashes_append [simp]:
  "indexed_hashes (ds @ [r]) =
     indexed_hashes ds @ (case indexed_hash (d_api_key_hash r) of None \<Rightarrow> [] | Some h \<Rightarrow> [h])"
  by (simp add: indexed_hashes_def map_filter_append List.map_filter_simps split: option.splits)

lemma insert_default_user_inv:
  assumes "insert_default_user fk now t = Inr (x, t')" and "db_inv t"
  shows "db_inv t'"
  using assms
  by (auto simp: insert_default_user_def db_inv_def db_inv_defs user_exists_def indexed_email_def
      le_max_iff_disj split: if_splits)

lemma insert_default_user_frame:
  assumes "insert_default_user fk now t = Inr (x, t')"
  shows "raw_points t' = raw_points t" and "points t' = points t" and "devices t' = devices t"
    and "user_exists 1 t'" and "\<And>i. user_exists i t \<Longrightarrow> user_exists i t'"
  using assms by (auto simp: insert_default_user_def user_exists_def split: if_splits)

lemma insert_device_inv:
  assumes "insert_device user nm src key h preview upd fk now t = Inr (i, t')" and "db_inv t"
  shows "db_inv t'"
proof -
  have fresh: "d_id r \<noteq> last_device_id t + 1" if "r \<in> set (devices t)" for r
    using assms(2) that by (auto simp: db_inv_def devices_ok_def)
  have unref: "rp_device_id r \<noteq> last_device_id t + 1" if "r \<in> set (raw_points t)" for r
    using assms(2) that fresh by (fastforce simp: db_inv_def owners_ok_def)
  from assms(1) have
    t': "t' = t\<lparr>devices := devices t @
          [\<lparr>d_id = last_device_id t + 1, d_user_id = user, d_name = nm, d_source_type = src,
            d_api_key = key, d_api_key_hash = Some h, d_api_key_preview = Some preview,
            d_last_seen_at = None, d_last_seq_received = 0, d_created_at = sql_strftime now,
            d_updated_at = Some upd\<rparr>], last_device_id := last_device_id t + 1\<rparr>"
    and key: "key \<notin> d_api_key ` set (devices t)"
    and h: "sql_trim h \<noteq> [] \<longrightarrow> h \<notin> set (indexed_hashes (devices t))"
    by (auto simp: insert_device_def Let_def split: if_splits)
  have "devices_ok t'"
    using assms(2) fresh key h unfolding t'
    by (fastforce simp: db_inv_def devices_ok_def indexed_hash_def)
  moreover have "seqs_ok t'" and "owners_ok t'"
    using assms(2) unref unfolding t' by (fastforce simp: db_inv_def seqs_ok_def owners_ok_def)+
  ultimately show ?thesis
    using assms(2) unfolding t' by (simp add: db_inv_def db_inv_defs)
qed

lemma insert_device_frame:
  assumes "insert_device user nm src key h preview upd fk now t = Inr (i, t')"
  shows "raw_points t' = raw_points t" and "points t' = points t" and "users t' = users t"
    and "\<exists>row. devices t' = devices t @ [row] \<and> d_id row = i \<and> d_user_id row = user \<and>
           d_name row = nm \<and> d_source_type row = src \<and> d_api_key_hash row = Some h"
  using assms by (auto simp: insert_device_def Let_def split: if_splits)

end
