(* ===== verification/StoreInsert.thy ===== *)
theory StoreInsert
  imports Database Interfaces
begin

text \<open>
  \<^verbatim>\<open>internal/store/sqlite_store.go\<close> and \<^verbatim>\<open>internal/store/device_keys.go\<close>: the transaction that
  commits a batch of spool records, the device and user rows it creates on the way, and the
  key helpers. The theory shows that the transaction is atomic and idempotent, that it keeps the
  schema's constraints and the relations between the tables, and interprets the store interface
  of the flusher on it.
\<close>

section \<open>Device keys (device_keys.go)\<close>

definition hashDeviceAPIKey :: "string \<Rightarrow> string" where
  "hashDeviceAPIKey apiKey =
     (let trimmed = trimSpace apiKey in if trimmed = [] then [] else sha256_hex trimmed)"

definition buildAPIKeyPreview :: "string \<Rightarrow> string" where
  "buildAPIKeyPreview apiKey =
     (let key = trimSpace apiKey in
      if key = [] then []
      else if length key \<le> 6 then take 1 key @ ''...'' @ drop (length key - 1) key
      else take 4 key @ ''...'' @ drop (length key - 4) key)"

definition generateAPIKeySentinel :: "(dbstate, store_error, string) gomethod" where
  "generateAPIKeySentinel =
     bindE (rand_Read 16) (\<lambda>buf. returnE (''hashonly:'' @ hex_EncodeToString buf))"

section \<open>Normalisation of the record's fields\<close>

definition parsePointUserID :: "string \<Rightarrow> int option" where
  "parsePointUserID raw =
     (let trimmed = trimSpace raw in
      if trimmed = [] then None
      else case parseInt64 trimmed of
             None \<Rightarrow> None
           | Some parsed \<Rightarrow> if parsed \<le> 0 then None else Some parsed)"

definition normalizedDeviceName :: "string \<Rightarrow> string" where
  "normalizedDeviceName deviceID =
     (let v = trimSpace deviceID in if v = [] then ''unknown-device'' else v)"

definition normalizedSourceType :: "string \<Rightarrow> string" where
  "normalizedSourceType sourceType =
     (let v = trimSpace sourceType in if v = [] then ''unknown'' else v)"

definition normalizedTimestamp :: "gotime \<Rightarrow> gotime \<Rightarrow> (dbstate, store_error, string) gomethod" where
  "normalizedTimestamp ts fallback =
     (if \<not> time_IsZero ts then returnE (fmt_RFC3339Nano ts)
      else if \<not> time_IsZero fallback then returnE (fmt_RFC3339Nano fallback)
      else bindE time_Now (\<lambda>now. returnE (fmt_RFC3339Nano now)))"

definition nullableRawPayload :: "string option \<Rightarrow> string option" where
  "nullableRawPayload payload =
     (let trimmed = trimSpace (case payload of None \<Rightarrow> [] | Some b \<Rightarrow> b) in
      if trimmed = [] then None else Some trimmed)"

section \<open>The statements of the transaction\<close>

definition ensureDefaultUser :: "(dbstate, store_error, int) gomethod" where
  "ensureDefaultUser = bindE (exec insert_default_user) (\<lambda>_. returnE 1)"

text \<open>\<^verbatim>\<open>SELECT id FROM devices WHERE user_id = ? AND name = ? ORDER BY id ASC LIMIT 1\<close>.\<close>

definition select_device_id :: "int \<Rightarrow> string \<Rightarrow> tables \<Rightarrow> int option" where
  "select_device_id user nm t =
     (case sort_key d_id (filter (\<lambda>r. d_user_id r = user \<and> d_name r = nm) (devices t)) of
        [] \<Rightarrow> None | r # _ \<Rightarrow> Some (d_id r))"

definition ensureDevice :: "int \<Rightarrow> string \<Rightarrow> string \<Rightarrow> (dbstate, store_error, int) gomethod" where
  "ensureDevice user nm src =
     bindE (query (\<lambda>t. Inr (select_device_id user nm t))) (\<lambda>found. case found of
       Some existingID \<Rightarrow> returnE existingID
     | None \<Rightarrow>
         bindE generateAPIKeySentinel (\<lambda>apiKeySentinel.
         bindE time_Now (\<lambda>now.
         bindE (exec (insert_device user nm src apiKeySentinel [] [] (fmt_RFC3339Nano now))) (\<lambda>_.
           query (\<lambda>t. case select_device_id user nm t of
                        None \<Rightarrow> Inl ErrNoRows | Some i \<Rightarrow> Inr i)))))"

text \<open>
  The \<^verbatim>\<open>raw_points\<close> insert. The conflict target of the \<^verbatim>\<open>DO NOTHING\<close> clause is tested before the
  other constraints, and only a conflict on \<^verbatim>\<open>ingest_hash\<close> is ignored: a second row with the same
  \<^verbatim>\<open>seq\<close> is an error. The result is the new row's id, or \<^const>\<open>None\<close> when no row was affected.
\<close>

definition insert_raw_point ::
  "raw_point_row \<Rightarrow> bool \<Rightarrow> gotime \<Rightarrow> tables \<Rightarrow> store_error + int option \<times> tables" where
  "insert_raw_point row fk now t =
     (if rp_ingest_hash row \<in> rp_ingest_hash ` set (raw_points t) then Inr (None, t)
      else if rp_seq row \<in> rp_seq ` set (raw_points t) then Inl ErrUniqueConstraint
      else if fk \<and> \<not> (user_exists (rp_user_id row) t \<and> device_exists (rp_device_id row) t)
      then Inl ErrForeignKey
      else let i = last_raw_point_id t + 1 in
        Inr (Some i, t\<lparr>raw_points := raw_points t @ [row\<lparr>rp_id := i\<rparr>], last_raw_point_id := i\<rparr>))"

definition insert_point ::
  "point_row \<Rightarrow> bool \<Rightarrow> gotime \<Rightarrow> tables \<Rightarrow> store_error + unit \<times> tables" where
  "insert_point row fk now t =
     (if p_raw_point_id row \<in> p_raw_point_id ` set (points t) then Inr ((), t)
      else if fk \<and> \<not> (p_raw_point_id row \<in> rp_id ` set (raw_points t) \<and>
                       user_exists (p_user_id row) t \<and> device_exists (p_device_id row) t)
      then Inl ErrForeignKey
      else let i = last_point_id t + 1 in
        Inr ((), t\<lparr>points := points t @ [row\<lparr>p_id := i\<rparr>], last_point_id := i\<rparr>))"

text \<open>The \<^verbatim>\<open>UPDATE devices\<close> at the end: \<^verbatim>\<open>last_seq_received\<close> never goes back.\<close>

definition touch_device :: "string \<Rightarrow> int \<Rightarrow> device_row \<Rightarrow> device_row" where
  "touch_device seenAt seq r =
     r\<lparr>d_last_seen_at := Some seenAt, d_updated_at := Some seenAt,
       d_last_seq_received := (if d_last_seq_received r < seq then seq else d_last_seq_received r)\<rparr>"

definition update_device_state ::
  "string \<Rightarrow> int \<Rightarrow> int \<Rightarrow> bool \<Rightarrow> gotime \<Rightarrow> tables \<Rightarrow> store_error + unit \<times> tables" where
  "update_device_state seenAt seq i fk now t = Inr ((), update_devices i (touch_device seenAt seq) t)"

section \<open>The batch\<close>

text \<open>
  The variables of the loop over the records. The two Go maps are association lists; the order
  in which \<^verbatim>\<open>range\<close> visits one is unspecified in Go, and since each entry updates another row
  the order is immaterial to the result.
\<close>

record batch_state =
  maxSeqCommitted :: uint64
  deviceLastSeen :: "(int \<times> gotime) list"
  deviceLastSeq :: "(int \<times> uint64) list"

definition lookup_seq :: "(int \<times> uint64) list \<Rightarrow> int \<Rightarrow> uint64" where
  "lookup_seq m i = (case map_of m i of None \<Rightarrow> 0 | Some n \<Rightarrow> n)"

definition noteRecord :: "uint64 \<Rightarrow> int \<Rightarrow> string \<Rightarrow> batch_state \<Rightarrow> batch_state" where
  "noteRecord seq i ts b =
     b\<lparr>maxSeqCommitted := (if seq > maxSeqCommitted b then seq else maxSeqCommitted b),
       deviceLastSeen :=
         (case parse_RFC3339Nano ts of
            None \<Rightarrow> deviceLastSeen b
          | Some tsTime \<Rightarrow>
              (case map_of (deviceLastSeen b) i of
                 Some existing \<Rightarrow>
                   (if tsTime > existing then AList.update i tsTime (deviceLastSeen b)
                    else deviceLastSeen b)
               | None \<Rightarrow> AList.update i tsTime (deviceLastSeen b))),
       deviceLastSeq :=
         (if seq > lookup_seq (deviceLastSeq b) i then AList.update i seq (deviceLastSeq b)
          else deviceLastSeq b)\<rparr>"

definition raw_row ::
  "SpoolRecord \<Rightarrow> int \<Rightarrow> int \<Rightarrow> int \<Rightarrow> string \<Rightarrow> string \<Rightarrow> raw_point_row" where
  "raw_row r seq user dev ts createdAt =
     (let p = Point r in
      \<lparr>rp_id = 0, rp_seq = seq, rp_user_id = user, rp_device_id = dev,
       rp_source_type = normalizedSourceType (SourceType p), rp_timestamp_utc = ts,
       rp_lat = Lat p, rp_lon = Lon p, rp_altitude = Altitude p, rp_accuracy = Accuracy p,
       rp_speed = Speed p, rp_heading = Heading p, rp_battery = Battery p,
       rp_motion_type = MotionType p, rp_raw_payload_json = nullableRawPayload (RawPayload p),
       rp_ingest_hash = IngestHash p, rp_created_at = createdAt\<rparr>)"

definition record_user :: "int \<Rightarrow> SpoolRecord \<Rightarrow> int" where
  "record_user defaultUserID r =
     (case parsePointUserID (UserID (Point r)) of Some u \<Rightarrow> u | None \<Rightarrow> defaultUserID)"

definition insertRecord ::
  "int \<Rightarrow> SpoolRecord \<Rightarrow> batch_state \<Rightarrow> (dbstate, store_error, batch_state) gomethod" where
  "insertRecord defaultUserID r b =
     (let user = record_user defaultUserID r in
      bindE (ensureDevice user (normalizedDeviceName (RecDeviceID r))
               (normalizedSourceType (SourceType (Point r)))) (\<lambda>dev.
      bindE (normalizedTimestamp (TimestampUTC (Point r)) (ReceivedAt r)) (\<lambda>ts.
      bindE time_Now (\<lambda>now.
      let createdAt = fmt_RFC3339Nano now in
      bindE (fromE (bindUint64 (Seq r))) (\<lambda>seq.
      bindE (exec (insert_raw_point (raw_row r seq user dev ts createdAt))) (\<lambda>rows.
      bindE (case rows of
               None \<Rightarrow> returnE ()
             | Some rawPointID \<Rightarrow>
                 exec (insert_point
                   \<lparr>p_id = 0, p_raw_point_id = rawPointID, p_user_id = user, p_device_id = dev,
                    p_timestamp_utc = ts, p_lat = Lat (Point r), p_lon = Lon (Point r),
                    p_created_at = createdAt\<rparr>)) (\<lambda>_.
        returnE (noteRecord (Seq r) dev ts b))))))))"

fun insertRecords ::
  "int \<Rightarrow> SpoolRecord list \<Rightarrow> batch_state \<Rightarrow> (dbstate, store_error, batch_state) gomethod" where
  "insertRecords u [] b = returnE b"
| "insertRecords u (r # rs) b = bindE (insertRecord u r b) (insertRecords u rs)"

fun updateDevices ::
  "batch_state \<Rightarrow> (int \<times> uint64) list \<Rightarrow> (dbstate, store_error, unit) gomethod" where
  "updateDevices b [] = returnE ()"
| "updateDevices b ((i, n) # xs) =
     (let seenAt = fmt_RFC3339Nano (case map_of (deviceLastSeen b) i of None \<Rightarrow> 0 | Some t \<Rightarrow> t) in
      bindE (fromE (bindUint64 n)) (\<lambda>seq.
      bindE (exec (update_device_state seenAt seq i)) (\<lambda>_. updateDevices b xs)))"

definition empty_batch :: batch_state where
  "empty_batch = \<lparr>maxSeqCommitted = 0, deviceLastSeen = [], deviceLastSeq = []\<rparr>"

text \<open>The body between \<^verbatim>\<open>Begin\<close> and \<^verbatim>\<open>Commit\<close>: three statements are prepared after the default user.\<close>

definition insertBody :: "SpoolRecord list \<Rightarrow> (dbstate, store_error, uint64) gomethod" where
  "insertBody rs =
     bindE ensureDefaultUser (\<lambda>defaultUserID.
     bindE sql_call (\<lambda>_. bindE sql_call (\<lambda>_. bindE sql_call (\<lambda>_.
     bindE (insertRecords defaultUserID rs empty_batch) (\<lambda>b.
     bindE (updateDevices b (deviceLastSeq b)) (\<lambda>_.
       returnE (maxSeqCommitted b)))))))"

definition InsertSpoolBatch :: "SpoolRecord list \<Rightarrow> (dbstate, store_error, uint64) gomethod" where
  "InsertSpoolBatch rs = (if rs = [] then returnE 0 else in_tx (insertBody rs))"


section \<open>What the batch leaves behind\<close>

text \<open>
  The records that produce a row: those whose hash is neither in the table nor earlier in the batch.
\<close>

fun fresh_records :: "string list \<Rightarrow> SpoolRecord list \<Rightarrow> SpoolRecord list" where
  "fresh_records hs [] = []"
| "fresh_records hs (r # rs) =
     (let h = IngestHash (Point r) in
      if h \<in> set hs then fresh_records hs rs else r # fresh_records (hs @ [h]) rs)"

text \<open>A row holds a record: the columns the record determines, and a device of the record's name.\<close>

definition stored_as :: "tables \<Rightarrow> SpoolRecord \<Rightarrow> raw_point_row \<Rightarrow> bool" where
  "stored_as t r row \<longleftrightarrow>
     rp_seq row = uint (Seq r) \<and> rp_user_id row = record_user 1 r \<and>
     (\<exists>d \<in> set (devices t). d_id d = rp_device_id row \<and> d_user_id d = record_user 1 r \<and>
        d_name d = normalizedDeviceName (RecDeviceID r)) \<and>
     rp_lat row = Lat (Point r) \<and> rp_lon row = Lon (Point r) \<and>
     (TimestampUTC (Point r) \<noteq> 0 \<longrightarrow> rp_timestamp_utc row = fmt_RFC3339Nano (TimestampUTC (Point r))) \<and>
     rp_source_type row = normalizedSourceType (SourceType (Point r)) \<and>
     rp_raw_payload_json row = nullableRawPayload (RawPayload (Point r)) \<and>
     rp_ingest_hash row = IngestHash (Point r)"

text \<open>Device rows are only added, and keep their identity.\<close>

definition device_key :: "device_row \<Rightarrow> int \<times> int \<times> string" where
  "device_key r = (d_id r, d_user_id r, d_name r)"

definition devices_kept :: "tables \<Rightarrow> tables \<Rightarrow> bool" where
  "devices_kept t t' \<longleftrightarrow> device_key ` set (devices t) \<subseteq> device_key ` set (devices t')"

lemma devices_kept_refl [simp]: "devices_kept t t"
  by (simp add: devices_kept_def)

lemma devices_kept_trans: "devices_kept t u \<Longrightarrow> devices_kept u v \<Longrightarrow> devices_kept t v"
  by (auto simp: devices_kept_def)

lemma stored_as_device:
  "(\<exists>d \<in> set (devices t). d_id d = i \<and> d_user_id d = u \<and> d_name d = n) \<longleftrightarrow>
   (i, u, n) \<in> device_key ` set (devices t)"
  by (auto simp: device_key_def)

lemma stored_as_kept: "stored_as t r row \<Longrightarrow> devices_kept t t' \<Longrightarrow> stored_as t' r row"
  unfolding stored_as_def stored_as_device devices_kept_def by blast

lemma fresh_records_append:
  "fresh_records hs (rs @ rs') =
   fresh_records hs rs @ fresh_records (hs @ map (\<lambda>r. IngestHash (Point r)) (fresh_records hs rs)) rs'"
  by (induction rs arbitrary: hs) (auto simp: Let_def)

text \<open>
  The invariant during the loop: the device rows lag behind, by what the loop has noted.
\<close>

definition seqs_noted :: "batch_state \<Rightarrow> tables \<Rightarrow> bool" where
  "seqs_noted b t \<longleftrightarrow>
     (\<forall>r \<in> set (raw_points t). \<forall>d \<in> set (devices t). d_id d = rp_device_id r \<longrightarrow>
        rp_seq r \<le> d_last_seq_received d \<or> rp_seq r \<le> uint (lookup_seq (deviceLastSeq b) (d_id d)))"

definition loop_inv :: "batch_state \<Rightarrow> tables \<Rightarrow> bool" where
  "loop_inv b t \<longleftrightarrow>
     users_ok t \<and> devices_ok t \<and> raw_points_ok t \<and> owners_ok t \<and> projection_ok t \<and>
     others_ok t \<and> seqs_noted b t \<and> distinct (map fst (deviceLastSeq b))"

lemma loop_inv_start: "db_inv t \<Longrightarrow> loop_inv empty_batch t"
  by (auto simp: db_inv_def loop_inv_def seqs_noted_def seqs_ok_def empty_batch_def)

lemma select_device_id_Some:
  assumes "select_device_id user nm t = Some i"
  shows "(i, user, nm) \<in> device_key ` set (devices t)"
proof -
  let ?rows = "filter (\<lambda>r. d_user_id r = user \<and> d_name r = nm) (devices t)"
  from assms obtain r rest where "sort_key d_id ?rows = r # rest" and i: "d_id r = i"
    by (auto simp: select_device_id_def split: list.splits)
  then have "r \<in> set ?rows" by (metis list.set_intros(1) set_sort)
  with i show ?thesis by (auto simp: device_key_def)
qed

lemma insert_device_loop_inv:
  assumes "insert_device user nm src key h preview upd fk now t = Inr (i, t')" and "loop_inv b t"
  shows "loop_inv b t'"
proof -
  obtain row where ds: "devices t' = devices t @ [row]" and row: "d_id row = i"
    and raw: "raw_points t' = raw_points t"
    using insert_device_frame [OF assms(1)] by blast
  have i: "i = last_device_id t + 1"
    using assms(1) by (auto simp: insert_device_def Let_def split: if_splits)
  have unref: "rp_device_id r \<noteq> i" if "r \<in> set (raw_points t)" for r
    using assms(2) that i by (fastforce simp: loop_inv_def owners_ok_def devices_ok_def)
  have "seqs_noted b t'"
    using assms(2) unref unfolding seqs_noted_def ds raw
    by (auto simp: loop_inv_def seqs_noted_def row)
  moreover have "db_inv (t\<lparr>raw_points := [], points := []\<rparr>)"
    using assms(2) by (auto simp: loop_inv_def db_inv_def db_inv_defs)
  then have "db_inv (t'\<lparr>raw_points := [], points := []\<rparr>)"
    using insert_device_inv [of user nm src key h preview upd fk now
        "t\<lparr>raw_points := [], points := []\<rparr>" i "t'\<lparr>raw_points := [], points := []\<rparr>"] assms(1)
    by (auto simp: insert_device_def user_exists_def Let_def split: if_splits)
  then have "devices_ok t'" and "users_ok t'" and "others_ok t'"
    by (simp_all add: db_inv_def db_inv_defs)
  moreover have "owners_ok t'" and "raw_points_ok t'" and "projection_ok t'"
    using assms by (auto simp: loop_inv_def db_inv_defs insert_device_def Let_def split: if_splits)
  ultimately show ?thesis
    using assms(2) by (simp add: loop_inv_def)
qed

lemma generateAPIKeySentinel_tables:
  "generateAPIKeySentinel d = (Inr k, d') \<Longrightarrow> tables d' = tables d"
  by (auto simp: generateAPIKeySentinel_def bindE_eq_Inr rand_Read_tables)

lemma ensureDevice_ok:
  assumes "ensureDevice user nm src d = (Inr i, d')" and "loop_inv b (tables d)"
  shows "loop_inv b (tables d') \<and> (i, user, nm) \<in> device_key ` set (devices (tables d')) \<and>
    devices_kept (tables d) (tables d') \<and> raw_points (tables d') = raw_points (tables d)"
proof -
  from assms(1) obtain found d1 where
    q: "query (\<lambda>t. Inr (select_device_id user nm t)) d = (Inr found, d1)"
    and rest: "(case found of
       Some existingID \<Rightarrow> returnE existingID
     | None \<Rightarrow>
         bindE generateAPIKeySentinel (\<lambda>apiKeySentinel.
         bindE time_Now (\<lambda>now.
         bindE (exec (insert_device user nm src apiKeySentinel [] [] (fmt_RFC3339Nano now))) (\<lambda>_.
           query (\<lambda>t. case select_device_id user nm t of
                        None \<Rightarrow> Inl ErrNoRows | Some i \<Rightarrow> Inr i))))) d1 = (Inr i, d')"
    unfolding ensureDevice_def bindE_eq_Inr by blast
  from query_tables [OF q] have t1: "tables d1 = tables d"
    and f: "found = select_device_id user nm (tables d)" by auto
  show ?thesis
  proof (cases found)
    case (Some existing)
    with rest have "d' = d1" and "i = existing" by simp_all
    with Some f t1 assms(2) select_device_id_Some [of user nm "tables d" i] show ?thesis by simp
  next
    case None
    with rest obtain k d2 now d3 j d4 where
      "generateAPIKeySentinel d1 = (Inr k, d2)" and "time_Now d2 = (Inr now, d3)"
      and ins: "exec (insert_device user nm src k [] [] (fmt_RFC3339Nano now)) d3 = (Inr j, d4)"
      and sel: "query (\<lambda>t. case select_device_id user nm t of
                        None \<Rightarrow> Inl ErrNoRows | Some i \<Rightarrow> Inr i) d4 = (Inr i, d')"
      by (auto simp: bindE_eq_Inr)
    then have t3: "tables d3 = tables d"
      using t1 generateAPIKeySentinel_tables time_Now_tables by metis
    from exec_tables [OF ins] obtain fk w where
      ins': "insert_device user nm src k [] [] (fmt_RFC3339Nano now) fk w (tables d) = Inr (j, tables d4)"
      unfolding t3 by blast
    from query_tables [OF sel] have "tables d' = tables d4"
      and "select_device_id user nm (tables d4) = Some i" by (auto split: option.splits)
    moreover have "devices_kept (tables d) (tables d4)"
      using insert_device_frame(4) [OF ins'] by (auto simp: devices_kept_def)
    ultimately show ?thesis
      using insert_device_loop_inv [OF ins' assms(2)] select_device_id_Some [of user nm "tables d4" i]
        insert_device_frame(1) [OF ins'] by simp
  qed
qed


lemma normalizedTimestamp_ok:
  assumes "normalizedTimestamp ts fallback d = (Inr x, d')"
  shows "tables d' = tables d \<and> (ts \<noteq> 0 \<longrightarrow> x = fmt_RFC3339Nano ts)"
  using assms
  by (auto simp: normalizedTimestamp_def time_IsZero_def bindE_eq_Inr time_Now_tables split: if_splits)

lemma lookup_seq_note:
  "uint (lookup_seq (deviceLastSeq b) j) \<le> uint (lookup_seq (deviceLastSeq (noteRecord n i ts b)) j)"
  "uint n \<le> uint (lookup_seq (deviceLastSeq (noteRecord n i ts b)) i)"
  by (auto simp: noteRecord_def lookup_seq_def update_conv' word_less_def not_less
      split: option.splits if_splits)

lemma note_distinct:
  "distinct (map fst (deviceLastSeq b)) \<Longrightarrow>
   distinct (map fst (deviceLastSeq (noteRecord n i ts b)))"
  by (simp add: noteRecord_def distinct_update)

lemma loop_inv_note: "loop_inv b t \<Longrightarrow> loop_inv (noteRecord n i ts b) t"
  unfolding loop_inv_def seqs_noted_def
  using lookup_seq_note(1) [of b] note_distinct by (meson order_trans)

lemma bindUint64_Inr [simp]: "bindUint64 n = Inr k \<longleftrightarrow> uint n < 2 ^ 63 \<and> k = uint n"
  by (auto simp: bindUint64_def)

text \<open>The two inserts of one record, together, keep the projection.\<close>

lemma insert_pair_inv:
  assumes raw: "insert_raw_point row fk now t = Inr (Some j, t1)"
    and pt: "insert_point p fk' now' t1 = Inr (x, t2)"
    and p: "p_raw_point_id p = j" "p_user_id p = rp_user_id row" "p_device_id p = rp_device_id row"
      "p_timestamp_utc p = rp_timestamp_utc row" "p_lat p = rp_lat row" "p_lon p = rp_lon row"
    and owner: "(rp_device_id row, rp_user_id row, nm) \<in> device_key ` set (devices t)"
    and noted: "rp_seq row \<le> uint (lookup_seq (deviceLastSeq b) (rp_device_id row))"
    and inv: "loop_inv b t"
  shows "loop_inv b t2 \<and> devices t2 = devices t \<and> raw_points t2 = raw_points t @ [row\<lparr>rp_id := j\<rparr>]"
proof -
  have j: "j = last_raw_point_id t + 1"
    and t1: "t1 = t\<lparr>raw_points := raw_points t @ [row\<lparr>rp_id := j\<rparr>], last_raw_point_id := j\<rparr>"
    and h: "rp_ingest_hash row \<notin> rp_ingest_hash ` set (raw_points t)"
    and q: "rp_seq row \<notin> rp_seq ` set (raw_points t)"
    using raw by (auto simp: insert_raw_point_def Let_def split: if_splits)
  have bound: "\<forall>r \<in> set (raw_points t). rp_id r < j"
    using inv j by (auto simp: loop_inv_def raw_points_ok_def)
  have views: "map point_view (points t) = map raw_view (raw_points t)"
    using inv by (simp add: loop_inv_def projection_ok_def)
  then have "map fst (map point_view (points t)) = map fst (map raw_view (raw_points t))" by simp
  then have ids: "map p_raw_point_id (points t) = map rp_id (raw_points t)"
    by (simp add: point_view_def raw_view_def comp_def)
  have "j \<notin> p_raw_point_id ` set (points t)"
    using bound arg_cong [OF ids, of set] by auto
  then have t2: "t2 = t1\<lparr>points := points t @ [p\<lparr>p_id := last_point_id t + 1\<rparr>],
                         last_point_id := last_point_id t + 1\<rparr>"
    using pt p(1) unfolding insert_point_def t1 by (auto simp: Let_def split: if_splits)
  have "raw_points_ok t2"
    using inv bound h q unfolding t2 t1
    by (fastforce simp: loop_inv_def raw_points_ok_def j)
  moreover have "projection_ok t2"
    using views p unfolding t2 t1 by (simp add: projection_ok_def point_view_def raw_view_def)
  moreover have "owners_ok t2"
    using inv owner unfolding t2 t1 by (auto simp: loop_inv_def owners_ok_def device_key_def)
  moreover have "seqs_noted b t2"
    using inv noted unfolding t2 t1 by (auto simp: loop_inv_def seqs_noted_def)
  ultimately show ?thesis
    using inv unfolding t2 t1 by (simp add: loop_inv_def db_inv_defs)
qed

lemma insert_raw_point_None:
  "insert_raw_point row fk now t = Inr (None, t') \<Longrightarrow>
   t' = t \<and> rp_ingest_hash row \<in> rp_ingest_hash ` set (raw_points t)"
  by (auto simp: insert_raw_point_def Let_def split: if_splits)

lemma insert_raw_point_Some:
  "insert_raw_point row fk now t = Inr (Some j, t') \<Longrightarrow>
   rp_ingest_hash row \<notin> rp_ingest_hash ` set (raw_points t)"
  by (auto simp: insert_raw_point_def Let_def split: if_splits)

abbreviation hashes :: "tables \<Rightarrow> string list" where
  "hashes t \<equiv> map rp_ingest_hash (raw_points t)"

text \<open>
  Rows are added at the end, one for each fresh record; afterwards every record of the batch has
  a device row and a sequence number SQLite can hold.
\<close>

definition known_record :: "tables \<Rightarrow> SpoolRecord \<Rightarrow> bool" where
  "known_record t r \<longleftrightarrow>
     uint (Seq r) < 2 ^ 63 \<and>
     (\<exists>i. (i, record_user 1 r, normalizedDeviceName (RecDeviceID r)) \<in> device_key ` set (devices t))"

definition grew :: "SpoolRecord list \<Rightarrow> tables \<Rightarrow> tables \<Rightarrow> bool" where
  "grew rs t t' \<longleftrightarrow>
     devices_kept t t' \<and> (\<forall>r \<in> set rs. known_record t' r) \<and>
     (\<exists>new. raw_points t' = raw_points t @ new \<and> list_all2 (stored_as t') (fresh_records (hashes t) rs) new)"

lemma insertRecord_ok:
  assumes "insertRecord 1 r b d = (Inr b', d')" and "loop_inv b (tables d)"
  shows "loop_inv b' (tables d') \<and> grew [r] (tables d) (tables d') \<and>
    (\<exists>i ts. b' = noteRecord (Seq r) i ts b)"
proof -
  let ?u = "record_user 1 r" and ?nm = "normalizedDeviceName (RecDeviceID r)"
  from assms(1) obtain dev d1 ts d2 now d3 rows d4 u where
    dev: "ensureDevice ?u ?nm (normalizedSourceType (SourceType (Point r))) d = (Inr dev, d1)"
    and ts: "normalizedTimestamp (TimestampUTC (Point r)) (ReceivedAt r) d1 = (Inr ts, d2)"
    and now: "time_Now d2 = (Inr now, d3)" and seq: "uint (Seq r) < 2 ^ 63"
    and raw: "exec (insert_raw_point (raw_row r (uint (Seq r)) ?u dev ts (fmt_RFC3339Nano now))) d3 = (Inr rows, d4)"
    and pt: "(case rows of None \<Rightarrow> returnE () | Some j \<Rightarrow>
        exec (insert_point \<lparr>p_id = 0, p_raw_point_id = j, p_user_id = ?u, p_device_id = dev,
          p_timestamp_utc = ts, p_lat = Lat (Point r), p_lon = Lon (Point r),
          p_created_at = fmt_RFC3339Nano now\<rparr>)) d4 = (Inr u, d')"
    and b': "b' = noteRecord (Seq r) dev ts b"
    unfolding insertRecord_def Let_def by (fastforce simp: bindE_eq_Inr)
  let ?row = "raw_row r (uint (Seq r)) ?u dev ts (fmt_RFC3339Nano now)"
  have t3: "tables d3 = tables d1" and tsv: "TimestampUTC (Point r) \<noteq> 0 \<longrightarrow> ts = fmt_RFC3339Nano (TimestampUTC (Point r))"
    using normalizedTimestamp_ok [OF ts] time_Now_tables [OF now] by simp_all
  have D: "loop_inv b (tables d1)" "(dev, ?u, ?nm) \<in> device_key ` set (devices (tables d1))"
    "devices_kept (tables d) (tables d1)" "raw_points (tables d1) = raw_points (tables d)"
    using ensureDevice_ok [OF dev assms(2)] by blast+
  then have inv1: "loop_inv b' (tables d1)" by (simp add: b' loop_inv_note)
  obtain fk w where raw': "insert_raw_point ?row fk w (tables d1) = Inr (rows, tables d4)"
    using exec_tables [OF raw] t3 by auto
  have row: "rp_device_id ?row = dev" "rp_user_id ?row = ?u" "rp_seq ?row = uint (Seq r)"
    "rp_ingest_hash ?row = IngestHash (Point r)" "rp_timestamp_utc ?row = ts"
    "rp_lat ?row = Lat (Point r)" "rp_lon ?row = Lon (Point r)"
    by (simp_all add: raw_row_def Let_def)
  show ?thesis
  proof (cases rows)
    case None
    with raw' insert_raw_point_None [of ?row fk w "tables d1"] pt
    have "tables d' = tables d1" and "IngestHash (Point r) \<in> set (hashes (tables d))"
      using D(4) by (auto simp: row)
    then show ?thesis
      using inv1 D b' seq by (auto simp: grew_def known_record_def)
  next
    case (Some j)
    with pt obtain fk' w' where
      pt': "insert_point \<lparr>p_id = 0, p_raw_point_id = j, p_user_id = ?u, p_device_id = dev,
          p_timestamp_utc = ts, p_lat = Lat (Point r), p_lon = Lon (Point r),
          p_created_at = fmt_RFC3339Nano now\<rparr> fk' w' (tables d4) = Inr (u, tables d')"
      using exec_tables by fastforce
    have "loop_inv b' (tables d') \<and> devices (tables d') = devices (tables d1) \<and>
        raw_points (tables d') = raw_points (tables d1) @ [?row\<lparr>rp_id := j\<rparr>]"
      by (rule insert_pair_inv [OF raw' [unfolded Some] pt' _ _ _ _ _ _ _ _ inv1, of ?nm])
        (use row D(2) lookup_seq_note(2) [of "Seq r" dev ts b] in \<open>simp_all add: b'\<close>)
    moreover from this have "stored_as (tables d') r (?row\<lparr>rp_id := j\<rparr>)"
      using D(2) tsv unfolding stored_as_def stored_as_device by (simp add: raw_row_def Let_def)
    moreover have "IngestHash (Point r) \<notin> set (hashes (tables d))"
      using insert_raw_point_Some [OF raw' [unfolded Some]] D(4) by (simp add: row)
    ultimately show ?thesis
      using D b' seq by (auto simp: grew_def devices_kept_def known_record_def Let_def)
  qed
qed


lemma grew_refl: "grew [] t t"
  by (simp add: grew_def)

lemma known_record_kept: "known_record t r \<Longrightarrow> devices_kept t t' \<Longrightarrow> known_record t' r"
  unfolding known_record_def devices_kept_def by blast

lemma list_all2_stored_kept:
  "devices_kept t t' \<Longrightarrow> list_all2 (stored_as t) rs new \<Longrightarrow> list_all2 (stored_as t') rs new"
  by (auto elim!: list_all2_mono intro: stored_as_kept)

lemma stored_hashes:
  "list_all2 (stored_as t) rs new \<Longrightarrow> map rp_ingest_hash new = map (\<lambda>r. IngestHash (Point r)) rs"
  by (induction rule: list_all2_induct) (auto simp: stored_as_def)

lemma grew_trans:
  assumes "grew rs t u" and "grew rs' u v"
  shows "grew (rs @ rs') t v"
proof -
  obtain new where new: "raw_points u = raw_points t @ new"
    "list_all2 (stored_as u) (fresh_records (hashes t) rs) new"
    using assms(1) by (auto simp: grew_def)
  obtain new' where new': "raw_points v = raw_points u @ new'"
    "list_all2 (stored_as v) (fresh_records (hashes u) rs') new'"
    using assms(2) by (auto simp: grew_def)
  have "list_all2 (stored_as v) (fresh_records (hashes t) rs) new"
    using new(2) assms(2) list_all2_stored_kept by (auto simp: grew_def)
  moreover have "hashes u = hashes t @ map (\<lambda>r. IngestHash (Point r)) (fresh_records (hashes t) rs)"
    using new stored_hashes by simp
  ultimately have "list_all2 (stored_as v) (fresh_records (hashes t) (rs @ rs')) (new @ new')"
    using new'(2) by (simp add: fresh_records_append list_all2_appendI)
  then show ?thesis
    using assms new(1) new'(1) devices_kept_trans known_record_kept by (auto simp: grew_def)
qed

lemma noteRecord_max [simp]:
  "maxSeqCommitted (noteRecord n i ts b) = max (maxSeqCommitted b) n"
  by (auto simp: noteRecord_def max_def)

lemma insertRecords_ok:
  assumes "insertRecords 1 rs b d = (Inr b', d')" and "loop_inv b (tables d)"
  shows "loop_inv b' (tables d') \<and> grew rs (tables d) (tables d') \<and>
    maxSeqCommitted b' = fold (max \<circ> Seq) rs (maxSeqCommitted b)"
  using assms
proof (induction rs arbitrary: b d)
  case (Cons r rs)
  then obtain b1 d1 where one: "insertRecord 1 r b d = (Inr b1, d1)"
    and more: "insertRecords 1 rs b1 d1 = (Inr b', d')" by (auto simp: bindE_eq_Inr)
  note 1 = insertRecord_ok [OF one Cons.prems(2)]
  note 2 = Cons.IH [OF more] 
  have "grew ([r] @ rs) (tables d) (tables d')" using 1 2 by (intro grew_trans) auto
  with 1 2 show ?case by (auto simp: max.commute)
qed (simp add: grew_refl)

text \<open>The closing loop brings every device row up to what was noted.\<close>

lemma touch_device_key [simp]:
  "device_key (touch_device s n r) = device_key r" "d_id (touch_device s n r) = d_id r"
  "d_user_id (touch_device s n r) = d_user_id r" "d_api_key (touch_device s n r) = d_api_key r"
  "d_api_key_hash (touch_device s n r) = d_api_key_hash r"
  "d_last_seq_received (touch_device s n r) = max (d_last_seq_received r) n"
  by (simp_all add: touch_device_def device_key_def)

lemma update_touch_frame:
  "map d_id (devices (update_devices i (touch_device s n) t)) = map d_id (devices t)"
  "map d_api_key (devices (update_devices i (touch_device s n) t)) = map d_api_key (devices t)"
  "map d_api_key_hash (devices (update_devices i (touch_device s n) t)) = map d_api_key_hash (devices t)"
  "map device_key (devices (update_devices i (touch_device s n) t)) = map device_key (devices t)"
  by (auto simp: update_devices_def comp_def if_distrib [of d_id] if_distrib [of d_api_key]
      if_distrib [of d_api_key_hash] if_distrib [of device_key] cong: if_cong map_cong)

lemma update_touch_keys:
  "device_key ` set (devices (update_devices i (touch_device s n) t)) = device_key ` set (devices t)"
  using arg_cong [OF update_touch_frame(4), of set] by simp

lemma indexed_hashes_cong: "map d_api_key_hash ds = map d_api_key_hash es \<Longrightarrow> indexed_hashes ds = indexed_hashes es"
proof -
  have "indexed_hashes ds = List.map_filter indexed_hash (map d_api_key_hash ds)" for ds
    by (induction ds) (auto simp: indexed_hashes_def List.map_filter_simps split: option.splits)
  then show "map d_api_key_hash ds = map d_api_key_hash es \<Longrightarrow> indexed_hashes ds = indexed_hashes es"
    by metis
qed

lemma owners_ok_keys:
  "owners_ok t \<longleftrightarrow> (\<forall>r \<in> set (raw_points t). \<exists>n. (rp_device_id r, rp_user_id r, n) \<in> device_key ` set (devices t))"
  unfolding owners_ok_def device_key_def image_iff prod.inject by metis

lemma update_touch_ok:
  fixes i :: int and s :: string and n :: int
  assumes "0 \<le> n"
  defines "t' \<equiv> \<lambda>t. update_devices i (touch_device s n) t"
  shows "devices_ok t \<Longrightarrow> devices_ok (t' t)" and "owners_ok t \<Longrightarrow> owners_ok (t' t)"
    and "devices_kept t (t' t)" and "raw_points (t' t) = raw_points t"
    and "users_ok t \<Longrightarrow> users_ok (t' t)" and "raw_points_ok t \<Longrightarrow> raw_points_ok (t' t)"
    and "projection_ok t \<Longrightarrow> projection_ok (t' t)" and "others_ok t \<Longrightarrow> others_ok (t' t)"
proof -
  show "devices_ok (t' t)" if "devices_ok t"
  proof -
    have "indexed_hashes (devices (t' t)) = indexed_hashes (devices t)"
      by (rule indexed_hashes_cong) (simp add: t'_def update_touch_frame)
    moreover have "\<forall>r \<in> set (devices (t' t)). d_id r \<le> last_device_id t \<and> 0 \<le> d_last_seq_received r"
      using that assms(1) by (auto simp: devices_ok_def t'_def update_devices_def le_max_iff_disj)
    ultimately show ?thesis
      using that unfolding devices_ok_def t'_def
      by (simp add: update_touch_frame) (simp add: update_devices_def)
  qed
  show "owners_ok (t' t)" if "owners_ok t"
    using that unfolding owners_ok_keys t'_def by (simp add: update_touch_keys) (simp add: update_devices_def)
qed (simp_all add: t'_def devices_kept_def update_touch_keys, simp_all add: update_devices_def db_inv_defs)

lemma updateDevices_ok:
  assumes "updateDevices b xs d = (Inr u, d')" and "loop_inv b0 (tables d)"
    and "deviceLastSeq b0 = xs"
  shows "db_inv (tables d') \<and> devices_kept (tables d) (tables d') \<and>
    raw_points (tables d') = raw_points (tables d)"
  using assms
proof (induction xs arbitrary: d b0)
  case Nil
  then show ?case
    by (fastforce simp: loop_inv_def db_inv_def seqs_noted_def seqs_ok_def devices_ok_def lookup_seq_def)
next
  case (Cons x xs)
  obtain i n where x: "x = (i, n)" by (cases x)
  with Cons.prems(1) obtain s v d1 where
    e: "exec (update_device_state s (uint n) i) d = (Inr v, d1)"
    and more: "updateDevices b xs d1 = (Inr u, d')" by (auto simp: Let_def bindE_eq_Inr)
  let ?t = "tables d" and ?b = "b0\<lparr>deviceLastSeq := xs\<rparr>"
  have t1: "tables d1 = update_devices i (touch_device s (uint n)) ?t"
    using exec_tables [OF e] by (auto simp: update_device_state_def)
  have inv: "loop_inv b0 ?t" and dist: "i \<notin> fst ` set xs" "distinct (map fst xs)"
    using Cons.prems(2,3) x by (auto simp: loop_inv_def)
  have "seqs_noted ?b (tables d1)"
    unfolding seqs_noted_def
  proof (intro ballI impI)
    fix r r' assume r: "r \<in> set (raw_points (tables d1))" and r': "r' \<in> set (devices (tables d1))"
      and ref: "d_id r' = rp_device_id r"
    from r' obtain r0 where r0: "r0 \<in> set (devices ?t)"
      "r' = (if d_id r0 = i then touch_device s (uint n) r0 else r0)"
      by (auto simp: t1 update_devices_def)
    then have "d_id r0 = rp_device_id r" using ref by (auto split: if_splits)
    then have *: "rp_seq r \<le> d_last_seq_received r0 \<or> rp_seq r \<le> uint (lookup_seq ((i, n) # xs) (d_id r0))"
      using inv r r0(1) Cons.prems(3) x by (auto simp: loop_inv_def seqs_noted_def t1 update_devices_def)
    show "rp_seq r \<le> d_last_seq_received r' \<or> rp_seq r \<le> uint (lookup_seq (deviceLastSeq ?b) (d_id r'))"
    proof (cases "d_id r0 = i")
      case True
      with * r0(2) show ?thesis by (auto simp: lookup_seq_def le_max_iff_disj)
    next
      case False
      with * r0(2) show ?thesis by (simp add: lookup_seq_def)
    qed
  qed
  then have "loop_inv ?b (tables d1)"
    using inv dist(2) update_touch_ok [of "uint n"] unfolding t1 loop_inv_def by auto
  from Cons.IH [OF more this] have "db_inv (tables d')" "devices_kept (tables d1) (tables d')"
    "raw_points (tables d') = raw_points (tables d1)" by auto
  then show ?case
    using update_touch_ok(3,4) [where n = "uint n" and t = ?t and i = i and s = s] devices_kept_trans unfolding t1 by auto
qed


lemma insertBody_ok:
  assumes "insertBody rs d = (Inr m, d')" and "db_inv (tables d)"
  shows "db_inv (tables d') \<and> grew rs (tables d) (tables d') \<and> m = fold (max \<circ> Seq) rs 0"
proof -
  from assms(1) obtain u d1 u2 d2 u3 d3 u4 d4 b d5 u6 where
    user: "exec insert_default_user d = (Inr u, d1)" and "sql_call d1 = (Inr u2, d2)"
    and "sql_call d2 = (Inr u3, d3)" and "sql_call d3 = (Inr u4, d4)"
    and loop: "insertRecords 1 rs empty_batch d4 = (Inr b, d5)"
    and upd: "updateDevices b (deviceLastSeq b) d5 = (Inr u6, d')" and m: "m = maxSeqCommitted b"
    unfolding insertBody_def ensureDefaultUser_def by (fastforce simp: bindE_eq_Inr)
  then have t4: "tables d4 = tables d1" using sql_call_tables by metis
  from exec_tables [OF user] obtain fk now where
    ins: "insert_default_user fk now (tables d) = Inr (u, tables d1)" by blast
  have start: "loop_inv empty_batch (tables d4)"
    using insert_default_user_inv [OF ins assms(2)] t4 loop_inv_start by simp
  note L = insertRecords_ok [OF loop start] and U = updateDevices_ok [OF upd _ refl]
  have "grew rs (tables d1) (tables d')"
    using L U list_all2_stored_kept devices_kept_trans known_record_kept unfolding t4 grew_def by metis
  then have "grew rs (tables d) (tables d')"
    using insert_default_user_frame(1,3) [OF ins] by (simp add: grew_def devices_kept_def)
  then show ?thesis using L U m by (simp add: empty_batch_def)
qed

lemma InsertSpoolBatch_success:
  assumes "InsertSpoolBatch rs d = (Inr m, d')" and "db_inv (tables d)"
  shows "db_inv (tables d') \<and> grew rs (tables d) (tables d') \<and> m = fold (max \<circ> Seq) rs 0"
proof (cases "rs = []")
  case True
  with assms show ?thesis by (auto simp: InsertSpoolBatch_def grew_refl)
next
  case False
  with assms(1) have "in_tx (insertBody rs) d = (Inr m, d')" by (simp add: InsertSpoolBatch_def)
  then obtain d1 d2 where "insertBody rs d1 = (Inr m, d2)" "tables d1 = tables d" "tables d' = tables d2"
    by (rule in_tx_success)
  with insertBody_ok [of rs d1 m d2] assms(2) show ?thesis by simp
qed

lemma InsertSpoolBatch_failure:
  "InsertSpoolBatch rs d = (Inl e, d') \<Longrightarrow> tables d' = tables d"
  by (auto simp: InsertSpoolBatch_def in_tx_error split: if_splits)

section \<open>The store interface\<close>

text \<open>A record is persisted when a raw point with its hash is in the table.\<close>

definition persisted_in :: "dbstate \<Rightarrow> SpoolRecord \<Rightarrow> bool" where
  "persisted_in d r \<longleftrightarrow> IngestHash (Point r) \<in> set (hashes (tables d))"

lemma fresh_records_cover:
  "r \<in> set rs \<Longrightarrow>
   IngestHash (Point r) \<in> set hs \<union> (\<lambda>r. IngestHash (Point r)) ` set (fresh_records hs rs)"
proof (induction rs arbitrary: hs)
  case (Cons a rs)
  show ?case
    using Cons.prems Cons.IH [of hs] Cons.IH [of "hs @ [IngestHash (Point a)]"]
    by (auto simp: Let_def)
qed simp

lemma grew_persisted:
  assumes "grew rs (tables d) (tables d')"
  shows "r \<in> set rs \<Longrightarrow> persisted_in d' r" and "persisted_in d r \<Longrightarrow> persisted_in d' r"
proof -
  obtain new where "raw_points (tables d') = raw_points (tables d) @ new"
    and "list_all2 (stored_as (tables d')) (fresh_records (hashes (tables d)) rs) new"
    using assms by (auto simp: grew_def)
  then have "hashes (tables d') = hashes (tables d) @
      map (\<lambda>r. IngestHash (Point r)) (fresh_records (hashes (tables d)) rs)"
    using stored_hashes by simp
  then show "r \<in> set rs \<Longrightarrow> persisted_in d' r" and "persisted_in d r \<Longrightarrow> persisted_in d' r"
    using fresh_records_cover [of r rs "hashes (tables d)"] by (auto simp: persisted_in_def)
qed

interpretation sqlite: flush_store "on_tables db_inv" persisted_in InsertSpoolBatch
proof unfold_locales
  fix d ws m d'
  assume "on_tables db_inv d" and ne: "ws \<noteq> []" and "InsertSpoolBatch ws d = (Inr m, d')"
  note ok = InsertSpoolBatch_success [OF this(3) this(1)]
  have "m \<in> Seq ` set ws"
  proof (cases "m = 0")
    case True
    from ne obtain r where "r \<in> set ws" by (cases ws) auto
    moreover from this have "Seq r \<le> m" using fold_max_Seq [where rs = ws and a = 0] ok by blast
    ultimately show ?thesis using True by force
  next
    case False
    then show ?thesis using fold_max_Seq [where rs = ws and a = 0] ok by auto
  qed
  then show "on_tables db_inv d' \<and> (\<forall>r \<in> set ws. persisted_in d' r) \<and>
      (\<forall>r. persisted_in d r \<longrightarrow> persisted_in d' r) \<and> (\<forall>r \<in> set ws. Seq r \<le> m) \<and> m \<in> Seq ` set ws"
    using ok grew_persisted [of ws d d'] fold_max_Seq [where rs = ws and a = 0] by auto
next
  fix d ws e d'
  assume "on_tables db_inv d" and "InsertSpoolBatch ws d = (Inl e, d')"
  then show "on_tables db_inv d' \<and> (\<forall>r. persisted_in d' r \<longleftrightarrow> persisted_in d r)"
    using InsertSpoolBatch_failure [of ws d e d'] by (simp add: persisted_in_def)
qed


section \<open>Retrying a batch\<close>

lemma select_device_id_known:
  "(i, user, nm) \<in> device_key ` set (devices t) \<Longrightarrow> \<exists>j. select_device_id user nm t = Some j"
proof -
  assume "(i, user, nm) \<in> device_key ` set (devices t)"
  then have "filter (\<lambda>r. d_user_id r = user \<and> d_name r = nm) (devices t) \<noteq> []"
    by (auto simp: device_key_def filter_empty_conv)
  then have "sort_key d_id (filter (\<lambda>r. d_user_id r = user \<and> d_name r = nm) (devices t)) \<noteq> []"
    by (metis length_0_conv length_sort)
  then show ?thesis by (auto simp: select_device_id_def split: list.split)
qed

lemma ensureDevice_known:
  assumes "calm d" and "select_device_id user nm (tables d) = Some j"
  shows "runs (ensureDevice user nm src) (\<lambda>i t. t = tables d) d"
  unfolding ensureDevice_def
  by (rule runs_bindE [where R = "\<lambda>x t. x = Some j \<and> t = tables d"], rule runs_query)
    (use assms in \<open>auto intro: runs_returnE\<close>)

lemma normalizedTimestamp_runs:
  "calm d \<Longrightarrow> runs (normalizedTimestamp ts fb) (\<lambda>x t. t = tables d) d"
  unfolding normalizedTimestamp_def
  by (auto intro!: runs_returnE runs_bindE [where R = "\<lambda>x t. t = tables d"] runs_time_Now)

text \<open>The sequence numbers noted for the device rows are ones SQLite can hold.\<close>

definition small_seqs :: "batch_state \<Rightarrow> bool" where
  "small_seqs b \<longleftrightarrow> (\<forall>n \<in> snd ` set (deviceLastSeq b). uint n < 2 ^ 63)"

lemma update_values: "snd ` set (AList.update k v xs) \<subseteq> insert v (snd ` set xs)"
  by (induction xs) auto

lemma small_seqs_note:
  assumes "small_seqs b" and "uint n < 2 ^ 63"
  shows "small_seqs (noteRecord n i ts b)"
proof -
  have sub: "snd ` set (deviceLastSeq (noteRecord n i ts b)) \<subseteq> insert n (snd ` set (deviceLastSeq b))"
    using update_values [of i n "deviceLastSeq b"] by (auto simp: noteRecord_def)
  have small: "uint k < 2 ^ 63" if "k \<in> insert n (snd ` set (deviceLastSeq b))" for k
    using that assms by (auto simp: small_seqs_def)
  show ?thesis
    unfolding small_seqs_def by (rule ballI, rule small, erule subsetD [OF sub])
qed

lemma insertRecord_again:
  assumes "calm d" and "known_record (tables d) r" and "IngestHash (Point r) \<in> set (hashes (tables d))"
    and "small_seqs b"
  shows "runs (insertRecord 1 r b) (\<lambda>b' t. t = tables d \<and> small_seqs b') d"
proof -
  obtain j where j: "select_device_id (record_user 1 r) (normalizedDeviceName (RecDeviceID r)) (tables d) = Some j"
    using assms(2) select_device_id_known unfolding known_record_def by blast
  have raw: "insert_raw_point (raw_row r n u i ts c) fk now (tables d) = Inr (None, tables d)"
    for n u i ts c fk now using assms(3) by (simp add: insert_raw_point_def raw_row_def Let_def)
  have seq: "bindUint64 (Seq r) = Inr (uint (Seq r))" and small: "small_seqs (noteRecord (Seq r) i ts b)" for i ts
    using assms(2,4) by (simp_all add: known_record_def bindUint64_def small_seqs_note)
  show ?thesis
    unfolding insertRecord_def Let_def
    by (rule runs_bindE [OF ensureDevice_known [OF assms(1) j]],
        rule runs_bindE [OF normalizedTimestamp_runs], assumption,
        rule runs_bindE [where R = "\<lambda>x t. t = tables d", OF runs_time_Now], assumption, simp,
        rule runs_bindE [where R = "\<lambda>x t. t = tables d"],
        simp add: seq runs_fromE,
        rule runs_bindE [where R = "\<lambda>x t. x = None \<and> t = tables d", OF runs_exec], assumption)
      (auto simp: raw small intro!: runs_bindE [where R = "\<lambda>x t. t = tables d"] runs_returnE)
qed

lemma insertRecords_again:
  assumes "calm d"
    and "\<forall>r \<in> set rs. known_record (tables d) r \<and> IngestHash (Point r) \<in> set (hashes (tables d))"
    and "small_seqs b"
  shows "runs (insertRecords 1 rs b) (\<lambda>b' t. t = tables d \<and> small_seqs b') d"
  using assms
proof (induction rs arbitrary: b d)
  case (Cons r rs)
  show ?case
    unfolding insertRecords.simps
  proof (rule runs_bindE [OF insertRecord_again])
    fix x d' assume "tables d' = tables d \<and> small_seqs x" and "calm d'"
    then show "runs (insertRecords 1 rs x) (\<lambda>b' t. t = tables d \<and> small_seqs b') d'"
      using Cons.IH [of d' x] Cons.prems by simp
  qed (use Cons.prems in auto)
qed (simp add: runs_returnE)


lemma updateDevices_runs:
  assumes "calm d" and "\<forall>n \<in> snd ` set xs. uint n < 2 ^ 63"
  shows "runs (updateDevices b xs) (\<lambda>_ _. True) d"
  using assms
proof (induction xs arbitrary: d)
  case (Cons x xs)
  then show ?case
    by (cases x) (auto simp: bindUint64_def Let_def update_device_state_def
        intro!: runs_bindE [where R = "\<lambda>_ _. True"] runs_fromE runs_exec)
qed (simp add: runs_returnE)

lemma updateDevices_small:
  "calm d \<Longrightarrow> small_seqs b \<Longrightarrow> runs (updateDevices b (deviceLastSeq b)) (\<lambda>_ _. True) d"
  by (rule updateDevices_runs) (simp_all only: small_seqs_def)

lemma InsertSpoolBatch_again:
  assumes "calm d" and "\<forall>r \<in> set rs. known_record (tables d) r \<and> persisted_in d r"
  shows "runs (InsertSpoolBatch rs) (\<lambda>_ _. True) d"
proof (cases "rs = []")
  case False
  have body: "runs (insertBody rs) (\<lambda>_ _. True) d1" if "calm d1" "tables d1 = tables d" for d1
  proof -
    let ?R = "\<lambda>_ t. devices t = devices (tables d) \<and> raw_points t = raw_points (tables d)"
    have user: "runs ensureDefaultUser (\<lambda>u t. u = 1 \<and> ?R u t) d1"
      unfolding ensureDefaultUser_def using that
      by (auto simp: insert_default_user_def intro!: runs_bindE [where R = ?R] runs_exec runs_returnE)
    have loop: "runs (insertRecords 1 rs empty_batch) (\<lambda>b t. small_seqs b) d2"
      if "calm d2" "?R () (tables d2)" for d2
      using insertRecords_again [of d2 rs empty_batch] that assms(2)
      by (auto simp: runs_def persisted_in_def known_record_def small_seqs_def empty_batch_def)
    show ?thesis
      unfolding insertBody_def
      by (rule runs_bindE [OF user], (rule runs_bindE [where R = ?R, OF runs_sql_call]; simp)+)
        (auto intro!: runs_bindE [OF loop] runs_returnE runs_bindE [OF updateDevices_small])
  qed
  with False assms(1) show ?thesis by (simp add: InsertSpoolBatch_def runs_in_tx)
qed (use assms(1) in \<open>simp add: InsertSpoolBatch_def runs_returnE\<close>)

lemma fresh_records_none:
  "\<forall>r \<in> set rs. IngestHash (Point r) \<in> set hs \<Longrightarrow> fresh_records hs rs = []"
  by (induction rs) (auto simp: Let_def)


lemma reused_seq_fails:
  assumes "db_inv (tables d)" and "r \<in> set (fresh_records (hashes (tables d)) rs)"
    and "uint (Seq r) \<in> rp_seq ` set (raw_points (tables d))"
  shows "\<exists>e d'. InsertSpoolBatch rs d = (Inl e, d') \<and> tables d' = tables d"
proof (cases "InsertSpoolBatch rs d")
  case (Pair res d')
  show ?thesis
  proof (cases res)
    case (Inl e)
    with Pair InsertSpoolBatch_failure [of rs d e d'] show ?thesis by simp
  next
    case (Inr m)
    note ok = InsertSpoolBatch_success [OF Pair [unfolded Inr] assms(1)]
    then obtain new where new: "raw_points (tables d') = raw_points (tables d) @ new"
      "list_all2 (stored_as (tables d')) (fresh_records (hashes (tables d)) rs) new"
      by (auto simp: grew_def)
    from assms(2) new(2) obtain row where "row \<in> set new" "rp_seq row = uint (Seq r)"
      by (auto simp: in_set_conv_nth list_all2_conv_all_nth stored_as_def) (metis nth_mem)
    moreover have "distinct (map rp_seq (raw_points (tables d')))"
      using ok by (simp add: db_inv_def raw_points_ok_def)
    ultimately show ?thesis using assms(3) new(1) by (metis (no_types, lifting) IntI distinct_append empty_iff image_eqI list.set_map map_append)
  qed
qed

section \<open>Properties\<close>

definition sample_db :: dbstate where
  "sample_db =
     \<lparr>tables = empty_tables, fk_on = True, dbfault = (\<lambda>_. False), dbcalls = 0,
      dbclock = (\<lambda>_. 0), dbticks = 0,
      dbrand = (\<lambda>i n. Some (replicate n (char_of i))), dbrands = 0\<rparr>"

definition sample_batch :: "SpoolRecord list" where
  "sample_batch =
     [sample_record 1 ''phone'' ''h1'' second, sample_record 2 ''phone'' ''h1'' second,
      sample_record 3 ''watch'' ''h2'' second]"

lemma sample_db_inv: "db_inv (tables sample_db)" "calm sample_db"
  by (simp_all add: sample_db_def db_inv_empty calm_def)

lemma sample_batch_result: "fst (InsertSpoolBatch sample_batch sample_db) = Inr 3"
  by code_simp

lemma sample_batch_rows:
  assumes "InsertSpoolBatch sample_batch sample_db = (Inr 3, d)"
  shows "rp_seq ` set (raw_points (tables d)) = {1, 3}" and "hashes (tables d) = [''h1'', ''h2'']"
proof -
  have "map (\<lambda>r. (rp_seq r, rp_ingest_hash r)) (raw_points (tables (snd (InsertSpoolBatch sample_batch sample_db)))) =
      [(1, ''h1''), (3, ''h2'')]" by code_simp
  then have rows: "map (\<lambda>r. (rp_seq r, rp_ingest_hash r)) (raw_points (tables d)) = [(1, ''h1''), (3, ''h2'')]"
    using assms by simp
  have "rp_seq ` set (raw_points (tables d)) = set (map fst [(1 :: int, ''h1''), (3, ''h2'')])"
    unfolding rows [symmetric] by (simp add: image_image)
  then show "rp_seq ` set (raw_points (tables d)) = {1, 3}" by simp
  have "hashes (tables d) = map snd [(1 :: int, ''h1''), (3, ''h2'')]"
    unfolding rows [symmetric] by simp
  then show "hashes (tables d) = [''h1'', ''h2'']" by simp
qed

text \<open>
  Claim C3. A batch insert is a transaction: when it fails the tables are unchanged; when it
  succeeds it returns the highest sequence number of the batch, the raw points are the old rows
  followed by one row for each record whose ingest hash is new (the first of several with the same
  hash), each row holding its record's sequence number, user, device, time and coordinates.
\<close>

theorem insert_batch_refines:
  assumes "db_inv (tables d)" and "InsertSpoolBatch rs d = (res, d')"
  shows "case res of
      Inl e \<Rightarrow> tables d' = tables d
    | Inr m \<Rightarrow>
        m = fold (max \<circ> Seq) rs 0 \<and>
        (\<exists>new. raw_points (tables d') = raw_points (tables d) @ new \<and>
           list_all2 (stored_as (tables d')) (fresh_records (hashes (tables d)) rs) new)"
  using assms InsertSpoolBatch_success [of rs d _ d'] InsertSpoolBatch_failure [of rs d _ d']
  by (cases res) (auto simp: grew_def)

theorem insert_batch_refines_witness:
  "\<exists>d' new. InsertSpoolBatch sample_batch sample_db = (Inr 3, d') \<and> raw_points (tables d') = new \<and>
     list_all2 (stored_as (tables d'))
       [sample_record 1 ''phone'' ''h1'' second, sample_record 3 ''watch'' ''h2'' second] new"
proof -
  obtain d' where d': "InsertSpoolBatch sample_batch sample_db = (Inr 3, d')"
    using sample_batch_result by (metis prod.collapse)
  have fresh: "fresh_records [] sample_batch =
      [sample_record 1 ''phone'' ''h1'' second, sample_record 3 ''watch'' ''h2'' second]"
    by (simp add: sample_batch_def sample_defs)
  have "raw_points (tables sample_db) = []" by (simp add: sample_db_def empty_tables_def)
  with d' insert_batch_refines [OF sample_db_inv(1) d'] show ?thesis by (auto simp: fresh)
qed

text \<open>
  Claim C14. Inserting is idempotent and a retry gets through: once a batch has been committed, any
  later insert of the same batch into those tables, on a driver that works, succeeds, returns the
  same sequence number and adds no row.
\<close>

theorem committed_batch_retry:
  assumes "db_inv (tables d)" and "InsertSpoolBatch rs d = (Inr m, d')"
    and "tables e = tables d'" and "calm e"
  shows "\<exists>e'. InsertSpoolBatch rs e = (Inr m, e') \<and> raw_points (tables e') = raw_points (tables d')"
proof -
  note ok = InsertSpoolBatch_success [OF assms(2,1)]
  have all: "\<forall>r \<in> set rs. known_record (tables e) r \<and> persisted_in e r"
    using ok grew_persisted(1) [of rs d d'] assms(3) by (auto simp: grew_def persisted_in_def)
  then obtain m' e' where e': "InsertSpoolBatch rs e = (Inr m', e')"
    using InsertSpoolBatch_again [OF assms(4), of rs] by (auto simp: runs_def)
  have "db_inv (tables e)" using ok assms(3) by simp
  note again = InsertSpoolBatch_success [OF e' this]
  have "fresh_records (hashes (tables e)) rs = []"
    using all by (intro fresh_records_none) (simp add: persisted_in_def)
  with again ok assms(3) e' show ?thesis by (auto simp: grew_def)
qed

theorem committed_batch_retry_witness:
  "\<exists>d' e'. InsertSpoolBatch sample_batch sample_db = (Inr 3, d') \<and>
     InsertSpoolBatch sample_batch (d'\<lparr>dbfault := \<lambda>_. False\<rparr>) = (Inr 3, e') \<and>
     raw_points (tables e') = raw_points (tables d')"
proof -
  obtain d' where d': "InsertSpoolBatch sample_batch sample_db = (Inr 3, d')"
    using sample_batch_result by (metis prod.collapse)
  from committed_batch_retry [OF sample_db_inv(1) d', of "d'\<lparr>dbfault := \<lambda>_. False\<rparr>"] d'
  show ?thesis by (auto simp: calm_def)
qed

text \<open>
  Only the ingest hash is idempotent: a batch with a new record whose sequence number
  some other stored row already has is refused as a whole, whatever the rest of the batch is, and
  nothing of it is stored.
\<close>

theorem reused_seq_rejected:
  assumes "db_inv (tables d)" and "r \<in> set (fresh_records (hashes (tables d)) rs)"
    and "uint (Seq r) \<in> rp_seq ` set (raw_points (tables d))"
  shows "\<exists>e d'. InsertSpoolBatch rs d = (Inl e, d') \<and> tables d' = tables d"
  using assms by (rule reused_seq_fails)

theorem reused_seq_rejected_witness:
  "\<exists>d e d'. InsertSpoolBatch sample_batch sample_db = (Inr 3, d) \<and>
     InsertSpoolBatch [sample_record 1 ''phone'' ''h9'' second] d = (Inl e, d') \<and> tables d' = tables d"
proof -
  obtain d where d: "InsertSpoolBatch sample_batch sample_db = (Inr 3, d)"
    using sample_batch_result by (metis prod.collapse)
  then have seq: "1 \<in> rp_seq ` set (raw_points (tables d))" and "hashes (tables d) = [''h1'', ''h2'']"
    using sample_batch_rows by simp_all
  then have "fresh_records (hashes (tables d)) [sample_record 1 ''phone'' ''h9'' second] =
      [sample_record 1 ''phone'' ''h9'' second]" by (simp add: sample_defs)
  with reused_seq_rejected [of d "sample_record 1 ''phone'' ''h9'' second"
      "[sample_record 1 ''phone'' ''h9'' second]"]
    InsertSpoolBatch_success [OF d sample_db_inv(1)] seq d
  show ?thesis by (simp add: sample_record_def)
qed

end
