(* ===== verification/Pipeline.thy ===== *)
theory Pipeline
  imports Flusher Buffer SpoolAppend StoreInsert
begin

text \<open>
  The write path of the server put together: \<^verbatim>\<open>appendAndEnqueue\<close> of \<^verbatim>\<open>internal/api/ingest.go\<close>
  appends to the spool and then to the buffer; the flusher moves the buffer into SQLite and
  advances the checkpoint. The flusher's contract is interpreted on the three real components,
  and an invariant over all interleavings of requests and flush passes shows that no acknowledged
  record is lost.
\<close>

section \<open>The flusher on the real components\<close>

type_synonym server_world = "(Manager, dbstate, FileSpoolManager) world"
type_synonym server_error = "(store_error, spool_error) flush_error"
type_synonym server = "(Manager, dbstate, FileSpoolManager, store_error, spool_error) Flusher"

definition collab ::
  "codec \<Rightarrow> (Manager, dbstate, FileSpoolManager, buffer_error, store_error, spool_error) collaborators"
  where
  "collab J =
     \<lparr>DrainBatch_of = DrainBatch, RequeueFront_of = RequeueFront J, StatsPoints_of = StatsPoints,
      InsertSpoolBatch_of = InsertSpoolBatch, AdvanceCheckpoint_of = AdvanceCheckpoint J,
      Compactor_of = Some (CompactCommittedSegments J)\<rparr>"

lemma run_spool_inv: "run_inv J c \<Longrightarrow> spool_inv J c"
  by (simp add: run_inv_def)

lemma frame_next:
  "m' = m\<lparr>sys := sys m'\<rparr> \<Longrightarrow> nextSeq m' = nextSeq m"
  "m' = m\<lparr>sys := sys m', sticks := t\<rparr> \<Longrightarrow> nextSeq m' = nextSeq m"
  by (drule arg_cong [of _ _ nextSeq], simp)+

lemma advance_keeps_number:
  assumes "spool_inv J c" and a: "AdvanceCheckpoint J n c = (res, c')"
  shows "nextSeq c' = nextSeq c"
  using assms(1)
proof (cases rule: Advance_cases [of J c n])
  case (old m)
  then show ?thesis using a frame_next(1) [OF old(5)] by simp
next
  case (refused e m)
  then show ?thesis using a frame_next(2) [OF refused(5)] by simp
next
  case (new d data m)
  then show ?thesis using a frame_next(2) [OF new(8)] by simp
qed

lemma compact_keeps_number:
  assumes "spool_inv J c" and a: "CompactCommittedSegments J c = (k, c')"
  shows "nextSeq c' = nextSeq c"
proof -
  obtain m' where "CompactCommittedSegments J c = (k, m')" and "m' = c\<lparr>sys := sys m'\<rparr>"
    using Compact_ok [OF assms(1)] a by auto
  then show ?thesis using a frame_next(1) [of m' c] by simp
qed

interpretation live: numbered_checkpoint "run_inv J" "committed_seq J" "pending_records J"
  "AdvanceCheckpoint J" "CompactCommittedSegments J" nextSeq for J
proof unfold_locales
  fix c c' :: FileSpoolManager and n cp
  assume r: "run_inv J c" and a: "AdvanceCheckpoint J n c = (Inr cp, c')"
  from disk.advance_ok [OF run_spool_inv [OF r] a] Advance_run [OF r a]
  show "run_inv J c' \<and> committed_seq J c' = max (committed_seq J c) n \<and>
      pending_records J c' = filter (\<lambda>r. n < Seq r) (pending_records J c)" by simp
next
  fix c c' :: FileSpoolManager and n e
  assume r: "run_inv J c" and a: "AdvanceCheckpoint J n c = (Inl e, c')"
  from disk.advance_err [OF run_spool_inv [OF r] a] Advance_run [OF r a]
  show "run_inv J c' \<and> committed_seq J c' = committed_seq J c \<and>
      pending_records J c' = pending_records J c" by simp
next
  fix c c' :: FileSpoolManager and res
  assume r: "run_inv J c" and a: "CompactCommittedSegments J c = (res, c')"
  from disk.compact_law [OF run_spool_inv [OF r] a] Compact_run [OF r a]
  show "run_inv J c' \<and> committed_seq J c' = committed_seq J c \<and>
      pending_records J c' = pending_records J c" by simp
qed (use advance_keeps_number compact_keeps_number run_spool_inv in blast)+

text \<open>
  A process that has just started on an existing spool numbers from 1 again, so only the invariant
  of the files holds of it; the flusher's contract does not need more.
\<close>

interpretation numbered: numbered_checkpoint "spool_inv J" "committed_seq J" "pending_records J"
  "AdvanceCheckpoint J" "CompactCommittedSegments J" nextSeq for J
  by unfold_locales (use advance_keeps_number compact_keeps_number in blast)+

definition dedupe_memory :: "Manager \<Rightarrow> duration \<times> float64 \<times> (string \<rightharpoonup> dedupeState)" where
  "dedupe_memory b = (dedupeTime b, dedupeDistM b, lastByDevice b)"

lemma dropOne_memory: "dedupe_memory (fold dropOne es b) = dedupe_memory b"
  by (simp add: fold_dropOne dedupe_memory_def)

lemma requeueLoop_memory:
  "requeueLoop J now pre rs b = (res, b') \<Longrightarrow> dedupe_memory b' = dedupe_memory b"
  by (induction rs arbitrary: pre b) (fastforce simp: dedupe_memory_def split: sum.splits)+

interpretation ram_memory: remembering_buffer "buffer_inv J" contents DrainBatch "RequeueFront J"
  StatsPoints dedupe_memory for J
proof unfold_locales
  have queue: "dedupe_memory (b\<lparr>queue := q\<rparr>) = dedupe_memory b" for b q
    by (simp add: dedupe_memory_def)
  fix n b rs b' assume "DrainBatch n b = (rs, b')"
  then show "dedupe_memory b' = dedupe_memory b"
    using dropOne_memory queue by (auto simp: DrainBatch_def Let_def split: if_splits)
next
  fix rs b res b' assume "RequeueFront J rs b = (res, b')"
  then show "dedupe_memory b' = dedupe_memory b"
    using requeueLoop_memory [of J _ "[]" rs "b\<lparr>ticks := Suc (ticks b)\<rparr>"]
    by (auto simp: RequeueFront_def dedupe_memory_def Let_def split: if_splits prod.splits sum.splits)
next
  fix b n b' assume "StatsPoints b = (n, b')"
  then show "dedupe_memory b' = dedupe_memory b"
    using StatsPoints_view(2) by (force simp: dedupe_memory_def)
qed

interpretation pipe: flusher "buffer_inv J" contents DrainBatch "RequeueFront J" StatsPoints
  dedupe_memory
  "on_tables db_inv" persisted_in InsertSpoolBatch
  "run_inv J" "committed_seq J" "pending_records J" "AdvanceCheckpoint J" "CompactCommittedSegments J"
  nextSeq for J ..

interpretation boot: flusher "buffer_inv J" contents DrainBatch "RequeueFront J" StatsPoints
  dedupe_memory
  "on_tables db_inv" persisted_in InsertSpoolBatch
  "spool_inv J" "committed_seq J" "pending_records J" "AdvanceCheckpoint J" "CompactCommittedSegments J"
  nextSeq for J ..

lemma collab_ops: "pipe.ops J = collab J"
  by (simp add: collab_def)

definition system_inv :: "codec \<Rightarrow> server_world \<Rightarrow> bool" where
  "system_inv J w \<longleftrightarrow>
     buffer_inv J (buffer w) \<and> db_inv (tables (store w)) \<and> run_inv J (checkpoint w)"

definition disk_inv :: "codec \<Rightarrow> server_world \<Rightarrow> bool" where
  "disk_inv J w \<longleftrightarrow>
     buffer_inv J (buffer w) \<and> db_inv (tables (store w)) \<and> spool_inv J (checkpoint w)"

lemma system_disk_inv: "system_inv J w \<Longrightarrow> disk_inv J w"
  by (simp add: system_inv_def disk_inv_def run_spool_inv)

lemma world_inv_disk: "boot.world_inv J w = disk_inv J w"
  by (simp add: boot.world_inv_def disk_inv_def)

lemma world_inv_system: "pipe.world_inv J w = system_inv J w"
  by (simp add: pipe.world_inv_def system_inv_def)

section \<open>Ingest\<close>

record Dependencies =
  FlushTriggerPoints :: int
  FlushTriggerBytes :: int

record ingestSuccessResponse =
  Source :: string
  Accepted :: int
  Spooled :: int
  Enqueued :: int
  MaxSeq :: uint64

datatype ingest_error = IngestSpool spool_error | IngestBuffer buffer_error

definition set_buffer :: "Manager \<Rightarrow> server \<Rightarrow> server" where
  "set_buffer b f = f\<lparr>world := (world f)\<lparr>buffer := b\<rparr>\<rparr>"

definition set_spool :: "FileSpoolManager \<Rightarrow> server \<Rightarrow> server" where
  "set_spool c f = f\<lparr>world := (world f)\<lparr>checkpoint := c\<rparr>\<rparr>"

definition maybeTriggerPressureFlush :: "Dependencies \<Rightarrow> server \<Rightarrow> server" where
  "maybeTriggerPressureFlush deps f =
     (case ManagerStats (buffer (world f)) of (stats, b) \<Rightarrow>
      let f1 = set_buffer b f in
      if FlushTriggerPoints deps > 0 \<and> TotalBufferedPoints stats \<ge> FlushTriggerPoints deps
      then TriggerFlush f1
      else if FlushTriggerBytes deps > 0 \<and> TotalBufferedBytes stats \<ge> FlushTriggerBytes deps
      then TriggerFlush f1 else f1)"

fun maxSeqLoop :: "uint64 \<Rightarrow> SpoolRecord list \<Rightarrow> uint64" where
  "maxSeqLoop m [] = m"
| "maxSeqLoop m (r # rs) = maxSeqLoop (if Seq r > m then Seq r else m) rs"

definition appendAndEnqueue ::
  "codec \<Rightarrow> Dependencies \<Rightarrow> CanonicalPoint list \<Rightarrow> string \<Rightarrow>
   (server, ingest_error, ingestSuccessResponse) gomethod" where
  "appendAndEnqueue J deps ps source f =
     (case AppendCanonicalPoints J ps (checkpoint (world f)) of
        (Inl e, c) \<Rightarrow> (Inl (IngestSpool e), set_spool c f)
      | (Inr records, c) \<Rightarrow>
          (let f1 = set_spool c f in
           case Enqueue J records (buffer (world f1)) of
             (Inl e, b) \<Rightarrow> (Inl (IngestBuffer e), TriggerFlush (set_buffer b f1))
           | (Inr _, b) \<Rightarrow>
               (Inr \<lparr>Source = source, Accepted = int (length ps), Spooled = int (length records),
                     Enqueued = int (length records), MaxSeq = maxSeqLoop 0 records\<rparr>,
                maybeTriggerPressureFlush deps (set_buffer b f1))))"


section \<open>The invariant of the write path\<close>

text \<open>
  \<open>acked\<close> lists the records of the requests that were answered with success, as the buffer took
  them (near duplicates are marked there). Every one of them is in the database, or was marked,
  or is both in the buffer and in what a replay of the spool would return. The buffer holds
  ascending sequence numbers, all below the next one, and the checkpoint is below it too.
\<close>

definition safe :: "codec \<Rightarrow> server_world \<Rightarrow> SpoolRecord \<Rightarrow> bool" where
  "safe J w q \<longleftrightarrow>
     CheckpointOnly q \<or> persisted_in (store w) q \<or>
     (q \<in> set (contents (buffer w)) \<and> q \<in> set (pending_records J (checkpoint w)))"

definition pipe_inv :: "codec \<Rightarrow> server_world \<Rightarrow> SpoolRecord list \<Rightarrow> bool" where
  "pipe_inv J w acked \<longleftrightarrow>
     system_inv J w \<and>
     sorted_wrt (<) (map Seq (contents (buffer w))) \<and>
     (\<forall>q \<in> set (contents (buffer w)). 0 < Seq q \<and> Seq q < nextSeq (checkpoint w)) \<and>
     committed_seq J (checkpoint w) < nextSeq (checkpoint w) \<and>
     (\<forall>q \<in> set acked. safe J w q)"

lemma pipe_flushed:
  assumes "pipe_inv J w acked" and "pipe.flushed J gone w w'"
  shows "pipe_inv J w' acked"
proof -
  have split: "contents (buffer w) = gone @ contents (buffer w')"
    and pend: "pending_records J (checkpoint w') =
      filter (\<lambda>r. max_seq gone = 0 \<or> max_seq gone < Seq r) (pending_records J (checkpoint w))"
    and handled: "\<forall>r \<in> set gone. CheckpointOnly r \<or> persisted_in (store w') r"
    and kept: "\<forall>r. persisted_in (store w) r \<longrightarrow> persisted_in (store w') r"
    and num: "nextSeq (checkpoint w') = nextSeq (checkpoint w)"
    and com: "committed_seq J (checkpoint w') = max (committed_seq J (checkpoint w)) (max_seq gone)"
    and inv: "system_inv J w'"
    using assms(2) world_inv_system
    by (simp_all add: pipe.flushed_def pipe.queued_def pipe.handled_def)
  have small: "max_seq gone = 0 \<or> max_seq gone \<in> Seq ` set gone"
    using max_seq_in [of gone] by (auto simp: word_gt_0)
  have less: "max_seq gone = 0 \<or> max_seq gone < Seq q" if "q \<in> set (contents (buffer w'))" for q
    using small that assms(1) by (auto simp: pipe_inv_def split sorted_wrt_append)
  have "safe J w' q" if "q \<in> set acked" for q
  proof -
    have "safe J w q" using assms(1) that by (simp add: pipe_inv_def)
    then show ?thesis using handled kept less pend unfolding safe_def split by auto
  qed
  moreover have "0 < nextSeq (checkpoint w)"
    using assms(1) le_less_trans [OF word_zero_le] unfolding pipe_inv_def by blast
  then have "max_seq gone < nextSeq (checkpoint w)"
    using small assms(1) by (auto simp: pipe_inv_def split)
  ultimately show ?thesis
    using assms(1) inv num com by (auto simp: pipe_inv_def split sorted_wrt_append)
qed

lemma pipe_unflushed:
  assumes "pipe_inv J w acked" and "pipe.unflushed J w w'"
  shows "pipe_inv J w' acked"
  using assms world_inv_system unfolding pipe_inv_def safe_def pipe.unflushed_def pipe.queued_def by auto

lemma pipe_passed:
  assumes "pipe_inv J w acked" and "pipe.passed J w res w'"
  shows "pipe_inv J w' acked"
proof -
  obtain gone w1 where "pipe.flushed J gone w w1"
    and "case res of Inl e \<Rightarrow> pipe.unflushed J w1 w' | Inr _ \<Rightarrow> w1 = w'"
    using assms(2) by (auto simp: pipe.passed_def)
  moreover from this have "pipe_inv J w1 acked" using pipe_flushed [OF assms(1)] by blast
  ultimately show ?thesis using pipe_unflushed [of J w1 acked w'] by (auto split: sum.splits)
qed

lemma flushPass_passed:
  assumes "system_inv J w" and "0 < FlushBatchSize cfg" and "flushPass (collab J) cfg mode w = Some (res, w')"
  shows "pipe.passed J w res w'"
  using pipe.flushPass_returns [of J w cfg mode] assms by (auto simp: collab_ops world_inv_system)

lemma flushUntilEmpty_passed:
  assumes "system_inv J w" and "0 < FlushBatchSize cfg" and "flushUntilEmpty (collab J) cfg w = Some (res, w')"
  shows "pipe.passed J w res w'"
  using pipe.flushUntilEmpty_returns [of J w cfg] assms by (auto simp: collab_ops world_inv_system)

lemma flushPass_keeps:
  assumes "pipe_inv J w acked" and "0 < FlushBatchSize cfg" and "flushPass (collab J) cfg mode w = Some (res, w')"
  shows "pipe_inv J w' acked"
  using pipe_passed [OF assms(1) flushPass_passed [OF _ assms(2,3)]] assms(1) by (simp add: pipe_inv_def)

lemma flushUntilEmpty_keeps:
  assumes "pipe_inv J w acked" and "0 < FlushBatchSize cfg" and "flushUntilEmpty (collab J) cfg w = Some (res, w')"
  shows "pipe_inv J w' acked"
  using pipe_passed [OF assms(1) flushUntilEmpty_passed [OF _ assms(2,3)]] assms(1) by (simp add: pipe_inv_def)

lemma record_world [simp]:
  "world (recordFlushResult e f) = world f" "config (recordFlushResult e f) = config f"
  by (simp_all add: recordFlushResult_def Let_def)

lemma run_step_inv:
  assumes "pipe_inv J (world f) acked" and "0 < FlushBatchSize (config f)"
    and "run_step (collab J) arm f = Some f'"
  shows "pipe_inv J (world f') acked \<and> config f' = config f"
  using assms(3) flushPass_keeps [OF assms(1,2)] flushUntilEmpty_keeps [OF assms(1,2)]
  by (cases arm) (fastforce simp: run_step_def split: if_splits option.splits)+


section \<open>A request\<close>

lemma filterLoop_marks:
  "list_all2 (\<lambda>r q. q = r \<or> CheckpointOnly q) rs (fst (filterLoop dt dm c u rs))"
  by (induction dt dm c u rs rule: filterLoop.induct)
    (auto simp: case_prod_beta suppress_def simp del: fun_upd_apply)

lemma filterNearDuplicates_marks:
  "list_all2 (\<lambda>r q. q = r \<or> CheckpointOnly q) rs (fst (filterNearDuplicates m rs))"
  by (simp add: filterNearDuplicates_def filterLoop_marks list_all2_refl)

lemma list_all2_marked_subset:
  "list_all2 (\<lambda>r q. q = r \<or> CheckpointOnly q) rs qs \<Longrightarrow> q \<in> set qs \<Longrightarrow> q \<in> set rs \<or> CheckpointOnly q"
  by (induction rule: list_all2_induct) auto

lemma pressure_frame [simp]:
  "checkpoint (world (maybeTriggerPressureFlush deps f)) = checkpoint (world f)"
  "store (world (maybeTriggerPressureFlush deps f)) = store (world f)"
  "config (maybeTriggerPressureFlush deps f) = config f"
  by (auto simp: maybeTriggerPressureFlush_def set_buffer_def TriggerFlush_def Let_def split: prod.splits)

lemma pressure_buffer:
  "\<exists>t. buffer (world (maybeTriggerPressureFlush deps f)) = (buffer (world f))\<lparr>ticks := t\<rparr>"
proof -
  obtain st b where st: "ManagerStats (buffer (world f)) = (st, b)" by fastforce
  then have "\<exists>t. b = (buffer (world f))\<lparr>ticks := t\<rparr>" using ManagerStats_view [OF st] by blast
  then show ?thesis
    by (auto simp: maybeTriggerPressureFlush_def st set_buffer_def TriggerFlush_def Let_def)
qed

lemma trigger_frame [simp]: "world (TriggerFlush f) = world f" "config (TriggerFlush f) = config f"
  by (simp_all add: TriggerFlush_def)

lemma stamped_props:
  assumes "stamped n recs ps" and "unat n + length ps < 2 ^ 64" and "0 < n"
  shows "sorted_wrt (<) (map Seq recs)" and "\<forall>r \<in> set recs. n \<le> Seq r \<and> 0 < Seq r"
    and "\<forall>r \<in> set recs. Seq r < n + of_nat (length recs)"
proof -
  note S = stamped_seqs [OF assms(1,2)]
  have len: "length recs = length ps" using assms(1) by (rule stamped_length)
  have "sorted_wrt (<) (map unat (map Seq recs))"
    using S by (simp add: comp_def strict_sorted_iff [symmetric] del: sorted_wrt_map)
  then show "sorted_wrt (<) (map Seq recs)" by (simp add: sorted_wrt_map word_less_nat_alt)
  have "unat (Seq r) \<in> set [unat n ..< unat n + length ps]" if "r \<in> set recs" for r
    using that unfolding S [symmetric] by simp
  then have b: "unat n \<le> unat (Seq r) \<and> unat (Seq r) < unat n + length ps" if "r \<in> set recs" for r
    using that by auto
  then show "\<forall>r \<in> set recs. n \<le> Seq r \<and> 0 < Seq r"
    using assms(3) by (fastforce simp: word_le_nat_alt word_less_nat_alt)
  have "unat (n + of_nat (length recs)) = unat n + length ps"
    using assms(2) len by (simp add: unat_word_ariths unat_of_nat)
  with b show "\<forall>r \<in> set recs. Seq r < n + of_nat (length recs)" by (simp add: word_less_nat_alt)
qed

text \<open>What a request leaves in the spool, whether or not it succeeds.\<close>

lemma append_pipe:
  assumes inv: "pipe_inv J w acked" and utf: "\<forall>p \<in> set ps. utf8_point p"
    and room: "unat (nextSeq (checkpoint w)) + length ps < 2 ^ 64"
    and app: "AppendCanonicalPoints J ps (checkpoint w) = (res, c)"
  shows "pipe_inv J (w\<lparr>checkpoint := c\<rparr>) acked \<and>
    (\<forall>recs. res = Inr recs \<longrightarrow>
      set recs \<subseteq> set (pending_records J c) \<and> sorted_wrt (<) (map Seq recs) \<and>
      (\<forall>r \<in> set recs. nextSeq (checkpoint w) \<le> Seq r \<and> 0 < Seq r \<and> Seq r < nextSeq c))"
proof -
  let ?c = "checkpoint w"
  have run: "run_inv J ?c" and com: "committed_seq J ?c < nextSeq ?c"
    using inv by (simp_all add: pipe_inv_def system_inv_def)
  have pos: "0 < nextSeq ?c" using com le_less_trans [OF word_zero_le] by blast
  from Append_ok [OF run utf room] app obtain recs where A: "run_inv J c"
    "log_records J c = log_records J ?c @ recs" "same_config ?c c"
    "stamped (nextSeq ?c) recs (take (length recs) ps)" "nextSeq c = nextSeq ?c + of_nat (length recs)"
    and res: "\<And>rs. res = Inr rs \<Longrightarrow> rs = recs" and len: "length recs \<le> length ps"
    by auto
  have "unat (nextSeq ?c) + length (take (length recs) ps) < 2 ^ 64" using room by simp
  note S = stamped_props [OF A(4) this pos]
  have le: "nextSeq ?c \<le> nextSeq c"
    using room len by (simp add: A(5) word_le_nat_alt unat_word_ariths unat_of_nat)
  have ck: "committed_seq J c = committed_seq J ?c" using A(3) by (rule same_config_committed)
  have pend: "pending_records J c = pending_records J ?c @ recs"
    using S(2) com by (fastforce simp: pending_records_def A(2) ck filter_id_conv)
  have "pipe_inv J (w\<lparr>checkpoint := c\<rparr>) acked"
    using inv A(1) le ck pend unfolding pipe_inv_def safe_def system_inv_def
    by (fastforce intro: less_le_trans)
  with S res pend A(5) show ?thesis by auto
qed


lemma pipe_inv_ticks:
  "pipe_inv J (w\<lparr>buffer := (buffer w)\<lparr>ticks := t\<rparr>\<rparr>) acked = pipe_inv J w acked"
  by (simp add: pipe_inv_def system_inv_def safe_def)

lemma enqueue_pipe:
  assumes inv: "pipe_inv J w acked" and enq: "Enqueue J recs (buffer w) = (Inr u, b)"
    and recs: "set recs \<subseteq> set (pending_records J (checkpoint w))" "sorted_wrt (<) (map Seq recs)"
      "\<forall>r \<in> set recs. 0 < Seq r \<and> Seq r < nextSeq (checkpoint w)"
      "\<forall>q \<in> set (contents (buffer w)). \<forall>r \<in> set recs. Seq q < Seq r"
  shows "pipe_inv J (w\<lparr>buffer := b\<rparr>) (acked @ drop (length (contents (buffer w))) (contents b))"
proof -
  define out where "out = fst (filterNearDuplicates (buffer w) recs)"
  have cont: "contents b = contents (buffer w) @ out"
    using Enqueue_contents [of J recs "buffer w" b] enq by (simp add: out_def)
  have seqs: "map Seq out = map Seq recs" by (simp add: out_def filterNearDuplicates_keeps)
  then have img: "Seq ` set out = Seq ` set recs" by (metis list.set_map)
  have marks: "q \<in> set recs \<or> CheckpointOnly q" if "q \<in> set out" for q
    using list_all2_marked_subset [OF filterNearDuplicates_marks] that by (simp add: out_def)
  have "0 < Seq q \<and> Seq q < nextSeq (checkpoint w)" if "q \<in> set out" for q
    using recs(3) img that by (metis (mono_tags, lifting) image_iff)
  moreover have "Seq x < Seq q" if "x \<in> set (contents (buffer w))" "q \<in> set out" for x q
    using recs(4) img that by (metis (mono_tags, lifting) image_iff)
  moreover have "buffer_inv J b"
    using inv Enqueue_inv [OF _ enq] by (simp add: pipe_inv_def system_inv_def)
  moreover have "sorted_wrt (<) (map Seq out)" using recs(2) seqs by simp
  ultimately show ?thesis
    using inv marks recs(1)
    by (fastforce simp: pipe_inv_def system_inv_def safe_def cont sorted_wrt_append)
qed

text \<open>The records a request acknowledges: what it put at the end of the buffer.\<close>

definition acknowledged :: "server \<Rightarrow> (ingest_error + ingestSuccessResponse) \<Rightarrow> server \<Rightarrow> SpoolRecord list" where
  "acknowledged f res f' =
     (case res of
        Inl e \<Rightarrow> []
      | Inr _ \<Rightarrow> drop (length (contents (buffer (world f)))) (contents (buffer (world f'))))"

lemma appendAndEnqueue_inv:
  assumes inv: "pipe_inv J (world f) acked" and utf: "\<forall>p \<in> set ps. utf8_point p"
    and room: "unat (nextSeq (checkpoint (world f))) + length ps < 2 ^ 64"
    and run: "appendAndEnqueue J deps ps src f = (res, f')"
  shows "pipe_inv J (world f') (acked @ acknowledged f res f') \<and> config f' = config f"
proof -
  obtain r c where app: "AppendCanonicalPoints J ps (checkpoint (world f)) = (r, c)" by fastforce
  note A = append_pipe [OF inv utf room app]
  let ?w = "(world f)\<lparr>checkpoint := c\<rparr>"
  show ?thesis
  proof (cases r)
    case (Inl e)
    with run app A show ?thesis
      by (auto simp: appendAndEnqueue_def set_spool_def acknowledged_def)
  next
    case (Inr recs)
    obtain e b where enq: "Enqueue J recs (buffer (world f)) = (e, b)" by fastforce
    show ?thesis
    proof (cases e)
      case (Inl x)
      with run app Inr enq A Enqueue_error_unchanged [of J recs "buffer (world f)" x b] show ?thesis
        by (auto simp: appendAndEnqueue_def set_spool_def set_buffer_def acknowledged_def Let_def)
    next
      case ok: (Inr u)
      let ?f2 = "set_buffer b (set_spool c f)"
      have "\<forall>q \<in> set (contents (buffer ?w)). \<forall>r \<in> set recs. Seq q < Seq r"
        using A Inr inv by (auto simp: pipe_inv_def intro: less_le_trans)
      with A Inr enqueue_pipe [of J ?w acked recs u b] enq ok
      have P: "pipe_inv J (?w\<lparr>buffer := b\<rparr>) (acked @ drop (length (contents (buffer (world f)))) (contents b))"
        by auto
      have f': "f' = maybeTriggerPressureFlush deps ?f2" and res: "\<exists>a. res = Inr a"
        using run app Inr enq ok by (auto simp: appendAndEnqueue_def set_spool_def Let_def)
      obtain t where t: "buffer (world f') = b\<lparr>ticks := t\<rparr>"
        using pressure_buffer [of deps ?f2] by (auto simp: f' set_buffer_def)
      have w: "world f' = (?w\<lparr>buffer := b\<rparr>)\<lparr>buffer := (buffer (?w\<lparr>buffer := b\<rparr>))\<lparr>ticks := t\<rparr>\<rparr>"
        by (rule world.equality) (use t in \<open>simp_all add: f' set_buffer_def set_spool_def\<close>)
      have "acknowledged f res f' = drop (length (contents (buffer (world f)))) (contents b)"
        using res t by (auto simp: acknowledged_def)
      with P have "pipe_inv J (world f') (acked @ acknowledged f res f')"
        unfolding w pipe_inv_ticks by simp
      then show ?thesis by (simp add: f' set_buffer_def set_spool_def)
    qed
  qed
qed

section \<open>All interleavings of requests and flushes\<close>

text \<open>
  A step of the running server: a request, one arm of the flusher's goroutine, \<^verbatim>\<open>FlushNow\<close>, a
  trigger, the start or the stop of the flusher. The second component collects what has been
  acknowledged.
\<close>

inductive server_step ::
  "codec \<Rightarrow> Dependencies \<Rightarrow> server \<times> SpoolRecord list \<Rightarrow> server \<times> SpoolRecord list \<Rightarrow> bool"
  for J deps where
  request: "\<lbrakk>\<forall>p \<in> set ps. utf8_point p; unat (nextSeq (checkpoint (world f))) + length ps < 2 ^ 64;
      appendAndEnqueue J deps ps src f = (res, f')\<rbrakk> \<Longrightarrow>
    server_step J deps (f, acked) (f', acked @ acknowledged f res f')"
| arm: "run_step (collab J) a f = Some f' \<Longrightarrow> server_step J deps (f, acked) (f', acked)"
| flush_now: "FlushNow (collab J) f = Some (res, f') \<Longrightarrow> server_step J deps (f, acked) (f', acked)"
| trigger: "server_step J deps (f, acked) (TriggerFlush f, acked)"
| start: "server_step J deps (f, acked) (Start f, acked)"
| stop: "server_step J deps (f, acked) (Stop_request f, acked)"

inductive server_reach ::
  "codec \<Rightarrow> Dependencies \<Rightarrow> server \<times> SpoolRecord list \<Rightarrow> server \<times> SpoolRecord list \<Rightarrow> bool"
  for J deps s where
  init: "server_reach J deps s s"
| more: "server_reach J deps s t \<Longrightarrow> server_step J deps t u \<Longrightarrow> server_reach J deps s u"

definition server_inv :: "codec \<Rightarrow> server \<times> SpoolRecord list \<Rightarrow> bool" where
  "server_inv J s \<longleftrightarrow>
     pipe_inv J (world (fst s)) (snd s) \<and> 0 < FlushBatchSize (config (fst s))"

lemma FlushNow_inv:
  assumes "pipe_inv J (world f) acked" and "0 < FlushBatchSize (config f)"
    and "FlushNow (collab J) f = Some (res, f')"
  shows "pipe_inv J (world f') acked \<and> config f' = config f"
  using assms(3) flushPass_keeps [OF assms(1,2)]
  by (fastforce simp: FlushNow_def split: option.splits)

lemma server_step_inv: "server_step J deps s t \<Longrightarrow> server_inv J s \<Longrightarrow> server_inv J t"
proof (induction rule: server_step.induct)
  case (request ps f src res f' acked)
  then show ?case using appendAndEnqueue_inv [of J f acked ps deps src res f'] by (simp add: server_inv_def)
next
  case (arm a f f' acked)
  then show ?case using run_step_inv [of J f acked a f'] by (simp add: server_inv_def)
next
  case (flush_now f res f' acked)
  then show ?case using FlushNow_inv [of J f acked res f'] by (simp add: server_inv_def)
qed (simp_all add: server_inv_def Start_def Stop_request_def)

lemma server_reach_inv: "server_reach J deps s t \<Longrightarrow> server_inv J s \<Longrightarrow> server_inv J t"
  by (induction rule: server_reach.induct) (auto intro: server_step_inv)


section \<open>The start of the process\<close>

definition start_server ::
  "dbstate \<Rightarrow> osys \<Rightarrow> (nat \<Rightarrow> gotime) \<Rightarrow> int \<Rightarrow> ManagerOptions \<Rightarrow> Manager \<Rightarrow> Config \<Rightarrow> server" where
  "start_server d os clk mx opts b cfg =
     New d (NewFileSpoolManagerWithOptions os clk mx opts) b cfg clk"

lemma New_batch [simp]: "0 < FlushBatchSize (config (New d c b cfg clk))"
  by (simp add: New_def Let_def)

lemma start_server_inv:
  assumes "codec_ok J" and "fresh_disk os" and "db_inv (tables d)"
  shows "server_inv J (start_server d os clk mx opts (NewManagerWithDedupe bclk p n t m) cfg, [])"
proof -
  let ?c = "NewFileSpoolManagerWithOptions os clk mx opts"
  have "fs (sys ?c) = Map.empty"
    using assms(2) by (auto simp: fresh_disk_def NewFileSpoolManagerWithOptions_def fs_def fun_eq_iff)
  then have "committed_seq J ?c = 0"
    by (simp add: committed_seq_def current_checkpoint_def zeroCheckpoint_def)
  moreover have "nextSeq ?c = 1" by (simp add: NewFileSpoolManagerWithOptions_def)
  moreover have "contents (NewManagerWithDedupe bclk p n t m) = []"
    by (simp add: contents_def NewManagerWithDedupe_def)
  ultimately show ?thesis
    using New_run [OF assms(1,2), of clk mx opts] NewManager_inv assms(3)
    by (simp add: server_inv_def pipe_inv_def system_inv_def start_server_def)
      (simp add: New_def Let_def NewManager_inv)
qed

section \<open>Properties\<close>


lemma flushPass_boot:
  assumes "disk_inv J w" and "0 < FlushBatchSize cfg" and "flushPass (collab J) cfg mode w = Some (res, w')"
  shows "boot.passed J w res w'"
  using boot.flushPass_returns [of J w cfg mode] assms by (auto simp: collab_ops world_inv_disk)




section \<open>Witnesses\<close>

text \<open>
  The witnesses switch the suppression of near duplicates off, so the great-circle distance, which
  has no executable definition, is never evaluated.
\<close>

declare haversineMeters_def [code del]

definition sample_buffer :: Manager where
  "sample_buffer = NewManagerWithDedupe (\<lambda>_. 7) 10 1000 0 0"

definition sample_server :: server where
  "sample_server =
     start_server sample_db sample_sys (\<lambda>_. 7) 1000 (sample_options ''always'') sample_buffer
       \<lparr>FlushInterval = 0, FlushBatchSize = 0\<rparr>"

definition sample_deps :: Dependencies where
  "sample_deps = \<lparr>FlushTriggerPoints = 0, FlushTriggerBytes = 0\<rparr>"

definition sample_served :: server where
  "sample_served = snd (appendAndEnqueue sample_codec sample_deps sample_points ''owntracks'' sample_server)"

lemma sample_request:
  "fst (appendAndEnqueue sample_codec sample_deps sample_points ''owntracks'' sample_server) =
     Inr \<lparr>Source = ''owntracks'', Accepted = 2, Spooled = 2, Enqueued = 2, MaxSeq = 2\<rparr>"
  "contents (buffer (world sample_server)) = []"
  "contents (buffer (world sample_served)) = sample_records"
  by code_simp+

lemma sample_served_reach:
  "server_reach sample_codec sample_deps (sample_server, []) (sample_served, sample_records)"
proof -
  have n: "nextSeq (checkpoint (world sample_server)) = 1" by code_simp
  obtain a where run: "appendAndEnqueue sample_codec sample_deps sample_points ''owntracks'' sample_server =
      (Inr a, sample_served)"
    using sample_request(1) by (simp add: sample_served_def prod_eq_iff)
  have "server_step sample_codec sample_deps (sample_server, [])
      (sample_served, [] @ acknowledged sample_server (Inr a) sample_served)"
    by (rule server_step.request [OF sample_utf8 _ run]) (simp add: n sample_points_def)
  then show ?thesis
    using server_reach.more [OF server_reach.init] by (simp add: acknowledged_def sample_request)
qed

lemma sample_server_inv: "server_inv sample_codec (sample_server, [])"
  unfolding sample_server_def sample_buffer_def
  by (rule start_server_inv [OF sample_codec_ok sample_fresh sample_db_inv(1)])

lemma sample_served_inv: "system_inv sample_codec (world sample_served)"
  using server_reach_inv [OF sample_served_reach sample_server_inv]
  by (simp add: server_inv_def pipe_inv_def)



definition small_batches :: Config where
  "small_batches = \<lparr>FlushInterval = 1, FlushBatchSize = 2\<rparr>"

lemma sample_pass:
  "case flushPass (collab sample_codec) small_batches True (world sample_served) of
     None \<Rightarrow> False
   | Some (res, w) \<Rightarrow> res = Inr () \<and> contents (buffer w) = []"
  by code_simp



definition sample_stuck :: server_world where
  "sample_stuck = (world sample_served)\<lparr>store := snd (InsertSpoolBatch sample_batch sample_db)\<rparr>"



end
