(* ===== verification/SpoolFaults.thy ===== *)
theory SpoolFaults
  imports SpoolAppend
begin

text \<open>
  What checkpoint and compaction guarantee of the replay, and the cases the spool does not
  cover: a restart numbers from 1 again, an interrupted checkpoint write leaves an empty file,
  and a torn last line makes the whole replay fail.
\<close>

section \<open>Checkpoint and compaction\<close>



text \<open>A disk with one segment of two records, both committed.\<close>

definition sample_disk :: osys where
  "sample_disk =
     \<lparr>dir = Some [(SegmentFileName 1, File (''{0}'' @ [newline] @ ''{1}'' @ [newline]) 8),
                  (checkpointFileName, File (''{1}'' @ [newline]) 4)],
      fault = (\<lambda>_. Ok), calls = 0\<rparr>"

definition sample_reopened :: FileSpoolManager where
  "sample_reopened =
     NewFileSpoolManagerWithOptions sample_disk (\<lambda>_. 7) 1000 (sample_options ''always'')"

lemma sample_reopened_inv: "spool_inv sample_codec sample_reopened"
proof -
  let ?b = "''{0}'' @ [newline] @ ''{1}'' @ [newline]"
  have f: "fs (sys sample_reopened) =
      [SegmentFileName 1 \<mapsto> File ?b 8, checkpointFileName \<mapsto> File (''{1}'' @ [newline]) 4]"
    by (auto simp: sample_reopened_def NewFileSpoolManagerWithOptions_def sample_disk_def fs_def
        fun_eq_iff)
  have d: "decodeLines sample_codec (readLines ?b) = Inr sample_records" by code_simp
  have c: "DeserializeCheckpoint sample_codec (''{1}'' @ [newline]) =
      Inr \<lparr>LastCommittedSeq = 2, UpdatedAtUTC = 7\<rparr>" by code_simp
  have "healthy (sys sample_reopened)" "wf_dir (sys sample_reopened)"
    by (simp_all add: sample_reopened_def NewFileSpoolManagerWithOptions_def sample_disk_def
        healthy_def wf_dir_def)
  moreover have "canonical_names (fs (sys sample_reopened))"
    unfolding f by (auto simp: canonical_names_def split: if_splits)
  moreover have "segments_readable sample_codec (fs (sys sample_reopened))"
    unfolding f segments_readable_def using d by (auto simp: whole_lines_def split: if_splits)
  moreover have "checkpoint_readable sample_codec (fs (sys sample_reopened))"
    unfolding f checkpoint_readable_def using c by auto
  ultimately show ?thesis by (simp add: spool_inv_def sample_codec_ok)
qed



section \<open>Restart\<close>

text \<open>Operations that leave \<open>nextSeq\<close> alone, whatever the operating system answers.\<close>

definition keeps_seq :: "'a spool_op \<Rightarrow> bool" where
  "keeps_seq op \<longleftrightarrow> (\<forall>m. nextSeq (snd (op m)) = nextSeq m)"

lemma seq_kept_at: "keeps_seq op \<Longrightarrow> op m = (r, m') \<Longrightarrow> nextSeq m' = nextSeq m"
  by (metis keeps_seq_def snd_conv)

lemma seq_keptI: "(\<And>m r m'. op m = (r, m') \<Longrightarrow> nextSeq m' = nextSeq m) \<Longrightarrow> keeps_seq op"
  unfolding keeps_seq_def by (metis prod.collapse)

lemma seq_kept_bindE: "keeps_seq op \<Longrightarrow> (\<And>x. keeps_seq (f x)) \<Longrightarrow> keeps_seq (bindE op f)"
  unfolding keeps_seq_def bindE_def by (auto split: prod.splits sum.splits) (metis snd_conv)+

lemma seq_kept_basic:
  "keeps_seq (io f act)" "keeps_seq (returnE x)" "keeps_seq nowFn"
  "(\<And>m. nextSeq (f' m) = nextSeq m) \<Longrightarrow> keeps_seq (modifyE f')"
  by (auto simp: keeps_seq_def io_def nowFn_def modifyE_def split: prod.splits sum.splits)

lemma seq_kept_orClose: "keeps_seq act \<Longrightarrow> keeps_seq (orCloseFile h act)"
  by (rule seq_keptI) (auto simp: orCloseFile_def dest!: seq_kept_at split: prod.splits sum.splits)

lemma seq_kept_closeHandle: "keeps_seq (closeHandle h)"
  by (rule seq_keptI)
    (auto simp: closeHandle_def dest!: seq_kept_at [OF seq_kept_basic(1)] split: prod.splits sum.splits)

lemma seq_kept_if: "keeps_seq a \<Longrightarrow> keeps_seq b \<Longrightarrow> keeps_seq (if c then a else b)"
  by simp

lemmas seq_kept_intros = seq_kept_bindE seq_kept_basic seq_kept_orClose seq_kept_closeHandle seq_kept_if

lemma seq_kept_closeActive: "keeps_seq (closeActiveLocked b)"
proof -
  have "keeps_seq (bindE (if b \<and> bytesSinceSync m > 0 then syncActive h ErrSyncBeforeClose
      else returnE ()) (\<lambda>_. bindE (closeHandle h) (\<lambda>_. modifyE (\<lambda>m. m\<lparr>activeFile := None,
        activeSegmentStart := 0, activeSegmentSize := 0, bytesSinceSync := 0\<rparr>))))" for h m
    unfolding syncActive_def by (intro seq_kept_intros) simp
  from seq_kept_at [OF this] show ?thesis
    by (intro seq_keptI) (simp add: closeActiveLocked_def split: option.splits)
qed

lemma seq_kept_ensure: "keeps_seq (ensureSegmentForWriteLocked n k)"
proof -
  have "keeps_seq (bindE (closeActiveLocked True) (\<lambda>_. openNewSegmentLocked n))"
    unfolding openNewSegmentLocked_def by (intro seq_kept_intros seq_kept_closeActive) simp_all
  then show ?thesis by (auto simp: keeps_seq_def ensureSegmentForWriteLocked_def)
qed

lemma seq_kept_write: "keeps_seq (writeActive n line)"
  by (rule seq_keptI)
    (auto simp: writeActive_def dest!: seq_kept_at [OF seq_kept_basic(1)] split: option.splits)

lemma seq_kept_should: "keeps_seq shouldFSyncLocked"
  by (auto simp: keeps_seq_def shouldFSyncLocked_def bindE_def nowFn_def)

lemma seq_kept_fsync: "keeps_seq fsyncActive"
proof -
  have "keeps_seq (bindE (syncActive h ErrFsyncSegment) (\<lambda>_.
          bindE nowFn (\<lambda>now. modifyE (\<lambda>m. m\<lparr>bytesSinceSync := 0, lastSyncAt := now\<rparr>))))" for h
    unfolding syncActive_def by (intro seq_kept_intros) simp
  then show ?thesis by (auto simp: keeps_seq_def fsyncActive_def split: option.split)
qed

lemma appendPoint_stamps:
  assumes "appendPoint J p m = (Inr r, m')"
  shows "r = newRecord (nextSeq m) (ReceivedAt r) p" and "nextSeq m' = nextSeq m + 1"
proof -
  let ?r = "newRecord (nextSeq m) (sclock m (sticks m)) p"
  from assms obtain line s1 s2 b s3 s4 where
    1: "ensureSegmentForWriteLocked (Seq ?r) (int (length line)) (m\<lparr>sticks := Suc (sticks m)\<rparr>) =
      (Inr (), s1)" and
    2: "writeActive (Seq ?r) line s1 = (Inr (), s2)" and
    3: "shouldFSyncLocked (s2\<lparr>activeSegmentSize := activeSegmentSize s2 + int (length line),
      bytesSinceSync := bytesSinceSync s2 + int (length line)\<rparr>) = (Inr b, s3)" and
    4: "(if b then fsyncActive else returnE ()) s3 = (Inr (), s4)" and
    5: "m' = s4\<lparr>nextSeq := nextSeq s4 + 1\<rparr>" "r = ?r"
    by (auto simp: appendPoint_def nowFn_def Let_def liftE_def modifyE_def bindE_eq_Inr
        split: sum.splits)
  have "keeps_seq (if b then fsyncActive else returnE ())"
    by (intro seq_kept_intros seq_kept_fsync)
  from seq_kept_at [OF this 4] seq_kept_at [OF seq_kept_should 3] seq_kept_at [OF seq_kept_write 2]
    seq_kept_at [OF seq_kept_ensure 1] 5(1)
  show "nextSeq m' = nextSeq m + 1" by simp
  show "r = newRecord (nextSeq m) (ReceivedAt r) p" by (simp add: 5(2))
qed

lemma appendLoop_stamps:
  "appendLoop J acc ps m = (Inr out, m') \<Longrightarrow>
   \<exists>recs. out = acc @ recs \<and> stamped (nextSeq m) recs ps"
proof (induction ps arbitrary: acc m)
  case (Cons p ps)
  then obtain r m1 where r: "appendPoint J p m = (Inr r, m1)"
    "appendLoop J (acc @ [r]) ps m1 = (Inr out, m')"
    by (auto simp: bindE_eq_Inr)
  from Cons.IH [OF r(2)] obtain recs where "out = acc @ r # recs" "stamped (nextSeq m1) recs ps"
    by auto
  with appendPoint_stamps [OF r(1)] show ?case by (intro exI [of _ "r # recs"]) simp
qed simp

lemma Append_stamps:
  assumes "AppendCanonicalPoints J ps m = (Inr recs, m')"
  shows "stamped (nextSeq m) recs ps"
proof (cases "ps = []")
  case False
  from assms False obtain m1 where "io (\<lambda>_. ErrEnsureSpoolDir) os_MkdirAll m = (Inr (), m1)"
    "appendLoop J [] ps m1 = (Inr recs, m')"
    by (auto simp: AppendCanonicalPoints_def bindE_eq_Inr split: if_splits)
  with seq_kept_at [OF seq_kept_basic(1)] appendLoop_stamps show ?thesis by fastforce
qed (use assms in \<open>simp add: AppendCanonicalPoints_def\<close>)

lemma replayLoop_above:
  "replayLoop J ck out ss m = (Inr res, m') \<Longrightarrow> \<forall>r \<in> set res. r \<in> set out \<or> ck < Seq r"
proof (induction ss arbitrary: out m)
  case (Cons s ss)
  then obtain rs m1 where "replayLoop J ck (out @ filter (\<lambda>r. ck < Seq r) rs) ss m1 = (Inr res, m')"
    by (auto simp: bindE_eq_Inr)
  from Cons.IH [OF this] show ?case by auto
qed simp

text \<open>
  Claim C36. The counter is not recovered from disk: the records a new process appends are numbered
  from 1 again, so when the checkpoint of the previous run is at or above them, a later replay
  returns none of the records it has acknowledged.
\<close>

theorem restart_reuses_sequence_numbers:
  assumes "m = NewFileSpoolManagerWithOptions s clk mx opts"
    and "AppendCanonicalPoints J ps m = (Inr recs, m1)" and "length ps < 2 ^ 64 - 1"
    and "readCheckpointLocked J m1 = (Inr c, m2)" and "length ps \<le> unat (LastCommittedSeq c)"
    and "ReplayAfterCheckpoint J m1 = (Inr out, m3)"
  shows "map (\<lambda>r. unat (Seq r)) recs = [1 ..< 1 + length ps] \<and> set recs \<inter> set out = {}"
proof -
  have "nextSeq m = 1" by (simp add: assms(1) NewFileSpoolManagerWithOptions_def)
  with stamped_seqs [OF Append_stamps [OF assms(2)]] assms(3)
  have seqs: "map (\<lambda>r. unat (Seq r)) recs = [1 ..< 1 + length ps]" by simp
  obtain ss m4 where "replayLoop J (LastCommittedSeq c) [] ss m4 = (Inr out, m3)"
    using assms(4,6) by (auto simp: ReplayAfterCheckpoint_def bindE_eq_Inr)
  from replayLoop_above [OF this] have "\<forall>r \<in> set out. LastCommittedSeq c < Seq r" by simp
  moreover have "Seq r \<le> LastCommittedSeq c" if "r \<in> set recs" for r
  proof -
    have "unat (Seq r) \<in> set (map (\<lambda>r. unat (Seq r)) recs)" using that by simp
    then show ?thesis using assms(5) unfolding seqs by (auto simp: word_le_nat_alt)
  qed
  ultimately show ?thesis using seqs by force
qed

theorem restart_reuses_sequence_numbers_witness:
  "\<exists>recs m1 out m3. AppendCanonicalPoints sample_codec sample_points sample_reopened = (Inr recs, m1) \<and>
    ReplayAfterCheckpoint sample_codec m1 = (Inr out, m3) \<and> recs \<noteq> [] \<and> set recs \<inter> set out = {}"
proof -
  let ?m1 = "snd (AppendCanonicalPoints sample_codec sample_points sample_reopened)"
  have *: "fst (AppendCanonicalPoints sample_codec sample_points sample_reopened) = Inr sample_records"
    "fst (readCheckpointLocked sample_codec ?m1) = Inr \<lparr>LastCommittedSeq = 2, UpdatedAtUTC = 7\<rparr>"
    "fst (ReplayAfterCheckpoint sample_codec ?m1) = Inr []"
    by code_simp+
  then have a: "AppendCanonicalPoints sample_codec sample_points sample_reopened = (Inr sample_records, ?m1)"
    and c: "readCheckpointLocked sample_codec ?m1 = (Inr \<lparr>LastCommittedSeq = 2, UpdatedAtUTC = 7\<rparr>,
      snd (readCheckpointLocked sample_codec ?m1))"
    and r: "ReplayAfterCheckpoint sample_codec ?m1 = (Inr [], snd (ReplayAfterCheckpoint sample_codec ?m1))"
    by (metis prod.collapse)+
  have "length sample_points < 2 ^ 64 - 1" "length sample_points \<le>
      unat (LastCommittedSeq \<lparr>LastCommittedSeq = 2, UpdatedAtUTC = 7\<rparr>)"
    by (simp_all add: sample_points_def)
  from restart_reuses_sequence_numbers [OF sample_reopened_def a this(1) c this(2) r]
  show ?thesis using a r by (intro exI conjI) (auto simp: sample_records_def)
qed

section \<open>An interrupted checkpoint write\<close>

lemma fault_calls [simp]:
  "fault (tick s) = fault s" "calls (tick s) = Suc (calls s)"
  "fault (ensure_dir s) = fault s" "calls (ensure_dir s) = calls s"
  "fault (put_file n nd s) = fault s" "calls (put_file n nd s) = calls s"
  by (simp_all add: tick_def ensure_dir_def put_file_def split: option.split)

lemma fs_fault [simp]: "fs (s\<lparr>fault := f\<rparr>) = fs s"
  by (simp add: fs_def fun_eq_iff)

lemma empty_checkpoint_read:
  assumes "healthy (sys m)" and "fs (sys m) checkpointFileName = Some (File [] k)"
  shows "fst (readCheckpointLocked J m) = Inl (ErrCodec ErrCheckpointEmptyData)"
  using assms
  by (simp add: readCheckpointLocked_def os_ReadFile_healthy liftE_def DeserializeCheckpoint_def)

lemma bindE_fst_Inl: "fst (m s) = Inl e \<Longrightarrow> fst (bindE m f s) = Inl e"
  by (auto simp: bindE_def split: prod.splits)



section \<open>A torn last line\<close>

lemma readSegment_at:
  assumes "healthy (sys m)" and "fs (sys m) (SegmentFileName s) = Some (File b k)"
  shows "readSegmentFile J (SegmentFileName s) m =
    (case decodeLines J (readLines b) of Inl e \<Rightarrow> Inl (ErrCodec e) | Inr rs \<Rightarrow> Inr rs, ticked m)"
  using assms
  by (simp add: readSegmentFile_def bindE_def io_def os_ReadFile_healthy liftE_def split: sum.split)

lemma replayLoop_error:
  assumes "healthy (sys m)" and "s \<in> set ss"
    and "\<forall>t \<in> set ss. \<exists>b k. fs (sys m) (SegmentFileName t) = Some (File b k) \<and>
      (if t = s then decodeLines J (readLines b) = Inl e
       else \<exists>rs. decodeLines J (readLines b) = Inr rs)"
  shows "fst (replayLoop J ck out ss m) = Inl (ErrCodec e)"
  using assms
proof (induction ss arbitrary: out m)
  case (Cons t ss)
  obtain b k where b: "fs (sys m) (SegmentFileName t) = Some (File b k)"
    "if t = s then decodeLines J (readLines b) = Inl e else \<exists>rs. decodeLines J (readLines b) = Inr rs"
    using Cons.prems(3) by auto
  note R = readSegment_at [OF Cons.prems(1) b(1), of J]
  show ?case
  proof (cases "t = s")
    case True
    then show ?thesis using b(2) R by simp
  next
    case False
    then obtain rs where "decodeLines J (readLines b) = Inr rs" using b(2) by auto
    then have "replayLoop J ck out (t # ss) m =
        replayLoop J ck (out @ filter (\<lambda>r. Seq r > ck) rs) ss (ticked m)"
      using R by simp
    moreover have "fst (replayLoop J ck (out @ filter (\<lambda>r. Seq r > ck) rs) ss (ticked m)) =
        Inl (ErrCodec e)"
      using Cons.IH [of "ticked m"] Cons.prems False by simp
    ultimately show ?thesis by simp
  qed
qed simp

text \<open>
  One torn line is enough to lose access to the whole spool: when a crash cuts the last
  segment in the middle of a record and the fragment does not decode, the replay of the new
  process fails as a whole, whatever the other segments hold.
\<close>

theorem torn_line_blocks_replay:
  assumes "spool_inv J m" and "fs (sys m) (SegmentFileName s) = Some (File (b @ frag @ rest) k)"
    and "whole_lines b" and "frag \<noteq> []" and "newline \<notin> set frag" and "DeserializeRecord J frag = Inl e"
    and "k \<le> length (b @ frag)" and "kept (SegmentFileName s) = length (b @ frag)"
    and "\<forall>n b k. n \<noteq> SegmentFileName s \<longrightarrow> fs (sys m) n = Some (File b k) \<longrightarrow> length b \<le> kept n"
  shows "fst (ReplayAfterCheckpoint J (restart_after_crash kept m clk mx opts)) = Inl (ErrCodec e)"
proof -
  note I = spool_invD [OF assms(1)]
  let ?m2 = "restart_after_crash kept m clk mx opts"
  have f: "fs (sys ?m2) n = map_option (crash_node (kept n)) (fs (sys m) n)" for n
    by (simp add: fs_crash)
  have whole: "fs (sys ?m2) n = Some (File b (length b))"
    if "n \<noteq> SegmentFileName s" "fs (sys m) n = Some (File b k)" for n b k
    using assms(9) that by (fastforce simp: fs_crash crash_node_def Let_def max_def)
  have cut: "fs (sys ?m2) (SegmentFileName s) = Some (File (b @ frag) (length (b @ frag)))"
    using assms(2,7,8) by (simp add: fs_crash crash_node_def Let_def max_def)
  obtain rs where "decodeLines J (readLines (b @ frag @ rest)) = Inr rs"
    using I(5) assms(2) unfolding segments_readable_def by fastforce
  then obtain rs0 where "decodeLines J (readLines b) = Inr rs0"
    by (auto simp: readLines_append [OF assms(3)] decodeLines_append split: sum.splits)
  then have torn: "decodeLines J (readLines (b @ frag)) = Inl e"
    using assms(6) by (simp add: readLines_append [OF assms(3)] decodeLines_append
        readLines_torn [OF assms(5,4)])
  have set: "seg_set ?m2 = seg_set m" by (simp add: seg_set_def fs_crash)
  have mem: "\<forall>t \<in> set (sorted_list_of_set (seg_set m)). \<exists>b k.
      fs (sys ?m2) (SegmentFileName t) = Some (File b k) \<and>
      (if t = s then decodeLines J (readLines b) = Inl e
       else \<exists>rs. decodeLines J (readLines b) = Inr rs)"
  proof
    fix t assume "t \<in> set (sorted_list_of_set (seg_set m))"
    then have t: "t \<in> seg_set m" by simp
    show "\<exists>b k. fs (sys ?m2) (SegmentFileName t) = Some (File b k) \<and>
      (if t = s then decodeLines J (readLines b) = Inl e
       else \<exists>rs. decodeLines J (readLines b) = Inr rs)"
    proof (cases "t = s")
      case False
      obtain b k where "fs (sys m) (SegmentFileName t) = Some (File b k)"
        "decodeLines J (readLines b) = Inr (seg_records J m t)"
        using spool_inv_segment [OF assms(1) t] by metis
      with whole [of "SegmentFileName t" b k] False show ?thesis by auto
    qed (use cut torn in auto)
  qed
  have ck: "\<exists>c. readCheckpointLocked J ?m2 = (Inr c, ticked ?m2)"
  proof (cases "fs (sys m) checkpointFileName")
    case (Some nd)
    then obtain b k c where "nd = File b k" "DeserializeCheckpoint J b = Inr c"
      using I(6) unfolding checkpoint_readable_def by blast
    with Some whole [of checkpointFileName b k] I(2) show ?thesis
      by (simp add: readCheckpointLocked_def os_ReadFile_healthy liftE_def)
  qed (use I(2) f in \<open>simp add: readCheckpointLocked_def os_ReadFile_healthy\<close>)
  have "segment_starts (dir_entries (sys ?m2)) = sorted_list_of_set (seg_set ?m2)"
    unfolding seg_set_def
  proof (rule segment_starts_entries)
    show "wf_dir (sys ?m2)" using I(3) by simp
    show "canonical_names (fs (sys ?m2))"
      using I(4) by (auto simp: canonical_names_def fs_crash)
    show "\<forall>n nd. fs (sys ?m2) (SegmentFileName n) = Some nd \<longrightarrow> nd \<noteq> Directory"
      using I(5) by (fastforce simp: segments_readable_def fs_crash)
  qed
  moreover have "dir (sys ?m2) \<noteq> None" using fs_Some_dir [OF cut] .
  ultimately have ls: "listSegmentStartsLocked (ticked ?m2) =
      (Inr (sorted_list_of_set (seg_set m)), ticked (ticked ?m2))"
    using I(2) set by (auto simp: listSegmentStartsLocked_def os_ReadDir_healthy dir_entries_def)
  have "s \<in> seg_set m" using assms(2) by (simp add: seg_set_def)
  then have "fst (replayLoop J c [] (sorted_list_of_set (seg_set m)) (ticked (ticked ?m2))) =
      Inl (ErrCodec e)" for c
    using replayLoop_error [of "ticked (ticked ?m2)" s "sorted_list_of_set (seg_set m)" J e] mem I(2)
    by simp
  with ck ls show ?thesis by (auto simp: ReplayAfterCheckpoint_def)
qed

theorem torn_line_blocks_replay_witness:
  "fst (ReplayAfterCheckpoint sample_codec (restart_after_crash
     (\<lambda>n. if n = SegmentFileName 1 then 6 else 100) (sample_full ''balanced'') (\<lambda>_. 9) 1000
     (sample_options ''balanced''))) = Inl (ErrCodec ErrRecordInvalid)"
proof -
  have i: "spool_inv sample_codec (sample_full ''balanced'')"
    using sample_full_run(2) by (simp add: run_inv_def)
  have f: "fs (sys (sample_full ''balanced'')) (SegmentFileName 1) =
      Some (File ((''{0}'' @ [newline]) @ ''{1'' @ (''}'' @ [newline])) 0)"
    and d: "DeserializeRecord sample_codec ''{1'' = Inl ErrRecordInvalid"
    and dir: "map_option (map fst) (dir (sys (sample_full ''balanced''))) = Some [SegmentFileName 1]"
    by code_simp+
  have "fs (sys (sample_full ''balanced'')) n = None" if "n \<noteq> SegmentFileName 1" for n
    using dir that by (auto simp: fs_def)
  then show ?thesis
    by (intro torn_line_blocks_replay [OF i f _ _ _ d]) (simp_all add: whole_lines_def)
qed

end
