(* ===== verification/Recovery.thy ===== *)
theory Recovery
  imports Pipeline SpoolFaults
begin

text \<open>
  \<^verbatim>\<open>internal/tasks/startup_recovery.go\<close>: at start the records newer than the checkpoint are read
  back from the spool, enqueued in chunks (with a flush when the buffer is full) and flushed.
  The nil checks of the source concern pointers that the program never passes as nil.
\<close>

record RecoveryConfig =
  EnqueueBatchSize :: int

record RecoveryResult =
  CheckpointSeq :: uint64
  Replayed :: int
  REnqueued :: int

datatype recovery_error =
    RecReadCheckpoint spool_error
  | RecReplay spool_error
  | RecFlushDuring server_error
  | RecEnqueueAfterFlush buffer_error
  | RecEnqueue buffer_error
  | RecFinalFlush server_error

text \<open>
  One chunk: \<^const>\<open>None\<close> would mean that \<^verbatim>\<open>FlushNow\<close> does not return.
\<close>

definition enqueueChunk ::
  "codec \<Rightarrow> SpoolRecord list \<Rightarrow> server \<Rightarrow> ((recovery_error + unit) \<times> server) option" where
  "enqueueChunk J chunk f =
     (case Enqueue J chunk (buffer (world f)) of
        (Inr _, b) \<Rightarrow> Some (Inr (), set_buffer b f)
      | (Inl e, b) \<Rightarrow>
          (let f1 = set_buffer b f in
           if e = ErrMaxPointsExceeded \<or> e = ErrMaxBytesExceeded then
             (case FlushNow (collab J) f1 of
                None \<Rightarrow> None
              | Some (Inl flushErr, f2) \<Rightarrow> Some (Inl (RecFlushDuring flushErr), f2)
              | Some (Inr _, f2) \<Rightarrow>
                  (case Enqueue J chunk (buffer (world f2)) of
                     (Inl retryErr, b2) \<Rightarrow> Some (Inl (RecEnqueueAfterFlush retryErr), set_buffer b2 f2)
                   | (Inr _, b2) \<Rightarrow> Some (Inr (), set_buffer b2 f2)))
           else Some (Inl (RecEnqueue e), f1)))"

text \<open>
  The loop over the chunks. A chunk size of zero would never advance \<^verbatim>\<open>start\<close>: the loop would not
  end.
\<close>

function recoverLoop ::
  "codec \<Rightarrow> nat \<Rightarrow> int \<Rightarrow> SpoolRecord list \<Rightarrow> server \<Rightarrow> ((recovery_error + int) \<times> server) option" where
  "recoverLoop J n enqueued rs f =
     (if rs = [] then Some (Inr enqueued, f)
      else if n = 0 then None
      else case enqueueChunk J (take n rs) f of
             None \<Rightarrow> None
           | Some (Inl e, f1) \<Rightarrow> Some (Inl e, f1)
           | Some (Inr _, f1) \<Rightarrow>
               recoverLoop J n (enqueued + int (length (take n rs))) (drop n rs) f1)"
  by pat_completeness auto
termination
  by (relation "measure (\<lambda>(J, n, k, rs, f). length rs)") auto

declare recoverLoop.simps [simp del]

text \<open>What follows the two reads: the loop over the chunks and the final flush.\<close>

definition recoverRecords ::
  "codec \<Rightarrow> int \<Rightarrow> uint64 \<Rightarrow> SpoolRecord list \<Rightarrow> server \<Rightarrow> ((recovery_error + RecoveryResult) \<times> server) option"
  where
  "recoverRecords J batchSize ck replayed f2 =
     (if replayed = [] then Some (Inr \<lparr>CheckpointSeq = ck, Replayed = 0, REnqueued = 0\<rparr>, f2)
      else case recoverLoop J (nat batchSize) 0 replayed f2 of
        None \<Rightarrow> None
      | Some (Inl e, f3) \<Rightarrow> Some (Inl e, f3)
      | Some (Inr enqueued, f3) \<Rightarrow>
          (case FlushNow (collab J) f3 of
             None \<Rightarrow> None
           | Some (Inl e, f4) \<Rightarrow> Some (Inl (RecFinalFlush e), f4)
           | Some (Inr _, f4) \<Rightarrow>
               Some (Inr \<lparr>CheckpointSeq = ck, Replayed = int (length replayed), REnqueued = enqueued\<rparr>, f4)))"

definition RecoverFromSpool ::
  "codec \<Rightarrow> RecoveryConfig \<Rightarrow> server \<Rightarrow> ((recovery_error + RecoveryResult) \<times> server) option" where
  "RecoverFromSpool J cfg f =
     (let batchSize = (if EnqueueBatchSize cfg \<le> 0 then 64 else EnqueueBatchSize cfg) in
      case ReadCheckpoint J (checkpoint (world f)) of
        (Inl e, c) \<Rightarrow> Some (Inl (RecReadCheckpoint e), set_spool c f)
      | (Inr ck, c) \<Rightarrow>
          (let f1 = set_spool c f in
           case ReplayAfterCheckpoint J (checkpoint (world f1)) of
             (Inl e, c2) \<Rightarrow> Some (Inl (RecReplay e), set_spool c2 f1)
           | (Inr replayed, c2) \<Rightarrow>
               recoverRecords J batchSize (LastCommittedSeq ck) replayed (set_spool c2 f1)))"

section \<open>Where a replayed record can be\<close>

text \<open>
  In the database, in the buffer, or suppressed: close to another replayed record of the same
  device.
\<close>

definition recovered :: "duration \<Rightarrow> float64 \<Rightarrow> SpoolRecord set \<Rightarrow> server_world \<Rightarrow> SpoolRecord \<Rightarrow> bool" where
  "recovered dt dm S w r \<longleftrightarrow>
     persisted_in (store w) r \<or> r \<in> set (contents (buffer w)) \<or>
     (\<exists>p \<in> S. RecDeviceID p = RecDeviceID r \<and> near_to dt dm (dedupe_of p) r)"

text \<open>
  During the loop: \<open>S\<close> is the whole replay, \<open>done\<close> the part already enqueued; what the buffer
  remembers of each device comes from the replay.
\<close>

definition recovery_inv ::
  "codec \<Rightarrow> duration \<Rightarrow> float64 \<Rightarrow> SpoolRecord set \<Rightarrow> SpoolRecord set \<Rightarrow> server \<Rightarrow> bool" where
  "recovery_inv J dt dm S finished f \<longleftrightarrow>
     disk_inv J (world f) \<and> 0 < FlushBatchSize (config f) \<and>
     dedupeTime (buffer (world f)) = dt \<and> dedupeDistM (buffer (world f)) = dm \<and>
     (\<forall>k prev. lastByDevice (buffer (world f)) k = Some prev \<longrightarrow>
        (\<exists>p \<in> S. RecDeviceID p = k \<and> prev = dedupe_of p)) \<and>
     (\<forall>r \<in> finished. \<not> CheckpointOnly r \<longrightarrow> recovered dt dm S (world f) r)"

lemma FlushNow_returns:
  assumes "disk_inv J (world f)" and "0 < FlushBatchSize (config f)"
  shows "\<exists>res f'. FlushNow (collab J) f = Some (res, f')"
  using boot.flushPass_returns [of J "world f" "config f" True] assms
  by (auto simp: FlushNow_def collab_ops world_inv_disk)

lemma passed_frame:
  assumes "boot.passed J w res w'"
  shows "disk_inv J w'" and "dedupe_memory (buffer w') = dedupe_memory (buffer w)"
    and "\<exists>gone. contents (buffer w) = gone @ contents (buffer w') \<and>
           (\<forall>r \<in> set gone. CheckpointOnly r \<or> persisted_in (store w') r)"
    and "\<forall>r. persisted_in (store w) r \<longrightarrow> persisted_in (store w') r"
proof -
  obtain gone w1 where f: "boot.flushed J gone w w1"
    and u: "case res of Inl e \<Rightarrow> boot.unflushed J w1 w' | Inr _ \<Rightarrow> w1 = w'"
    using assms by (auto simp: boot.passed_def)
  note D = boot.flushed_def boot.unflushed_def boot.queued_def boot.handled_def world_inv_disk
  show "disk_inv J w'" and "dedupe_memory (buffer w') = dedupe_memory (buffer w)"
    and "\<forall>r. persisted_in (store w) r \<longrightarrow> persisted_in (store w') r"
    using f u by (cases res; auto simp: D)+
  show "\<exists>gone. contents (buffer w) = gone @ contents (buffer w') \<and>
      (\<forall>r \<in> set gone. CheckpointOnly r \<or> persisted_in (store w') r)"
    by (rule exI [of _ gone], cases res) (use f u in \<open>auto simp: D\<close>)
qed

lemma FlushNow_recovery:
  assumes "recovery_inv J dt dm S finished f" and "FlushNow (collab J) f = Some (res, f')"
  shows "recovery_inv J dt dm S finished f'"
proof -
  have inv: "disk_inv J (world f)" "0 < FlushBatchSize (config f)"
    using assms(1) by (simp_all add: recovery_inv_def)
  obtain w' where w': "flushPass (collab J) (config f) True (world f) = Some (res, w')"
    and f': "world f' = w'" "config f' = config f"
    using assms(2) by (auto simp: FlushNow_def split: option.splits)
  note P = passed_frame [OF flushPass_boot [OF inv w']]
  have "recovered dt dm S (world f') r" if "recovered dt dm S (world f) r" "\<not> CheckpointOnly r" for r
    using that P(3,4) f' unfolding recovered_def by auto
  then show ?thesis
    using assms(1) P(1,2) f' unfolding recovery_inv_def dedupe_memory_def by auto
qed


section \<open>One chunk\<close>

lemma filterLoop_memory:
  "snd (filterLoop dt dm c u rs) k = Some prev \<Longrightarrow>
   u k = Some prev \<or> (\<exists>r \<in> set rs. RecDeviceID r = k \<and> prev = dedupe_of r)"
  by (induction dt dm c u rs rule: filterLoop.induct) (auto simp: case_prod_beta split: if_splits)

lemma filterNearDuplicates_memory:
  "snd (filterNearDuplicates m rs) k = Some prev \<Longrightarrow>
   \<exists>r \<in> set rs. RecDeviceID r = k \<and> prev = dedupe_of r"
  by (auto simp: filterNearDuplicates_def dest: filterLoop_memory split: if_splits)

lemma Enqueue_memory:
  assumes "Enqueue J rs m = (Inr u, m')"
  shows "dedupeTime m' = dedupeTime m" and "dedupeDistM m' = dedupeDistM m"
    and "lastByDevice m' k = Some prev \<Longrightarrow>
      lastByDevice m k = Some prev \<or> (\<exists>r \<in> set rs. RecDeviceID r = k \<and> prev = dedupe_of r)"
proof -
  show "dedupeTime m' = dedupeTime m" and "dedupeDistM m' = dedupeDistM m"
    using assms by (cases rule: Enqueue_cases [of rs J m]; auto)+
  show "lastByDevice m k = Some prev \<or> (\<exists>r \<in> set rs. RecDeviceID r = k \<and> prev = dedupe_of r)"
    if "lastByDevice m' k = Some prev"
    using assms that filterNearDuplicates_memory [of m rs k prev]
    by (cases rule: Enqueue_cases [of rs J m]) auto
qed

lemma filter_recovered:
  assumes "r \<in> set rs" and "\<forall>k prev. lastByDevice m k = Some prev \<longrightarrow> (\<exists>p \<in> S. RecDeviceID p = k \<and> prev = dedupe_of p)"
    and "set rs \<subseteq> S"
  shows "r \<in> set (fst (filterNearDuplicates m rs)) \<or>
    (\<exists>p \<in> S. RecDeviceID p = RecDeviceID r \<and> near_to (dedupeTime m) (dedupeDistM m) (dedupe_of p) r)"
proof -
  obtain k where k: "k < length rs" "r = rs ! k" using assms(1) by (auto simp: in_set_conv_nth)
  let ?out = "fst (filterNearDuplicates m rs)"
  show ?thesis
  proof (cases "?out ! k = rs ! k")
    case True
    then show ?thesis using k length_filterNearDuplicates [of m rs] nth_mem [of k ?out] by simp
  next
    case False
    then have loop: "fst (filterLoop (dedupeTime m) (dedupeDistM m) (lastByDevice m) Map.empty rs) ! k \<noteq> rs ! k"
      by (auto simp: filterNearDuplicates_def split: if_splits)
    from filterLoop_suppressed [OF k(1) this] obtain prev where
      near: "near_to (dedupeTime m) (dedupeDistM m) prev r" and
      src: "lastByDevice m (RecDeviceID r) = Some prev \<or>
        (\<exists>j < k. RecDeviceID (rs ! j) = RecDeviceID r \<and> prev = dedupe_of (rs ! j))"
      using k(2) by auto
    from src have "\<exists>p \<in> S. RecDeviceID p = RecDeviceID r \<and> prev = dedupe_of p"
      using assms(2,3) k(1) by (metis less_trans nth_mem subsetD)
    then show ?thesis using near by auto
  qed
qed

lemma Enqueue_recovery:
  assumes inv: "recovery_inv J dt dm S finished f" and enq: "Enqueue J chunk (buffer (world f)) = (Inr u, b)"
    and sub: "set chunk \<subseteq> S"
  shows "recovery_inv J dt dm S (finished \<union> set chunk) (set_buffer b f)"
proof -
  let ?b = "buffer (world f)"
  have mem: "\<forall>k prev. lastByDevice ?b k = Some prev \<longrightarrow> (\<exists>p \<in> S. RecDeviceID p = k \<and> prev = dedupe_of p)"
    and cfg: "dedupeTime ?b = dt" "dedupeDistM ?b = dm" and sys: "disk_inv J (world f)"
    using inv by (simp_all add: recovery_inv_def)
  have cont: "contents b = contents ?b @ fst (filterNearDuplicates ?b chunk)"
    using Enqueue_contents [of J chunk ?b b] enq by simp
  have "disk_inv J (world (set_buffer b f))"
    using sys Enqueue_inv [OF _ enq] by (simp add: disk_inv_def set_buffer_def)
  moreover have "recovered dt dm S (world (set_buffer b f)) r" if "r \<in> set chunk" for r
    using filter_recovered [OF that mem sub] cfg cont by (auto simp: recovered_def set_buffer_def)
  moreover have "recovered dt dm S (world (set_buffer b f)) r" if "recovered dt dm S (world f) r" for r
    using that cont by (auto simp: recovered_def set_buffer_def)
  moreover have "\<exists>p \<in> S. RecDeviceID p = k \<and> prev = dedupe_of p" if "lastByDevice b k = Some prev" for k prev
    using Enqueue_memory(3) [OF enq that] mem sub by blast
  ultimately show ?thesis
    using inv Enqueue_memory(1,2) [OF enq] unfolding recovery_inv_def by (auto simp: set_buffer_def)
qed

lemma set_same_buffer [simp]: "set_buffer (buffer (world f)) f = f"
  by (simp add: set_buffer_def)

lemma enqueueChunk_ok:
  assumes inv: "recovery_inv J dt dm S finished f" and sub: "set chunk \<subseteq> S"
  shows "\<exists>res f'. enqueueChunk J chunk f = Some (res, f') \<and>
    (\<forall>u. res = Inr u \<longrightarrow> recovery_inv J dt dm S (finished \<union> set chunk) f')"
proof -
  obtain r b where enq: "Enqueue J chunk (buffer (world f)) = (r, b)" by fastforce
  show ?thesis
  proof (cases r)
    case (Inr u)
    with enq Enqueue_recovery [OF inv _ sub] show ?thesis by (simp add: enqueueChunk_def)
  next
    case (Inl e)
    then have b: "b = buffer (world f)" using enq Enqueue_error_unchanged by blast
    have "disk_inv J (world f)" "0 < FlushBatchSize (config f)"
      using inv by (simp_all add: recovery_inv_def)
    then obtain r2 f2 where fl: "FlushNow (collab J) f = Some (r2, f2)" using FlushNow_returns by blast
    note I2 = FlushNow_recovery [OF inv fl]
    obtain r3 b3 where again: "Enqueue J chunk (buffer (world f2)) = (r3, b3)" by fastforce
    show ?thesis
      using enq Inl b fl again Enqueue_recovery [OF I2 _ sub, of _ b3]
      by (cases r2; cases r3) (auto simp: enqueueChunk_def Let_def)
  qed
qed

lemma recoverLoop_ok:
  assumes "recovery_inv J dt dm S finished f" and "set rs \<subseteq> S" and "0 < n"
  shows "\<exists>res f'. recoverLoop J n k rs f = Some (res, f') \<and>
    (\<forall>m. res = Inr m \<longrightarrow> m = k + int (length rs) \<and> recovery_inv J dt dm S (finished \<union> set rs) f')"
  using assms
proof (induction J n k rs f arbitrary: finished rule: recoverLoop.induct)
  case (1 J n k rs f)
  show ?case
  proof (cases "rs = []")
    case True
    with 1 show ?thesis by (simp add: recoverLoop.simps [of J n k "[]" f])
  next
    case False
    have sub: "set (take n rs) \<subseteq> S" "set (drop n rs) \<subseteq> S"
      using "1.prems"(2) set_take_subset [of n rs] set_drop_subset [of n rs] by auto
    from enqueueChunk_ok [OF "1.prems"(1) sub(1)] obtain res f1 where
      one: "enqueueChunk J (take n rs) f = Some (res, f1)"
      and inv1: "\<And>u. res = Inr u \<Longrightarrow> recovery_inv J dt dm S (finished \<union> set (take n rs)) f1" by blast
    show ?thesis
    proof (cases res)
      case (Inl e)
      with one False "1.prems"(3) show ?thesis by (simp add: recoverLoop.simps [of J n k rs f])
    next
      case (Inr u)
      have union: "finished \<union> set (take n rs) \<union> set (drop n rs) = finished \<union> set rs"
        using set_append [of "take n rs" "drop n rs"] by auto
      have "recoverLoop J n k rs f = recoverLoop J n (k + int (length (take n rs))) (drop n rs) f1"
        using one False "1.prems"(3) Inr by (simp add: recoverLoop.simps [of J n k rs f])
      with "1.IH" [OF False _ one] "1.prems"(3) Inr inv1 sub(2) union show ?thesis by fastforce
    qed
  qed
qed

section \<open>The whole recovery\<close>

lemma FlushNow_config: "FlushNow I f = Some (res, f') \<Longrightarrow> config f' = config f"
  by (auto simp: FlushNow_def split: option.splits)

lemma enqueueChunk_config: "enqueueChunk J chunk f = Some (res, f') \<Longrightarrow> config f' = config f"
  by (auto simp: enqueueChunk_def set_buffer_def Let_def split: prod.splits sum.splits option.splits if_splits
      dest!: FlushNow_config)

lemma recoverLoop_config: "recoverLoop J n k rs f = Some (res, f') \<Longrightarrow> config f' = config f"
proof (induction J n k rs f rule: recoverLoop.induct)
  case (1 J n k rs f)
  show ?case
  proof (cases "rs = [] \<or> n = 0")
    case True
    with "1.prems" show ?thesis by (auto simp: recoverLoop.simps [of J n k _ f] recoverLoop.simps [of J 0 k rs f] split: if_splits)
  next
    case False
    then obtain r1 f1 where one: "enqueueChunk J (take n rs) f = Some (r1, f1)"
      using "1.prems" by (auto simp: recoverLoop.simps [of J n k rs f] split: option.splits)
    show ?thesis
    proof (cases r1)
      case (Inl e)
      with "1.prems" one False enqueueChunk_config [OF one] show ?thesis
        by (auto simp: recoverLoop.simps [of J n k rs f])
    next
      case (Inr u)
      with "1.prems" one False have "recoverLoop J n (k + int (length (take n rs))) (drop n rs) f1 = Some (res, f')"
        by (simp add: recoverLoop.simps [of J n k rs f])
      with "1.IH" False one Inr enqueueChunk_config [OF one] show ?thesis by auto
    qed
  qed
qed

lemma flushPass_few:
  assumes "disk_inv J w" and "0 < FlushBatchSize cfg"
  shows "\<exists>res w'. flushPass (collab J) cfg mode w = Some (res, w') \<and>
    (res = Inr () \<longrightarrow> int (length (contents (buffer w'))) < FlushBatchSize cfg)"
  using boot.flushPass_returns [of J w cfg mode] assms
  unfolding collab_ops world_inv_disk boot.queued_def by blast

lemma RecoverFromSpool_reads:
  assumes "spool_inv J (checkpoint (world f))"
  obtains c where "spool_inv J c" and "fs (sys c) = fs (sys (checkpoint (world f)))"
    and "\<And>cfg. RecoverFromSpool J cfg f =
      recoverRecords J (if EnqueueBatchSize cfg \<le> 0 then 64 else EnqueueBatchSize cfg)
        (committed_seq J (checkpoint (world f))) (pending_records J (checkpoint (world f))) (set_spool c f)"
proof -
  let ?c = "checkpoint (world f)"
  obtain c where c: "ReplayAfterCheckpoint J (ticked ?c) = (Inr (pending_records J ?c), c)"
    "spool_inv J c" "fs (sys c) = fs (sys (ticked ?c))"
    using Replay_ok [OF ticked_inv [OF assms]] ticked_view by auto
  then show thesis
    using that [of c] readCheckpoint_ok [OF assms]
    by (simp add: RecoverFromSpool_def ReadCheckpoint_def committed_seq_def set_spool_def)
qed

lemma recoverRecords_ok:
  assumes inv: "recovery_inv J dt dm (set P) {} f" and "0 < n" and "contents (buffer (world f)) = []"
  shows "\<exists>res f'. recoverRecords J n ck P f = Some (res, f') \<and>
    (\<forall>out. res = Inr out \<longrightarrow>
       out = \<lparr>CheckpointSeq = ck, Replayed = int (length P), REnqueued = int (length P)\<rparr> \<and>
       recovery_inv J dt dm (set P) (set P) f' \<and>
       int (length (contents (buffer (world f')))) < FlushBatchSize (config f))"
proof (cases "P = []")
  case True
  with assms show ?thesis by (simp add: recoverRecords_def recovery_inv_def)
next
  case False
  obtain res f3 where loop: "recoverLoop J (nat n) 0 P f = Some (res, f3)"
    and ok: "\<And>m. res = Inr m \<Longrightarrow> m = int (length P) \<and> recovery_inv J dt dm (set P) (set P) f3"
    using recoverLoop_ok [OF inv subset_refl, of "nat n" 0] assms(2) by (auto simp: zero_less_nat_eq)
  note cfg = recoverLoop_config [OF loop]
  show ?thesis
  proof (cases res)
    case (Inl e)
    with loop False show ?thesis by (simp add: recoverRecords_def)
  next
    case (Inr m)
    note m = ok [OF Inr]
    then have "disk_inv J (world f3)" "0 < FlushBatchSize (config f3)" by (simp_all add: recovery_inv_def)
    then obtain r4 w4 where p: "flushPass (collab J) (config f3) True (world f3) = Some (r4, w4)"
      and few: "r4 = Inr () \<Longrightarrow> int (length (contents (buffer w4))) < FlushBatchSize (config f3)"
      using flushPass_few by blast
    then obtain f4 where fl: "FlushNow (collab J) f3 = Some (r4, f4)" and w4: "world f4 = w4"
      by (simp add: FlushNow_def)
    show ?thesis
      using loop Inr False fl m FlushNow_recovery [OF _ fl] few w4 cfg
      by (cases r4) (auto simp: recoverRecords_def)
  qed
qed


text \<open>
  The first chunk of the replay has to fit into the empty buffer: if it has more records
  than \<open>maxPoints\<close> or more bytes than \<open>maxBytes\<close>, the flush that is meant to make room finds nothing to
  flush, the second attempt fails like the first, and recovery fails. It leaves the buffer, the database
  and the spool files as they were, so the next start fails in the same way.
\<close>

theorem oversized_chunk_blocks_recovery:
  assumes "disk_inv J (world f)" and "contents (buffer (world f)) = []"
    and "pending_records J (checkpoint (world f)) \<noteq> []"
    and "chunk = take (nat (if EnqueueBatchSize cfg \<le> 0 then 64 else EnqueueBatchSize cfg))
      (pending_records J (checkpoint (world f)))"
    and "sumRecordBytes J (fst (filterNearDuplicates (buffer (world f)) chunk)) = Inr n"
    and "maxPoints (buffer (world f)) < int (length chunk) \<or> maxBytes (buffer (world f)) < n"
  shows "\<exists>e f'. RecoverFromSpool J cfg f = Some (Inl (RecEnqueueAfterFlush e), f') \<and>
    e \<in> {ErrMaxPointsExceeded, ErrMaxBytesExceeded} \<and>
    buffer (world f') = buffer (world f) \<and> store (world f') = store (world f) \<and>
    fs (sys (checkpoint (world f'))) = fs (sys (checkpoint (world f)))"
proof -
  let ?P = "pending_records J (checkpoint (world f))" and ?b = "buffer (world f)"
  let ?n = "if EnqueueBatchSize cfg \<le> 0 then 64 else EnqueueBatchSize cfg"
  have "spool_inv J (checkpoint (world f))" using assms(1) by (simp add: disk_inv_def)
  then obtain c where c: "fs (sys c) = fs (sys (checkpoint (world f)))" and run: "RecoverFromSpool J cfg f =
      recoverRecords J ?n (committed_seq J (checkpoint (world f))) ?P (set_spool c f)"
    using RecoverFromSpool_reads by metis
  let ?f = "set_spool c f"
  have q: "queue ?b = []" using assms(2) by (simp add: contents_def)
  then have zero: "totalPoints ?b = 0" "totalBytes ?b = 0"
    using assms(1) by (simp_all add: disk_inv_def buffer_inv_def)
  have ne: "chunk \<noteq> []" using assms(3,4) by auto
  have "fst (filterNearDuplicates ?b chunk) \<noteq> []"
    using ne length_filterNearDuplicates [of ?b chunk] by (metis length_0_conv)
  then have "\<exists>e. Enqueue J chunk ?b = (Inl e, ?b) \<and> e \<in> {ErrMaxPointsExceeded, ErrMaxBytesExceeded}"
    using ne zero assms(5,6) length_filterNearDuplicates [of ?b chunk]
    by (cases "maxPoints ?b < int (length chunk)") (auto simp: Enqueue_def case_prod_beta)
  then obtain e where enq: "Enqueue J chunk ?b = (Inl e, ?b)"
    and e: "e \<in> {ErrMaxPointsExceeded, ErrMaxBytesExceeded}" by blast
  have "StatsPoints ?b = (0, ?b)" using q zero by (simp add: StatsPoints_def ManagerStats_def)
  then obtain f2 where fl: "FlushNow (collab J) ?f = Some (Inr (), f2)" and w2: "world f2 = world ?f"
    by (simp add: FlushNow_def flushPass_def collab_def set_spool_def Let_def)
  have "enqueueChunk J chunk ?f = Some (Inl (RecEnqueueAfterFlush e), f2)"
    using enq e fl w2 by (auto simp: enqueueChunk_def Let_def set_spool_def set_buffer_def)
  then have "recoverLoop J (nat ?n) 0 ?P ?f = Some (Inl (RecEnqueueAfterFlush e), f2)"
    using assms(3,4) by (simp add: recoverLoop.simps [of J "nat ?n" 0 ?P ?f])
  then show ?thesis using run assms(3) e w2 c by (auto simp: recoverRecords_def set_spool_def)
qed

section \<open>Witnesses\<close>

text \<open>
  A new process after a crash of the sample spool, in mode \<open>always\<close>, with two acknowledged records;
  \<open>n\<close> is the byte limit of its buffer.
\<close>

definition sample_restarted :: "int \<Rightarrow> server" where
  "sample_restarted n =
     New sample_db
       (restart_after_crash (\<lambda>_. 0) (sample_full ''always'') (\<lambda>_. 7) 1000 (sample_options ''always''))
       (NewManagerWithDedupe (\<lambda>_. 7) 10 n 0 0) \<lparr>FlushInterval = 0, FlushBatchSize = 0\<rparr> (\<lambda>_. 7)"

lemma sample_restarted_ok:
  "disk_inv sample_codec (world (sample_restarted n))"
  "pending_records sample_codec (checkpoint (world (sample_restarted n))) = sample_records"
  "lastByDevice (buffer (world (sample_restarted n))) = Map.empty"
  "contents (buffer (world (sample_restarted n))) = []"
proof -
  let ?m = "sample_full ''always''"
  have R: "spool_inv sample_codec ?m" "durable_inv ?m" "checkpoint_synced ?m"
    using sample_full_run(1) by (simp_all add: run_inv_def)
  have z: "bytesSinceSync ?m = 0" by code_simp
  note C = crash_synced [OF R(1,2) z R(3) refl]
  have "fst (ReplayAfterCheckpoint sample_codec ?m) = Inr sample_records" by code_simp
  then have "pending_records sample_codec ?m = sample_records" using Replay_ok [OF R(1)] by auto
  then show "pending_records sample_codec (checkpoint (world (sample_restarted n))) = sample_records"
    using C(2) by (simp add: sample_restarted_def New_def Let_def)
  show "disk_inv sample_codec (world (sample_restarted n))"
    using C(1) sample_db_inv(1) NewManager_inv
    by (simp add: disk_inv_def sample_restarted_def New_def Let_def)
  show "lastByDevice (buffer (world (sample_restarted n))) = Map.empty"
    "contents (buffer (world (sample_restarted n))) = []"
    by (simp_all add: sample_restarted_def New_def Let_def NewManagerWithDedupe_def contents_def)
qed


theorem oversized_chunk_blocks_recovery_witness:
  "\<exists>e f'. RecoverFromSpool sample_codec \<lparr>EnqueueBatchSize = 0\<rparr> (sample_restarted 5) =
     Some (Inl (RecEnqueueAfterFlush e), f')"
proof -
  have "sumRecordBytes sample_codec (fst (filterNearDuplicates (buffer (world (sample_restarted 5))) sample_records)) = Inr 8"
    "maxBytes (buffer (world (sample_restarted 5))) = 5"
    by code_simp+
  with oversized_chunk_blocks_recovery [OF sample_restarted_ok(1,4), of 5 sample_records "\<lparr>EnqueueBatchSize = 0\<rparr>" 8]
  show ?thesis by (auto simp: sample_restarted_ok sample_records_def)
qed

end
