(* ===== verification/Timestamps.thy ===== *)
theory Timestamps
  imports GoTime
begin

text \<open>
  A timestamp that is written with \<^verbatim>\<open>Format(time.RFC3339Nano)\<close> is read back unchanged by
  \<^verbatim>\<open>time.Parse\<close>, for every instant of the years 1 to 9999. Everything the store keeps about time
  (expiry of sessions, time of points, bounds of visits) passes through this pair.
\<close>

section \<open>The calendar\<close>

lemma quarter_less: "0 \<le> c \<Longrightarrow> c \<le> 4 \<Longrightarrow> c - c div 4 = (if c = 4 then 3 else c)" for c :: int
  by auto

lemma year_yday_parts:
  fixes d :: int
  assumes "0 \<le> d"
  obtains n400 n100 n4 n1 r where
    "year_yday d = (400 * n400 + 100 * n100 + 4 * n4 + n1 + 1, r)"
    "d = 146097 * n400 + 36524 * n100 + 1461 * n4 + 365 * n1 + r"
    "0 \<le> n400" "0 \<le> n100" "n100 \<le> 3" "0 \<le> n4" "n4 \<le> 24" "0 \<le> n1" "n1 \<le> 3" "0 \<le> r" "r \<le> 365"
    "r = 365 \<longrightarrow> n1 = 3 \<and> (n4 = 24 \<longrightarrow> n100 = 3)"
proof -
  define n400 where "n400 = d div 146097"
  define d1 where "d1 = d - 146097 * n400"
  have d1: "0 \<le> d1" "d1 < 146097" "0 \<le> n400" using assms by (auto simp: d1_def n400_def minus_mult_div_eq_mod)
  define c where "c = d1 div 36524"
  define n100 where "n100 = c - c div 4"
  define d2 where "d2 = d1 - 36524 * n100"
  have c: "0 \<le> c" "c \<le> 4" "36524 * c \<le> d1" "d1 < 36524 * c + 36524" using d1 by (auto simp: c_def)
  have d2: "0 \<le> n100" "n100 \<le> 3" "0 \<le> d2" "d2 \<le> 36524" "d2 = 36524 \<longrightarrow> n100 = 3"
    using c d1 quarter_less [OF c(1,2)] by (auto simp: n100_def d2_def split: if_splits)
  define n4 where "n4 = d2 div 1461"
  define d3 where "d3 = d2 - 1461 * n4"
  have d3: "0 \<le> n4" "n4 \<le> 24" "0 \<le> d3" "d3 < 1461" using d2 by (auto simp: n4_def d3_def)
  define a where "a = d3 div 365"
  define n1 where "n1 = a - a div 4"
  define r where "r = d3 - 365 * n1"
  have a: "0 \<le> a" "a \<le> 4" "365 * a \<le> d3" "d3 < 365 * a + 365" using d3 by (auto simp: a_def)
  have r: "0 \<le> n1" "n1 \<le> 3" "0 \<le> r" "r \<le> 365" "r = 365 \<longrightarrow> n1 = 3"
    using a d3 quarter_less [OF a(1,2)] by (auto simp: n1_def r_def split: if_splits)
  have "r = 365 \<longrightarrow> n4 = 24 \<longrightarrow> n100 = 3" using r d2 by (auto simp: r_def d3_def)
  moreover have "year_yday d = (400 * n400 + 100 * n100 + 4 * n4 + n1 + 1, r)"
    unfolding year_yday_def Let_def n400_def d1_def c_def n100_def d2_def n4_def d3_def a_def n1_def r_def ..
  moreover have "d = 146097 * n400 + 36524 * n100 + 1461 * n4 + 365 * n1 + r"
    by (simp add: r_def d3_def d2_def d1_def)
  ultimately show thesis using that d1(3) d2 d3 r by blast
qed

lemma year_yday_exact:
  assumes "0 \<le> d" and "year_yday d = (y, yd)"
  shows "days_before_year y + yd = d" and "0 \<le> yd" and "yd < (if is_leap y then 366 else 365)"
    and "1 \<le> y" and "d < 3652059 \<Longrightarrow> y \<le> 9999"
proof -
  obtain n400 n100 n4 n1 r where A:
    "year_yday d = (400 * n400 + 100 * n100 + 4 * n4 + n1 + 1, r)"
    "d = 146097 * n400 + 36524 * n100 + 1461 * n4 + 365 * n1 + r"
    "0 \<le> n400" "0 \<le> n100" "n100 \<le> 3" "0 \<le> n4" "n4 \<le> 24" "0 \<le> n1" "n1 \<le> 3" "0 \<le> r" "r \<le> 365"
    "r = 365 \<longrightarrow> n1 = 3 \<and> (n4 = 24 \<longrightarrow> n100 = 3)"
    by (rule year_yday_parts [OF assms(1)])
  have y: "y = 400 * n400 + 100 * n100 + 4 * n4 + n1 + 1" and r: "r = yd" using A(1) assms(2) by simp_all
  note P = y A(2-) [unfolded r]
  have "(y - 1) div 4 = 100 * n400 + 25 * n100 + n4"
    by (rule int_div_pos_eq [where r = n1]) (use P in simp_all)
  moreover have "(y - 1) div 100 = 4 * n400 + n100"
    by (rule int_div_pos_eq [where r = "4 * n4 + n1"]) (use P in simp_all)
  moreover have "(y - 1) div 400 = n400"
    by (rule int_div_pos_eq [where r = "100 * n100 + 4 * n4 + n1"]) (use P in simp_all)
  ultimately have q: "(y - 1) div 4 = 100 * n400 + 25 * n100 + n4"
    "(y - 1) div 100 = 4 * n400 + n100" "(y - 1) div 400 = n400" by simp_all
  have "days_before_year y = 365 * (y - 1) + (100 * n400 + 25 * n100 + n4) - (4 * n400 + n100) + n400"
    unfolding days_before_year_def q ..
  then show "days_before_year y + yd = d" using P(1,2) by simp
  show "0 \<le> yd" "1 \<le> y" using P by simp_all
  show "y \<le> 9999" if "d < 3652059"
  proof -
    have "146097 * n400 < 3652059" using that P by linarith
    then have small: "n400 \<le> 24" by linarith
    show ?thesis
    proof (rule ccontr)
      assume "\<not> y \<le> 9999"
      then have "399 + 9600 \<le> 400 * n400 + 100 * n100 + 4 * n4 + n1" using P(1) by linarith
      moreover from this have n400: "n400 = 24" using small P by linarith
      ultimately have "n100 = 3" "n4 = 24" "n1 = 3" using P by linarith+
      then show False using that P(2,10) n400 by simp
    qed
  qed
  have "is_leap y" if "yd = 365"
  proof -
    have n1: "n1 = 3" "n4 = 24 \<longrightarrow> n100 = 3" using P(12) that by simp_all
    have "y mod 4 = 0" unfolding P(1) n1(1) by presburger
    moreover have "y mod 400 = 0" if "y mod 100 = 0"
    proof -
      have "(4 * (n4 + 1)) mod 100 = 0" using that unfolding P(1) n1(1) by presburger
      then have "n4 = 24" using P(6,7) by presburger
      then show ?thesis using n1 unfolding P(1) by simp
    qed
    ultimately show ?thesis by (auto simp: is_leap_def)
  qed
  then show "yd < (if is_leap y then 366 else 365)" using P(11) by (cases "yd = 365") auto
qed

lemma month_day_exact:
  assumes "month_day k ls d = (m, dd)" and "0 \<le> d" and "d < sum_list ls" and "ls \<noteq> []" and "\<forall>l \<in> set ls. 0 < l"
  shows "k \<le> m \<and> m < k + int (length ls) \<and> 1 \<le> dd \<and> dd \<le> ls ! nat (m - k) \<and>
    sum_list (take (nat (m - k)) ls) + (dd - 1) = d"
  using assms
proof (induction k ls d rule: month_day.induct)
  case (3 k l l2 ls d)
  show ?case
  proof (cases "d < l")
    case False
    then have "month_day (k + 1) (l2 # ls) (d - l) = (m, dd)" using "3.prems"(1) by simp
    from "3.IH" [OF False this] "3.prems" False
    have I: "k + 1 \<le> m" "m < k + 1 + int (length (l2 # ls))" "1 \<le> dd" "dd \<le> (l2 # ls) ! nat (m - (k + 1))"
      "sum_list (take (nat (m - (k + 1))) (l2 # ls)) + (dd - 1) = d - l" by auto
    then have "nat (m - k) = Suc (nat (m - (k + 1)))" by simp
    with I show ?thesis by simp
  qed (use 3 in auto)
qed auto

lemma civil_exact:
  assumes "0 \<le> d" and "d < 3652059" and "civil d = (y, m, dd)"
  shows "days_of_civil y m dd = d" and "1 \<le> y" "y \<le> 9999" "1 \<le> m" "m \<le> 12" "1 \<le> dd" "dd \<le> days_in m y"
proof -
  obtain yd where y: "year_yday d = (y, yd)" and md: "month_day 1 (month_lengths (is_leap y)) yd = (m, dd)"
    using assms(3) by (auto simp: civil_def Let_def split: prod.splits)
  note Y = year_yday_exact [OF assms(1) y]
  have "yd < sum_list (month_lengths (is_leap y))" "\<forall>l \<in> set (month_lengths (is_leap y)). 0 < l"
    using Y(3) by (auto simp: month_lengths_def)
  from month_day_exact [OF md Y(2) this(1) _ this(2)]
  have M: "1 \<le> m \<and> m < 13 \<and> 1 \<le> dd \<and> dd \<le> month_lengths (is_leap y) ! nat (m - 1) \<and>
      sum_list (take (nat (m - 1)) (month_lengths (is_leap y))) + (dd - 1) = yd"
    by (simp add: month_lengths_def)
  show "days_of_civil y m dd = d" using M Y(1) by (simp add: days_of_civil_def)
  show "1 \<le> y" "y \<le> 9999" "1 \<le> m" "m \<le> 12" "1 \<le> dd" "dd \<le> days_in m y"
    using M Y(4) Y(5) [OF assms(2)] by (auto simp: days_in_def)
qed

section \<open>Digits\<close>

lemma length_dec: "n < 10 ^ w \<Longrightarrow> 0 < w \<Longrightarrow> length (dec n) \<le> w"
proof (induction w arbitrary: n)
  case (Suc w)
  show ?case
  proof (cases "n < 10")
    case False
    then have "w \<noteq> 0" using Suc.prems by (cases w) auto
    moreover have "n div 10 < 10 ^ w" using Suc.prems by auto
    ultimately show ?thesis using Suc.IH [of "n div 10"] False by (simp add: dec.simps [of n])
  qed (simp add: dec.simps [of n])
qed simp

lemma length_pad_dec: "n < 10 ^ w \<Longrightarrow> 0 < w \<Longrightarrow> length (pad_dec w n) = w"
  using length_dec [of n w] by (simp add: pad_dec_def Let_def)

lemma take_digits_pad_dec:
  assumes "n < 10 ^ w" and "0 < w"
  shows "take_digits w (pad_dec w n @ rest) = Some (int n, rest)"
  using length_pad_dec [OF assms] pad_dec_digits [of w n] by (simp add: take_digits_def list_all_iff)

lemma undec_trailing_zeros: "undec (s @ replicate k (CHR ''0'')) = undec s * 10 ^ k"
proof (induction k)
  case (Suc k)
  have "s @ replicate (Suc k) (CHR ''0'') = (s @ replicate k (CHR ''0'')) @ [CHR ''0'']"
    by (simp add: replicate_append_same)
  moreover have "digit_val (CHR ''0'') = 0" by (simp add: digit_val_def)
  ultimately show ?case using Suc by (simp del: append_assoc)
qed simp

lemma trailing_zeros_split:
  obtains k where "s = rev (dropWhile (\<lambda>c. c = CHR ''0'') (rev s)) @ replicate k (CHR ''0'')"
proof -
  let ?P = "\<lambda>c. c = CHR ''0''"
  have "takeWhile ?P (rev s) = replicate (length (takeWhile ?P (rev s))) (CHR ''0'')"
    by (rule replicate_eqI) (auto dest: set_takeWhileD)
  then have "rev (takeWhile ?P (rev s)) = replicate (length (takeWhile ?P (rev s))) (CHR ''0'')"
    by (metis rev_replicate)
  moreover have "s = rev (dropWhile ?P (rev s)) @ rev (takeWhile ?P (rev s))"
    by (metis rev_append rev_rev_ident takeWhile_dropWhile_id)
  ultimately show thesis using that by metis
qed

lemma is_digit_Z [simp]: "\<not> is_digit (CHR ''Z'')"
  by (simp add: is_digit_def)

lemma take_frac_fmt:
  assumes "0 \<le> ns" and "ns < second"
  shows "take_frac (fmt_frac ns @ ''Z'') = (ns, ''Z'')"
proof (cases "ns = 0")
  case True
  then show ?thesis by (simp add: fmt_frac_def take_frac_def)
next
  case False
  define s where "s = pad_dec 9 (nat ns)"
  define ds where "ds = rev (dropWhile (\<lambda>c. c = CHR ''0'') (rev s))"
  obtain k where k: "s = ds @ replicate k (CHR ''0'')" using trailing_zeros_split unfolding ds_def .
  have "nat ns < 10 ^ 9" using assms(2) by simp
  then have len: "length ds + k = 9" using length_pad_dec [of "nat ns" 9] k by (simp add: s_def)
  have dig: "list_all is_digit ds" using pad_dec_digits [of 9 "nat ns"] k by (simp add: s_def list_all_iff)
  have val: "undec ds * 10 ^ k = nat ns"
    using undec_trailing_zeros [of ds k] k undec_pad_dec [of 9 "nat ns"] by (simp add: s_def)
  then have ne: "ds \<noteq> []" using False assms(1) by (auto simp: undec_def)
  have tw: "takeWhile is_digit (ds @ ''Z'') = ds" using dig by (simp add: takeWhile_append list_all_iff)
  have "9 - length ds = k" "take 9 ds = ds" using len by simp_all
  moreover have "int (undec ds) * 10 ^ k = ns"
    using val assms(1) by (metis int_nat_eq of_nat_mult of_nat_numeral of_nat_power)
  moreover have "fmt_frac ns = CHR ''.'' # ds" using False by (simp add: fmt_frac_def ds_def s_def)
  moreover have "is_digit ((ds @ ''Z'') ! 0)" using dig ne by (cases ds) auto
  ultimately show ?thesis using tw ne by (simp add: take_frac_def Let_def)
qed

section \<open>Formatting and parsing\<close>

text \<open>The instants of the years 1 to 9999, in nanoseconds from January 1, year 1.\<close>

definition valid_time :: "gotime \<Rightarrow> bool" where
  "valid_time t \<longleftrightarrow> 0 \<le> t \<and> t < 3652059 * (86400 * second)"

lemma take_lit_Cons [simp]: "take_lit c (c # s) = Some s"
  by (simp add: take_lit_def)

lemma take_hour_pad_dec: "n < 100 \<Longrightarrow> take_hour (pad_dec 2 n @ rest) = Some (int n, rest)"
  by (simp add: take_hour_def take_digits_pad_dec)

lemma in_range_Some [simp]: "lo \<le> x \<Longrightarrow> x \<le> hi \<Longrightarrow> in_range lo hi x = Some ()"
  by (simp add: in_range_def)

lemma parse_fmt [simp]:
  assumes "valid_time t"
  shows "parse_RFC3339Nano (fmt_RFC3339Nano t) = Some t"
proof -
  define day r where "day = t div (86400 * second)" and "r = t mod (86400 * second)"
  define sec ns where "sec = r div second" and "ns = r mod second"
  obtain y m d where c: "civil day = (y, m, d)" by (metis prod_cases3)
  have day: "0 \<le> day" "day < 3652059" using assms by (auto simp: day_def valid_time_def)
  have r: "0 \<le> r" "r < 86400 * second" by (simp_all add: r_def)
  have sec: "0 \<le> sec" "sec < 86400" and ns: "0 \<le> ns" "ns < second" using r by (auto simp: sec_def ns_def)
  note C = civil_exact [OF day c]
  define hh mi ss where "hh = sec div 3600" and "mi = sec div 60 mod 60" and "ss = sec mod 60"
  have hms: "hh * 3600 + mi * 60 + ss = sec"
    using div_mult_mod_eq [of "sec div 60" 60] div_mult_mod_eq [of sec 60]
      zdiv_zmult2_eq [of 60 sec 60, simplified] unfolding hh_def mi_def ss_def by linarith
  have bounds: "0 \<le> hh" "hh \<le> 23" "0 \<le> mi" "mi \<le> 59" "0 \<le> ss" "ss \<le> 59"
    using sec by (simp_all add: hh_def mi_def ss_def)
  have "(day * 86400 + sec) * second + ns = day * (86400 * second) + r"
    unfolding sec_def ns_def by (simp add: algebra_simps)
  also have "\<dots> = t" unfolding day_def r_def by simp
  finally have total: "(day * 86400 + sec) * second + ns = t" .
  have d: "d < 100" using C by (simp add: days_in_def month_lengths_def nth_Cons' split: if_splits)
  have f: "fmt_RFC3339Nano t = pad_dec 4 (nat y) @ ''-'' @ pad_dec 2 (nat m) @ ''-'' @ pad_dec 2 (nat d) @ ''T'' @
         pad_dec 2 (nat hh) @ '':'' @ pad_dec 2 (nat mi) @ '':'' @ pad_dec 2 (nat ss) @ fmt_frac ns @ ''Z''"
    using c C(2)
    by (simp add: fmt_RFC3339Nano_def Let_def fmt_year_def day_def r_def sec_def ns_def hh_def mi_def ss_def)
  have b: "nat y < 10 ^ 4" "nat m < 10 ^ 2" "nat d < 10 ^ 2" "nat hh < 100" "nat mi < 10 ^ 2" "nat ss < 10 ^ 2"
    using C d bounds by auto
  have "parse_RFC3339Nano (fmt_RFC3339Nano t) = Some ((day * 86400 + hh * 3600 + mi * 60 + ss) * second + ns)"
    unfolding f parse_RFC3339Nano_def
    using b C bounds take_frac_fmt [OF ns]
    by (simp add: take_digits_pad_dec take_hour_pad_dec take_zone_def)
  also have "day * 86400 + hh * 3600 + mi * 60 + ss = day * 86400 + sec" using hms by simp
  finally show ?thesis unfolding total .
qed

end
