(* ===== verification/StoreAccounts.thy ===== *)
theory StoreAccounts
  imports Database Timestamps
begin

text \<open>
  \<^verbatim>\<open>internal/store/users.go\<close> and \<^verbatim>\<open>internal/store/sessions.go\<close>, with \<^verbatim>\<open>parseDBTime\<close> of
  \<^verbatim>\<open>internal/store/devices.go\<close>: accounts are found again under their normalised address, a session
  is valid from its creation until seven days later and not beyond.
\<close>

section \<open>Reading timestamps\<close>

definition parseDBTime :: "string \<Rightarrow> store_error + gotime" where
  "parseDBTime raw =
     (let trimmed = trimSpace raw in
      if trimmed = [] then Inl ErrParseTime
      else case parse_RFC3339Nano trimmed of None \<Rightarrow> Inl ErrParseTime | Some t \<Rightarrow> Inr t)"

lemma fmt_RFC3339Nano_graphic:
  assumes "valid_time t"
  shows "fmt_RFC3339Nano t \<noteq> []" "graphic (hd (fmt_RFC3339Nano t))" "graphic (last (fmt_RFC3339Nano t))"
proof -
  let ?f = "fmt_RFC3339Nano t"
  obtain y m d where c: "civil (t div (86400 * second)) = (y, m, d)" by (metis prod_cases3)
  have "0 \<le> t div (86400 * second)" "t div (86400 * second) < 3652059"
    using assms by (auto simp: valid_time_def)
  then have "1 \<le> y" using civil_exact(2) c by blast
  then obtain rest where f: "?f = pad_dec 4 (nat y) @ rest" and l: "last ?f = CHR ''Z''"
    using c by (auto simp: fmt_RFC3339Nano_def fmt_year_def Let_def)
  show "?f \<noteq> []" by (simp add: f)
  have "hd ?f \<in> set (pad_dec 4 (nat y))" by (simp add: f hd_in_set)
  then show "graphic (hd ?f)" using pad_dec_digits digit_graphic by blast
  show "graphic (last ?f)" by (simp add: l graphic_def)
qed

lemma parseDBTime_fmt [simp]: "valid_time t \<Longrightarrow> parseDBTime (fmt_RFC3339Nano t) = Inr t"
  using trimSpace_graphic(1) [OF fmt_RFC3339Nano_graphic]
  by (simp add: parseDBTime_def fmt_RFC3339Nano_graphic(1))

section \<open>Users (users.go)\<close>

record User =
  User_ID :: int
  User_Name :: string
  User_Email :: string
  User_PasswordHash :: string
  User_IsAdmin :: bool
  User_CreatedAt :: gotime
  User_UpdatedAt :: gotime

record CreateUserParams =
  CU_Name :: string
  CU_Email :: string
  CU_PasswordHash :: string
  CU_IsAdmin :: bool

definition boolToSQLiteInt :: "bool \<Rightarrow> int" where
  "boolToSQLiteInt v = (if v then 1 else 0)"

text \<open>Scanning a row: a NULL address does not fit the \<^verbatim>\<open>string\<close> field.\<close>

definition scanUser :: "user_row \<Rightarrow> store_error + User" where
  "scanUser r =
     (case u_email r of
        None \<Rightarrow> Inl ErrScanNull
      | Some email \<Rightarrow>
          (case parseDBTime (u_created_at r) of
             Inl e \<Rightarrow> Inl e
           | Inr c \<Rightarrow>
               (case parseDBTime (u_updated_at r) of
                  Inl e \<Rightarrow> Inl e
                | Inr u \<Rightarrow>
                    Inr \<lparr>User_ID = u_id r, User_Name = u_name r, User_Email = email,
                         User_PasswordHash = u_password_hash r, User_IsAdmin = (u_is_admin r \<noteq> 0),
                         User_CreatedAt = c, User_UpdatedAt = u\<rparr>)))"

definition GetUserByID :: "int \<Rightarrow> (dbstate, store_error, User) gomethod" where
  "GetUserByID i =
     (if i \<le> 0 then throwE ErrUserNotFound
      else bindE (query (\<lambda>t. case find (\<lambda>r. u_id r = i) (users t) of
                               None \<Rightarrow> Inl ErrUserNotFound | Some r \<Rightarrow> Inr r))
             (\<lambda>r. fromE (scanUser r)))"

text \<open>
  \<^verbatim>\<open>INSERT INTO users(name, email, password_hash, is_admin, created_at, updated_at)\<close>, returning the
  row id.
\<close>

definition insert_user ::
  "string \<Rightarrow> string \<Rightarrow> string \<Rightarrow> int \<Rightarrow> string \<Rightarrow> bool \<Rightarrow> gotime \<Rightarrow> tables \<Rightarrow> store_error + int \<times> tables" where
  "insert_user nm email ph adm ts fk now t =
     (if email \<noteq> [] \<and> email \<in> set (indexed_emails (users t)) then Inl ErrUniqueConstraint
      else let i = last_user_id t + 1 in
        Inr (i, t\<lparr>users := users t @
          [\<lparr>u_id = i, u_name = nm, u_email = Some email, u_password_hash = ph, u_is_admin = adm,
            u_created_at = ts, u_updated_at = ts\<rparr>], last_user_id := i\<rparr>))"

definition CreateUser :: "CreateUserParams \<Rightarrow> (dbstate, store_error, User) gomethod" where
  "CreateUser params =
     (let email = toLower (trimSpace (CU_Email params));
          passwordHash = trimSpace (CU_PasswordHash params);
          nm = trimSpace (CU_Name params)
      in
      if email = [] then throwE (ErrRequired ''email'')
      else if passwordHash = [] then throwE (ErrRequired ''password hash'')
      else
        bindE time_Now (\<lambda>now.
        bindE (exec (insert_user (if nm = [] then email else nm) email passwordHash
                 (boolToSQLiteInt (CU_IsAdmin params)) (fmt_RFC3339Nano now)))
          GetUserByID))"

text \<open>\<^verbatim>\<open>SELECT id FROM users WHERE LOWER(email) = ? ORDER BY id ASC LIMIT 1\<close>.\<close>

definition select_user_by_email :: "string \<Rightarrow> tables \<Rightarrow> int option" where
  "select_user_by_email email t =
     (case sort_key u_id (filter (\<lambda>r. map_option toLower (u_email r) = Some email) (users t)) of
        [] \<Rightarrow> None | r # _ \<Rightarrow> Some (u_id r))"

definition GetUserByEmail :: "string \<Rightarrow> (dbstate, store_error, User) gomethod" where
  "GetUserByEmail email =
     (let normalized = toLower (trimSpace email) in
      if normalized = [] then throwE ErrUserNotFound
      else bindE (query (\<lambda>t. case select_user_by_email normalized t of
                               None \<Rightarrow> Inl ErrUserNotFound | Some i \<Rightarrow> Inr i))
             GetUserByID)"

definition ListUsers :: "(dbstate, store_error, User list) gomethod" where
  "ListUsers = bindE (query (\<lambda>t. Inr (sort_key u_id (users t)))) (\<lambda>rows. fromE (mapE scanUser rows))"

section \<open>Sessions (sessions.go)\<close>

definition defaultSessionTTL :: duration where
  "defaultSessionTTL = 7 * 24 * 3600 * second"

record Session =
  Session_Token :: string
  Session_UserID :: int
  Session_ExpiresAt :: gotime
  Session_CreatedAt :: gotime

definition generateSessionToken :: "(dbstate, store_error, string) gomethod" where
  "generateSessionToken = bindE (rand_Read 32) (\<lambda>buf. returnE (hex_EncodeToString buf))"

definition insert_session ::
  "session_row \<Rightarrow> bool \<Rightarrow> gotime \<Rightarrow> tables \<Rightarrow> store_error + unit \<times> tables" where
  "insert_session row fk now t =
     (if s_token row \<in> s_token ` set (sessions t) then Inl ErrUniqueConstraint
      else if fk \<and> \<not> user_exists (s_user_id row) t then Inl ErrForeignKey
      else Inr ((), t\<lparr>sessions := sessions t @ [row]\<rparr>))"

definition CreateSession :: "int \<Rightarrow> (dbstate, store_error, Session) gomethod" where
  "CreateSession user =
     (if user \<le> 0 then throwE (ErrRequired ''user id'')
      else
        bindE generateSessionToken (\<lambda>token.
        bindE time_Now (\<lambda>t1. let expiresAt = t1 + defaultSessionTTL in
        bindE time_Now (\<lambda>createdAt.
        bindE (exec (insert_session
                 \<lparr>s_token = token, s_user_id = user, s_expires_at = fmt_RFC3339Nano expiresAt,
                  s_created_at = fmt_RFC3339Nano createdAt\<rparr>)) (\<lambda>_.
          returnE \<lparr>Session_Token = token, Session_UserID = user, Session_ExpiresAt = expiresAt,
                   Session_CreatedAt = createdAt\<rparr>)))))"

definition delete_session :: "string \<Rightarrow> bool \<Rightarrow> gotime \<Rightarrow> tables \<Rightarrow> store_error + unit \<times> tables" where
  "delete_session token fk now t =
     Inr ((), t\<lparr>sessions := filter (\<lambda>r. s_token r \<noteq> token) (sessions t)\<rparr>)"

definition DeleteSession :: "string \<Rightarrow> (dbstate, store_error, unit) gomethod" where
  "DeleteSession token =
     (let normalizedToken = trimSpace token in
      if normalizedToken = [] then returnE () else exec (delete_session normalizedToken))"

definition scanSession :: "session_row \<Rightarrow> store_error + Session" where
  "scanSession r =
     (case parseDBTime (s_expires_at r) of
        Inl e \<Rightarrow> Inl e
      | Inr x \<Rightarrow>
          (case parseDBTime (s_created_at r) of
             Inl e \<Rightarrow> Inl e
           | Inr c \<Rightarrow> Inr \<lparr>Session_Token = s_token r, Session_UserID = s_user_id r,
                            Session_ExpiresAt = x, Session_CreatedAt = c\<rparr>))"

text \<open>The row of an expired session is deleted; whether that works is ignored.\<close>

definition expireSession :: "string \<Rightarrow> (dbstate, store_error, Session) gomethod" where
  "expireSession token d = (case DeleteSession token d of (_, d') \<Rightarrow> (Inl ErrSessionNotFound, d'))"

definition GetSession :: "string \<Rightarrow> (dbstate, store_error, Session) gomethod" where
  "GetSession token =
     (let normalizedToken = trimSpace token in
      if normalizedToken = [] then throwE ErrSessionNotFound
      else
        bindE (query (\<lambda>t. case find (\<lambda>r. s_token r = normalizedToken) (sessions t) of
                            None \<Rightarrow> Inl ErrSessionNotFound | Some r \<Rightarrow> Inr r)) (\<lambda>r.
        bindE (fromE (scanSession r)) (\<lambda>out.
        bindE time_Now (\<lambda>now.
          if now < Session_ExpiresAt out then returnE out else expireSession normalizedToken))))"

section \<open>The invariant\<close>

lemma fresh_user_id: "db_inv t \<Longrightarrow> last_user_id t + 1 \<notin> u_id ` set (users t)"
  by (auto simp: db_inv_def users_ok_def)

lemma insert_user_inv:
  assumes "insert_user nm email ph adm ts fk now t = Inr (i, t')" and "db_inv t" and "toLower email = email"
  shows "db_inv t'"
proof -
  have t': "t' = t\<lparr>users := users t @
          [\<lparr>u_id = last_user_id t + 1, u_name = nm, u_email = Some email, u_password_hash = ph,
            u_is_admin = adm, u_created_at = ts, u_updated_at = ts\<rparr>], last_user_id := last_user_id t + 1\<rparr>"
    and fresh: "email \<noteq> [] \<longrightarrow> email \<notin> set (indexed_emails (users t))"
    using assms(1) by (auto simp: insert_user_def Let_def split: if_splits)
  have "users_ok t'"
    using assms(2,3) fresh fresh_user_id [OF assms(2)] unfolding t'
    by (fastforce simp: db_inv_def users_ok_def indexed_email_def)
  then show ?thesis using assms(2) unfolding t' by (simp add: db_inv_def db_inv_defs)
qed

lemma insert_session_inv: "insert_session row fk now t = Inr (x, t') \<Longrightarrow> db_inv t \<Longrightarrow> db_inv t'"
  by (auto simp: insert_session_def db_inv_def db_inv_defs split: if_splits)

lemma insert_session_row:
  "insert_session row fk now t = Inr (x, t') \<Longrightarrow> t' = t\<lparr>sessions := sessions t @ [row]\<rparr>"
  by (auto simp: insert_session_def split: if_splits)

lemma delete_session_inv: "delete_session token fk now t = Inr (x, t') \<Longrightarrow> db_inv t \<Longrightarrow> db_inv t'"
  by (auto simp: delete_session_def db_inv_def db_inv_defs List.distinct_map_filter)

lemma keeps_GetUserByID [keeps_intros]: "keeps P (GetUserByID i)"
  unfolding GetUserByID_def by (intro keeps_intros)

lemma keeps_CreateUser: "keeps db_inv (CreateUser params)"
  unfolding CreateUser_def Let_def
  by (intro keeps_intros keeps_exec) (erule insert_user_inv; simp)

lemma keeps_user_reads [keeps_intros]: "keeps P (GetUserByEmail e)" "keeps P ListUsers"
  unfolding GetUserByEmail_def ListUsers_def Let_def by (intro keeps_intros)+

lemma keeps_CreateSession: "keeps db_inv (CreateSession user)"
  unfolding CreateSession_def Let_def generateSessionToken_def
  by (intro keeps_intros keeps_exec) (erule insert_session_inv)

lemma keeps_DeleteSession: "keeps db_inv (DeleteSession token)"
  unfolding DeleteSession_def Let_def by (intro keeps_intros keeps_exec) (erule delete_session_inv)

lemma keeps_expireSession: "keeps db_inv (expireSession token)"
  unfolding keeps_def expireSession_def
  by (auto split: prod.splits dest: keepsD [OF keeps_DeleteSession])

lemma keeps_GetSession: "keeps db_inv (GetSession token)"
  unfolding GetSession_def Let_def by (intro keeps_intros keeps_expireSession)

section \<open>Accounts are found again\<close>

lemma find_unique:
  "distinct (map f xs) \<Longrightarrow> x \<in> set xs \<Longrightarrow> find (\<lambda>r. f r = f x) xs = Some x"
  by (induction xs) auto

lemma GetUserByID_row:
  assumes "calm d" and "db_inv (tables d)" and "r \<in> set (users (tables d))" and "0 < u_id r"
    and "scanUser r = Inr u"
  shows "runs (GetUserByID (u_id r)) (\<lambda>x t. x = u \<and> t = tables d) d"
proof -
  have "find (\<lambda>x. u_id x = u_id r) (users (tables d)) = Some r"
    using assms(2,3) find_unique by (fastforce simp: db_inv_def users_ok_def)
  then show ?thesis
    unfolding GetUserByID_def using assms(1,4,5)
    by (auto intro!: runs_bindE [where R = "\<lambda>x t. x = r \<and> t = tables d"] runs_query runs_fromE)
qed

lemma indexed_emails_in: "u_email r = Some e \<Longrightarrow> e \<noteq> [] \<Longrightarrow> r \<in> set us \<Longrightarrow> e \<in> set (indexed_emails us)"
  by (auto simp: indexed_emails_def set_map_filter indexed_email_def intro!: bexI [of _ r])

lemma same_email_unique:
  assumes "distinct (indexed_emails us)" and "u_email r = Some e" "u_email r' = Some e" "e \<noteq> []"
    and "r \<in> set us" "r' \<in> set us"
  shows "r = r'"
  using assms
proof (induction us)
  case (Cons x us)
  have "indexed_emails (x # us) =
      (case indexed_email (u_email x) of None \<Rightarrow> indexed_emails us | Some a \<Rightarrow> a # indexed_emails us)"
    by (simp add: indexed_emails_def List.map_filter_simps split: option.split)
  with Cons show ?case
    using indexed_emails_in [of _ e us] by (auto simp: indexed_email_def split: option.splits if_splits)
qed simp

lemma first_of_singleton:
  assumes "set xs = {r}"
  shows "(case sort_key k xs of [] \<Rightarrow> None | y # ys \<Rightarrow> Some (g y)) = Some (g r)"
proof -
  have "set (sort_key k xs) = {r}" using assms by simp
  then show ?thesis by (cases "sort_key k xs") simp_all
qed

lemma select_user_by_email_row:
  assumes "db_inv t" and "r \<in> set (users t)" and "u_email r = Some e" and "e \<noteq> []"
  shows "select_user_by_email e t = Some (u_id r)"
proof -
  let ?f = "filter (\<lambda>x. map_option toLower (u_email x) = Some e) (users t)"
  have ok: "users_ok t" using assms(1) by (simp add: db_inv_def)
  then have r: "r \<in> set ?f" using assms by (auto simp: users_ok_def)
  have only: "x = r" if x: "x \<in> set ?f" for x
  proof -
    obtain e' where e': "u_email x = Some e'" "toLower e' = e" "x \<in> set (users t)" using x by auto
    then have email: "u_email x = Some e" using ok by (simp add: users_ok_def)
    have "distinct (indexed_emails (users t))" using ok unfolding users_ok_def by blast
    from same_email_unique [OF this email assms(3,4) e'(3) assms(2)] show ?thesis .
  qed
  have "set ?f = {r}" by (intro equalityI subsetI) (use only r in blast)+
  then show ?thesis unfolding select_user_by_email_def by (rule first_of_singleton)
qed

definition stored_user :: "CreateUserParams \<Rightarrow> gotime \<Rightarrow> tables \<Rightarrow> user_row" where
  "stored_user params now t =
     (let email = toLower (trimSpace (CU_Email params)); nm = trimSpace (CU_Name params) in
      \<lparr>u_id = last_user_id t + 1, u_name = (if nm = [] then email else nm), u_email = Some email,
       u_password_hash = trimSpace (CU_PasswordHash params),
       u_is_admin = boolToSQLiteInt (CU_IsAdmin params),
       u_created_at = fmt_RFC3339Nano now, u_updated_at = fmt_RFC3339Nano now\<rparr>)"

definition created_user :: "CreateUserParams \<Rightarrow> gotime \<Rightarrow> tables \<Rightarrow> User" where
  "created_user params now t =
     (let email = toLower (trimSpace (CU_Email params)); nm = trimSpace (CU_Name params) in
      \<lparr>User_ID = last_user_id t + 1, User_Name = (if nm = [] then email else nm), User_Email = email,
       User_PasswordHash = trimSpace (CU_PasswordHash params), User_IsAdmin = CU_IsAdmin params,
       User_CreatedAt = now, User_UpdatedAt = now\<rparr>)"

lemma scan_stored_user: "valid_time now \<Longrightarrow> scanUser (stored_user params now t) = Inr (created_user params now t)"
  by (simp add: scanUser_def stored_user_def created_user_def Let_def boolToSQLiteInt_def)

lemma CreateUser_runs:
  assumes "calm d" and "db_inv (tables d)" and "valid_time (dbclock d (dbticks d))"
    and "trimSpace (CU_Email params) \<noteq> []" and "trimSpace (CU_PasswordHash params) \<noteq> []"
    and "toLower (trimSpace (CU_Email params)) \<notin> set (indexed_emails (users (tables d)))"
  shows "runs (CreateUser params)
    (\<lambda>u t. u = created_user params (dbclock d (dbticks d)) (tables d) \<and>
       t = (tables d)\<lparr>users := users (tables d) @ [stored_user params (dbclock d (dbticks d)) (tables d)],
             last_user_id := last_user_id (tables d) + 1\<rparr>) d"
proof -
  let ?now = "dbclock d (dbticks d)" and ?t = "tables d"
  let ?row = "stored_user params ?now ?t"
  let ?t1 = "?t\<lparr>users := users ?t @ [?row], last_user_id := last_user_id ?t + 1\<rparr>"
  let ?email = "toLower (trimSpace (CU_Email params))" and ?nm = "trimSpace (CU_Name params)"
  let ?ins = "insert_user (if ?nm = [] then ?email else ?nm) ?email (trimSpace (CU_PasswordHash params))
    (boolToSQLiteInt (CU_IsAdmin params)) (fmt_RFC3339Nano ?now)"
  have ins: "?ins fk now ?t = Inr (u_id ?row, ?t1)" for fk now
    using assms(6) by (simp add: insert_user_def stored_user_def Let_def)
  have inv: "db_inv ?t1" using insert_user_inv [OF ins assms(2)] by simp
  have pos: "0 < u_id ?row" using assms(2) by (simp add: stored_user_def Let_def db_inv_def users_ok_def)
  have get: "runs (GetUserByID (u_id ?row)) (\<lambda>u t. u = created_user params ?now ?t \<and> t = ?t1) d'"
    if "calm d'" "tables d' = ?t1" for d'
    using GetUserByID_row [OF that(1), of ?row] that inv pos scan_stored_user [OF assms(3)] by simp
  have "runs (bindE time_Now (\<lambda>now. bindE (exec (insert_user (if ?nm = [] then ?email else ?nm) ?email
      (trimSpace (CU_PasswordHash params)) (boolToSQLiteInt (CU_IsAdmin params)) (fmt_RFC3339Nano now)))
      GetUserByID)) (\<lambda>u t. u = created_user params ?now ?t \<and> t = ?t1) d"
  proof (rule runs_bindE [where R = "\<lambda>x t. x = ?now \<and> t = ?t"])
    show "runs time_Now (\<lambda>x t. x = ?now \<and> t = ?t) d"
      using assms(1) by (simp add: runs_def time_Now_def calm_def)
    fix x d' assume "x = ?now \<and> tables d' = ?t" and c: "calm d'"
    then have x: "x = ?now" "tables d' = ?t" by simp_all
    show "runs (bindE (exec (insert_user (if ?nm = [] then ?email else ?nm) ?email
      (trimSpace (CU_PasswordHash params)) (boolToSQLiteInt (CU_IsAdmin params)) (fmt_RFC3339Nano x)))
      GetUserByID) (\<lambda>u t. u = created_user params ?now ?t \<and> t = ?t1) d'"
      unfolding x(1)
    proof (rule runs_bindE [where R = "\<lambda>i t. i = u_id ?row \<and> t = ?t1"])
      show "runs (exec ?ins) (\<lambda>i t. i = u_id ?row \<and> t = ?t1) d'"
        by (rule runs_exec [OF c]) (use ins x in simp)
    qed (use get in auto)
  qed
  then show ?thesis using assms(4,5) by (simp add: CreateUser_def Let_def)
qed

text \<open>
  Claim C24. Creating an account with an address that is not taken succeeds, trims and lowercases the
  address, and uses the address when no name is given. From then on every spelling of the address
  that normalises to the same text finds exactly this account, and a second account with such
  an address is refused.
\<close>

theorem account_roundtrip:
  assumes "calm d" and "db_inv (tables d)" and "valid_time (dbclock d (dbticks d))"
    and "trimSpace (CU_Email params) \<noteq> []" and "trimSpace (CU_PasswordHash params) \<noteq> []"
    and "toLower (trimSpace (CU_Email params)) \<notin> set (indexed_emails (users (tables d)))"
  shows "\<exists>u d1. CreateUser params d = (Inr u, d1) \<and>
    u = created_user params (dbclock d (dbticks d)) (tables d) \<and>
    (\<forall>spelling d2. calm d2 \<longrightarrow> tables d2 = tables d1 \<longrightarrow>
       toLower (trimSpace spelling) = toLower (trimSpace (CU_Email params)) \<longrightarrow>
       (\<exists>d3. GetUserByEmail spelling d2 = (Inr u, d3) \<and> tables d3 = tables d2) \<and>
       (\<forall>other. CU_Email other = spelling \<longrightarrow> trimSpace (CU_PasswordHash other) \<noteq> [] \<longrightarrow>
          (\<exists>d3. CreateUser other d2 = (Inl ErrUniqueConstraint, d3) \<and> tables d3 = tables d2)))"
proof -
  let ?now = "dbclock d (dbticks d)" and ?t = "tables d"
  let ?row = "stored_user params ?now ?t" and ?u = "created_user params ?now ?t"
  let ?t1 = "?t\<lparr>users := users ?t @ [?row], last_user_id := last_user_id ?t + 1\<rparr>"
  let ?email = "toLower (trimSpace (CU_Email params))"
  obtain d1 where d1: "CreateUser params d = (Inr ?u, d1)" "tables d1 = ?t1"
    using CreateUser_runs [OF assms] by (auto simp: runs_def)
  have inv: "db_inv ?t1" using keepsD [OF keeps_CreateUser assms(2) d1(1)] d1(2) by simp
  have row: "u_email ?row = Some ?email" "?email \<noteq> []" using assms(4) by (simp_all add: stored_user_def Let_def)
  have pos: "0 < u_id ?row" using assms(2) by (simp add: stored_user_def Let_def db_inv_def users_ok_def)
  have sel: "select_user_by_email ?email ?t1 = Some (u_id ?row)"
    using select_user_by_email_row [OF inv _ row] by simp
  have found: "\<exists>d3. GetUserByEmail e d2 = (Inr ?u, d3) \<and> tables d3 = tables d2"
    if c: "calm d2" and t2: "tables d2 = ?t1" and e: "toLower (trimSpace e) = ?email" for e d2
  proof -
    have "runs (GetUserByID (u_id ?row)) (\<lambda>x t. x = ?u \<and> t = ?t1) d'" if "calm d'" "tables d' = ?t1" for d'
      using GetUserByID_row [OF that(1), of ?row] that inv pos scan_stored_user [OF assms(3)] by simp
    then have "runs (GetUserByEmail e) (\<lambda>x t. x = ?u \<and> t = ?t1) d2"
      unfolding GetUserByEmail_def Let_def e using row(2) c t2 sel
      by (auto intro!: runs_bindE [where R = "\<lambda>i t. i = u_id ?row \<and> t = ?t1"] runs_query)
    then show ?thesis using t2 by (auto simp: runs_def)
  qed
  have dup: "\<exists>d3. CreateUser other d2 = (Inl ErrUniqueConstraint, d3) \<and> tables d3 = tables d2"
    if "calm d2" "tables d2 = ?t1" "toLower (trimSpace (CU_Email other)) = ?email"
      "trimSpace (CU_PasswordHash other) \<noteq> []" for other d2
    using that row
    by (auto simp: CreateUser_def Let_def time_Now_def exec_def calm_def insert_user_def bindE_def indexed_email_def)
  show ?thesis
    by (rule exI [of _ ?u], rule exI [of _ d1]) (use found dup d1 in auto)
qed

section \<open>The life of a session\<close>

lemma hex_digit_graphic: "n < 16 \<Longrightarrow> graphic (hex_digit n)"
  by (auto simp: hex_digit_def graphic_def of_char_of)

lemma of_char_less_256: "(of_char c :: nat) < 256"
  using of_char_mod_256 [of c] by (metis mod_less_divisor zero_less_numeral)

lemma hex_graphic: "\<forall>c \<in> set (hex_EncodeToString b). graphic c"
proof (induction b)
  case (Cons x b)
  have "(of_char x :: nat) div 16 < 16" using of_char_less_256 [of x] by (simp add: less_mult_imp_div_less)
  with Cons show ?case by (auto simp: hex_EncodeToString_def Let_def hex_digit_graphic)
qed (simp add: hex_EncodeToString_def)

lemma trimSpace_hex [simp]: "trimSpace (hex_EncodeToString b) = hex_EncodeToString b"
proof (cases "hex_EncodeToString b = []")
  case False
  then show ?thesis using hex_graphic [of b] by (intro trimSpace_graphic) auto
qed simp

lemma hex_empty [simp]: "hex_EncodeToString b = [] \<longleftrightarrow> b = []"
  by (cases b) (simp_all add: hex_EncodeToString_def Let_def)

lemma CreateSession_success:
  assumes "CreateSession user d = (Inr s, d1)"
  obtains b fk now where "0 < user" and "dbrand d (dbrands d) 32 = Some b"
    and "Session_Token s = hex_EncodeToString b" and "Session_UserID s = user"
    and "Session_ExpiresAt s = dbclock d (dbticks d) + defaultSessionTTL"
    and "Session_CreatedAt s = dbclock d (Suc (dbticks d))"
    and "insert_session \<lparr>s_token = Session_Token s, s_user_id = user,
           s_expires_at = fmt_RFC3339Nano (Session_ExpiresAt s),
           s_created_at = fmt_RFC3339Nano (Session_CreatedAt s)\<rparr> fk now (tables d) = Inr ((), tables d1)"
proof -
  from assms have u: "0 < user" by (auto simp: CreateSession_def split: if_splits)
  from assms u obtain d2 b where b: "dbrand d (dbrands d) 32 = Some b"
    and s: "s = \<lparr>Session_Token = hex_EncodeToString b, Session_UserID = user,
        Session_ExpiresAt = dbclock d (dbticks d) + defaultSessionTTL,
        Session_CreatedAt = dbclock d (Suc (dbticks d))\<rparr>"
    and e: "exec (insert_session \<lparr>s_token = Session_Token s, s_user_id = user,
           s_expires_at = fmt_RFC3339Nano (Session_ExpiresAt s),
           s_created_at = fmt_RFC3339Nano (Session_CreatedAt s)\<rparr>) d2 = (Inr (), d1)"
    and t: "tables d2 = tables d"
    by (fastforce simp: CreateSession_def generateSessionToken_def bindE_eq_Inr rand_Read_def time_Now_def
        Let_def split: option.splits)
  from exec_tables [OF e] that [of b] u b s t show thesis by auto
qed

lemma GetSession_row:
  assumes "calm d" and "db_inv (tables d)" and "r \<in> set (sessions (tables d))"
    and "trimSpace tok = s_token r" and "s_token r \<noteq> []" and "scanSession r = Inr s"
  shows "dbclock d (dbticks d) < Session_ExpiresAt s \<Longrightarrow>
      \<exists>d'. GetSession tok d = (Inr s, d') \<and> tables d' = tables d"
    and "\<not> dbclock d (dbticks d) < Session_ExpiresAt s \<Longrightarrow>
      \<exists>d'. GetSession tok d = (Inl ErrSessionNotFound, d') \<and>
        tables d' = (tables d)\<lparr>sessions := filter (\<lambda>x. s_token x \<noteq> s_token r) (sessions (tables d))\<rparr>"
proof -
  have f: "find (\<lambda>x. s_token x = s_token r) (sessions (tables d)) = Some r"
    using assms(2,3) find_unique by (fastforce simp: db_inv_def others_ok_def)
  have trim: "trimSpace (s_token r) = s_token r" using assms(4) trimSpace_idem [of tok] by simp
  note run = GetSession_def Let_def query_def exec_def bindE_def fromE_def time_Now_def expireSession_def
    DeleteSession_def delete_session_def
  show "\<exists>d'. GetSession tok d = (Inr s, d') \<and> tables d' = tables d"
    if "dbclock d (dbticks d) < Session_ExpiresAt s"
    using assms(1,4-6) f that by (simp add: run calm_def)
  show "\<exists>d'. GetSession tok d = (Inl ErrSessionNotFound, d') \<and>
        tables d' = (tables d)\<lparr>sessions := filter (\<lambda>x. s_token x \<noteq> s_token r) (sessions (tables d))\<rparr>"
    if "\<not> dbclock d (dbticks d) < Session_ExpiresAt s"
    using assms(1,4-6) f that trim by (simp add: run calm_def)
qed

lemma GetSession_absent:
  assumes "calm d" and "trimSpace tok \<notin> s_token ` set (sessions (tables d))"
  shows "\<exists>d'. GetSession tok d = (Inl ErrSessionNotFound, d') \<and> tables d' = tables d"
proof -
  have "find (\<lambda>r. s_token r = trimSpace tok) (sessions (tables d)) = None"
    unfolding find_None_iff using assms(2) by (metis imageI)
  then show ?thesis
    using assms(1) by (simp add: GetSession_def Let_def query_def exec_def calm_def bindE_def)
qed

text \<open>
  Claim C23. The life of a session. \<^verbatim>\<open>CreateSession\<close> hands out a token; while other operations leave
  its row alone, looking the token up gives back the same session, with the time of expiry seven days
  after creation, as long as the clock is before that time; from then on the lookup reports that there
  is no such session and removes the row. After a logout the token is not accepted either.
\<close>

theorem session_lifecycle:
  assumes "CreateSession user d = (Inr s, d1)"
    and "\<forall>i n b. dbrand d i n = Some b \<longrightarrow> length b = n"
    and "valid_time (Session_ExpiresAt s)" and "valid_time (Session_CreatedAt s)"
    and "calm d2" and "db_inv (tables d2)"
    and "set (sessions (tables d1)) \<subseteq> set (sessions (tables d2))"
  shows "Session_UserID s = user \<and> Session_ExpiresAt s = dbclock d (dbticks d) + defaultSessionTTL \<and>
    (dbclock d2 (dbticks d2) < Session_ExpiresAt s \<longrightarrow>
       (\<exists>d3. GetSession (Session_Token s) d2 = (Inr s, d3) \<and> tables d3 = tables d2)) \<and>
    (Session_ExpiresAt s \<le> dbclock d2 (dbticks d2) \<longrightarrow>
       (\<exists>d3. GetSession (Session_Token s) d2 = (Inl ErrSessionNotFound, d3) \<and>
          Session_Token s \<notin> s_token ` set (sessions (tables d3)))) \<and>
    (\<exists>d3. DeleteSession (Session_Token s) d2 = (Inr (), d3) \<and>
       (\<forall>d4. calm d4 \<longrightarrow> sessions (tables d4) = sessions (tables d3) \<longrightarrow>
          fst (GetSession (Session_Token s) d4) = Inl ErrSessionNotFound))"
proof -
  obtain b fk now where S: "0 < user" "dbrand d (dbrands d) 32 = Some b"
    "Session_Token s = hex_EncodeToString b" "Session_UserID s = user"
    "Session_ExpiresAt s = dbclock d (dbticks d) + defaultSessionTTL"
    "Session_CreatedAt s = dbclock d (Suc (dbticks d))"
    "insert_session \<lparr>s_token = Session_Token s, s_user_id = user,
       s_expires_at = fmt_RFC3339Nano (Session_ExpiresAt s),
       s_created_at = fmt_RFC3339Nano (Session_CreatedAt s)\<rparr> fk now (tables d) = Inr ((), tables d1)"
    using CreateSession_success [OF assms(1)] by metis
  define r where "r = \<lparr>s_token = Session_Token s, s_user_id = user,
       s_expires_at = fmt_RFC3339Nano (Session_ExpiresAt s),
       s_created_at = fmt_RFC3339Nano (Session_CreatedAt s)\<rparr>"
  have "r \<in> set (sessions (tables d1))"
    using insert_session_row [OF S(7)] by (simp add: r_def)
  then have r: "r \<in> set (sessions (tables d2))" using assms(7) by blast
  have "b \<noteq> []" using S(2) assms(2) by force
  then have tok: "trimSpace (Session_Token s) = s_token r" "s_token r \<noteq> []"
    using S(3) by (simp_all add: r_def)
  have scan: "scanSession r = Inr s"
    using assms(3,4) S(4) by (simp add: scanSession_def r_def)
  note G = GetSession_row [OF assms(5,6) r tok scan]
  obtain d3 where del: "DeleteSession (Session_Token s) d2 = (Inr (), d3)"
    and gone: "sessions (tables d3) = filter (\<lambda>x. s_token x \<noteq> s_token r) (sessions (tables d2))"
    using assms(5) tok by (simp add: DeleteSession_def Let_def exec_def calm_def delete_session_def)
  have "fst (GetSession (Session_Token s) d4) = Inl ErrSessionNotFound"
    if "calm d4" "sessions (tables d4) = sessions (tables d3)" for d4
  proof -
    have "trimSpace (Session_Token s) \<notin> s_token ` set (sessions (tables d4))"
      using that(2) gone tok by auto
    from GetSession_absent [OF that(1) this] show ?thesis by auto
  qed
  moreover have "\<exists>d3. GetSession (Session_Token s) d2 = (Inl ErrSessionNotFound, d3) \<and>
      Session_Token s \<notin> s_token ` set (sessions (tables d3))"
    if "Session_ExpiresAt s \<le> dbclock d2 (dbticks d2)"
    using G(2) that tok by (auto simp: r_def)
  ultimately show ?thesis using G(1) S(4,5) del by blast
qed

section \<open>Witnesses\<close>

definition accounts_db :: dbstate where
  "accounts_db =
     \<lparr>tables = empty_tables, fk_on = True, dbfault = \<lambda>_. False, dbcalls = 0,
      dbclock = \<lambda>n. 63000000000 * second + int n * second, dbticks = 0,
      dbrand = \<lambda>i n. Some (replicate n (CHR ''k'')), dbrands = 0\<rparr>"

definition sample_account :: CreateUserParams where
  "sample_account = \<lparr>CU_Name = '' '', CU_Email = '' Ann@Home '', CU_PasswordHash = ''h'', CU_IsAdmin = True\<rparr>"

lemma accounts_db_ok: "calm accounts_db" "db_inv (tables accounts_db)" "valid_time (dbclock accounts_db n)"
  if "n < 1000"
  using that by (simp_all add: accounts_db_def calm_def db_inv_empty valid_time_def)

theorem account_roundtrip_witness:
  "\<exists>u d1 d3. CreateUser sample_account accounts_db = (Inr u, d1) \<and> User_Name u = ''ann@home'' \<and>
     GetUserByEmail ''ANN@home'' d1 = (Inr u, d3)"
proof -
  have n: "toLower (trimSpace (CU_Email sample_account)) = ''ann@home''"
    "trimSpace (CU_PasswordHash sample_account) = ''h''" "toLower (trimSpace ''ANN@home'') = ''ann@home''"
    "trimSpace (CU_Email sample_account) \<noteq> []" "trimSpace (CU_Name sample_account) = []"
    by code_simp+
  have e: "indexed_emails (users (tables accounts_db)) = []"
    by (simp add: accounts_db_def empty_tables_def indexed_emails_def List.map_filter_simps)
  have t: "dbticks accounts_db = 0" by (simp add: accounts_db_def)
  have A: "calm accounts_db" "db_inv (tables accounts_db)" "valid_time (dbclock accounts_db (dbticks accounts_db))"
    using accounts_db_ok [of 0] t by simp_all
  have B: "trimSpace (CU_PasswordHash sample_account) \<noteq> []"
    "toLower (trimSpace (CU_Email sample_account)) \<notin> set (indexed_emails (users (tables accounts_db)))"
    using n e by simp_all
  obtain u d1 where u: "CreateUser sample_account accounts_db = (Inr u, d1)"
      "u = created_user sample_account (dbclock accounts_db 0) (tables accounts_db)"
    and f: "calm d1 \<Longrightarrow> \<exists>d3. GetUserByEmail ''ANN@home'' d1 = (Inr u, d3)"
    using account_roundtrip [OF A n(4) B] n t by metis
  have "calm d1" using CreateUser_runs [OF A n(4) B] u(1) by (auto simp: runs_def)
  with u f show ?thesis by (auto simp: created_user_def Let_def n)
qed

definition with_account :: dbstate where
  "with_account =
     \<lparr>tables = empty_tables\<lparr>users :=
        [\<lparr>u_id = 1, u_name = ''Ann'', u_email = Some ''ann@home'', u_password_hash = ''h'', u_is_admin = 1,
          u_created_at = ''c'', u_updated_at = ''u''\<rparr>], last_user_id := 1\<rparr>,
      fk_on = True, dbfault = \<lambda>_. False, dbcalls = 0,
      dbclock = \<lambda>n. 63000000000 * second + int n * second, dbticks = 1,
      dbrand = \<lambda>i n. Some (replicate n (CHR ''k'')), dbrands = 0\<rparr>"

definition with_session :: dbstate where
  "with_session = snd (CreateSession 1 with_account)"

lemma sample_session:
  "fst (CreateSession 1 with_account) =
     Inr \<lparr>Session_Token = concat (replicate 32 ''6b''), Session_UserID = 1,
          Session_ExpiresAt = 63000604801 * second, Session_CreatedAt = 63000000002 * second\<rparr>"
  by code_simp

theorem session_lifecycle_witness:
  "\<exists>d3. GetSession (concat (replicate 32 ''6b'')) (accounts_db\<lparr>tables := tables with_session, dbticks := 5\<rparr>) =
     (Inr \<lparr>Session_Token = concat (replicate 32 ''6b''), Session_UserID = 1,
          Session_ExpiresAt = 63000604801 * second, Session_CreatedAt = 63000000002 * second\<rparr>, d3)"
proof -
  let ?s = "\<lparr>Session_Token = concat (replicate 32 ''6b''), Session_UserID = 1,
          Session_ExpiresAt = 63000604801 * second, Session_CreatedAt = 63000000002 * second\<rparr>"
  let ?d2 = "accounts_db\<lparr>tables := tables with_session, dbticks := 5\<rparr>"
  have c: "CreateSession 1 with_account = (Inr ?s, with_session)"
    using sample_session by (simp add: with_session_def prod_eq_iff)
  have "db_inv (tables with_account)"
    by (simp add: with_account_def db_inv_def db_inv_defs empty_tables_def indexed_emails_def
        indexed_hashes_def indexed_email_def List.map_filter_simps) code_simp
  then have inv: "db_inv (tables with_session)" using keepsD [OF keeps_CreateSession _ c] by simp
  have rand: "dbrand with_account = (\<lambda>i n. Some (replicate n (CHR ''k'')))"
    by (simp add: with_account_def accounts_db_def)
  have "calm ?d2" "valid_time (Session_ExpiresAt ?s)" "valid_time (Session_CreatedAt ?s)"
    by (simp_all add: calm_def accounts_db_def valid_time_def)
  then have "dbclock ?d2 (dbticks ?d2) < Session_ExpiresAt ?s \<longrightarrow>
      (\<exists>d3. GetSession (Session_Token ?s) ?d2 = (Inr ?s, d3) \<and> tables d3 = tables ?d2)"
    using session_lifecycle [OF c _ _ _ _, of ?d2] inv rand by simp
  moreover have "dbclock ?d2 (dbticks ?d2) < Session_ExpiresAt ?s" by (simp add: accounts_db_def)
  ultimately show ?thesis by auto
qed

end
