(* ===== verification/StoreDevices.thy ===== *)
theory StoreDevices
  imports StoreAccounts StoreInsert
begin

text \<open>
  \<^verbatim>\<open>internal/store/devices.go\<close> and the backfill of \<^verbatim>\<open>OpenSQLiteStore\<close> in
  \<^verbatim>\<open>internal/store/sqlite_store.go\<close>: registering a device, rotating its key, and finding the
  device that a presented key belongs to. The keys themselves are not stored, only their SHA-256.
\<close>

section \<open>Rows\<close>

text \<open>The Go field \<^verbatim>\<open>APIKey\<close> of a device is never filled by the store; it is left out.\<close>

record Device =
  Device_ID :: int
  Device_UserID :: int
  Device_Name :: string
  Device_SourceType :: string
  Device_APIKeyHash :: string
  Device_APIKeyPreview :: string
  Device_CreatedAt :: gotime
  Device_UpdatedAt :: gotime
  Device_LastSeenAt :: "gotime option"

record CreateDeviceParams =
  CD_UserID :: int
  CD_Name :: string
  CD_SourceType :: string
  CD_APIKey :: string

text \<open>\<^verbatim>\<open>last_seen_at\<close> may be NULL or blank; the other columns have to be there.\<close>

definition parseLastSeen :: "string option \<Rightarrow> store_error + gotime option" where
  "parseLastSeen raw =
     (case raw of
        None \<Rightarrow> Inr None
      | Some s \<Rightarrow>
          if trimSpace s = [] then Inr None
          else (case parseDBTime s of Inl e \<Rightarrow> Inl e | Inr t \<Rightarrow> Inr (Some t)))"

definition scanDevice :: "device_row \<Rightarrow> store_error + Device" where
  "scanDevice r =
     (case (d_api_key_hash r, d_api_key_preview r, d_updated_at r) of
        (Some h, Some preview, Some upd) \<Rightarrow>
          (case parseDBTime (d_created_at r) of
             Inl e \<Rightarrow> Inl e
           | Inr c \<Rightarrow>
               (case parseDBTime upd of
                  Inl e \<Rightarrow> Inl e
                | Inr u \<Rightarrow>
                    (case parseLastSeen (d_last_seen_at r) of
                       Inl e \<Rightarrow> Inl e
                     | Inr seen \<Rightarrow>
                         Inr \<lparr>Device_ID = d_id r, Device_UserID = d_user_id r, Device_Name = d_name r,
                              Device_SourceType = d_source_type r, Device_APIKeyHash = h,
                              Device_APIKeyPreview = preview, Device_CreatedAt = c,
                              Device_UpdatedAt = u, Device_LastSeenAt = seen\<rparr>)))
      | _ \<Rightarrow> Inl ErrScanNull)"

section \<open>Operations (devices.go)\<close>

definition GetDeviceByID :: "int \<Rightarrow> (dbstate, store_error, Device) gomethod" where
  "GetDeviceByID i =
     (if i \<le> 0 then throwE ErrDeviceNotFound
      else bindE (query (\<lambda>t. case find (\<lambda>r. d_id r = i) (devices t) of
                               None \<Rightarrow> Inl ErrDeviceNotFound | Some r \<Rightarrow> Inr r))
             (\<lambda>r. fromE (scanDevice r)))"

definition CreateDevice :: "CreateDeviceParams \<Rightarrow> (dbstate, store_error, Device) gomethod" where
  "CreateDevice params =
     (let nm = trimSpace (CD_Name params);
          sourceType = trimSpace (CD_SourceType params);
          apiKey = trimSpace (CD_APIKey params);
          apiKeyHash = hashDeviceAPIKey apiKey;
          user = (if CD_UserID params \<le> 0 then 1 else CD_UserID params)
      in
      if nm = [] then throwE (ErrRequired ''device name'')
      else if sourceType = [] then throwE (ErrRequired ''source type'')
      else if apiKey = [] then throwE (ErrRequired ''api key'')
      else if apiKeyHash = [] then throwE (ErrRequired ''api key'')
      else
        bindE generateAPIKeySentinel (\<lambda>sentinel.
        bindE (if user = 1 then exec insert_default_user else returnE ()) (\<lambda>_.
        bindE time_Now (\<lambda>now.
        bindE (exec (insert_device user nm sourceType sentinel apiKeyHash (buildAPIKeyPreview apiKey)
                 (fmt_RFC3339Nano now)))
          GetDeviceByID))))"

definition ListDevices :: "(dbstate, store_error, Device list) gomethod" where
  "ListDevices =
     bindE (query (\<lambda>t. Inr (sort_key d_id (devices t)))) (\<lambda>rows. fromE (mapE scanDevice rows))"

definition GetDeviceByAPIKey :: "string \<Rightarrow> (dbstate, store_error, Device) gomethod" where
  "GetDeviceByAPIKey apiKey =
     (let key = trimSpace apiKey; apiKeyHash = hashDeviceAPIKey key in
      if key = [] then throwE ErrDeviceNotFound
      else if apiKeyHash = [] then throwE ErrDeviceNotFound
      else bindE (query (\<lambda>t. case find (\<lambda>r. d_api_key_hash r = Some apiKeyHash) (devices t) of
                               None \<Rightarrow> Inl ErrDeviceNotFound | Some r \<Rightarrow> Inr (d_id r)))
             GetDeviceByID)"

text \<open>
  \<^verbatim>\<open>UPDATE devices SET api_key = ?, api_key_hash = ?, api_key_preview = ? ... WHERE id = ?\<close>, with
  the unique indexes on the first two columns; the result is the number of rows.
\<close>

definition update_key ::
  "string \<Rightarrow> string \<Rightarrow> (device_row \<Rightarrow> device_row) \<Rightarrow> int \<Rightarrow> bool \<Rightarrow> gotime \<Rightarrow> tables \<Rightarrow>
   store_error + int \<times> tables" where
  "update_key sentinel h set_row i fk now t =
     (if \<not> device_exists i t then Inr (0, t)
      else let others = filter (\<lambda>r. d_id r \<noteq> i) (devices t) in
        if sentinel \<in> d_api_key ` set others then Inl ErrUniqueConstraint
        else if sql_trim h \<noteq> [] \<and> h \<in> set (indexed_hashes others) then Inl ErrUniqueConstraint
        else Inr (1, update_devices i set_row t))"

definition set_key :: "string \<Rightarrow> string \<Rightarrow> string \<Rightarrow> device_row \<Rightarrow> device_row" where
  "set_key sentinel h preview r =
     r\<lparr>d_api_key := sentinel, d_api_key_hash := Some h, d_api_key_preview := Some preview\<rparr>"

definition RotateDeviceAPIKey :: "int \<Rightarrow> string \<Rightarrow> (dbstate, store_error, Device) gomethod" where
  "RotateDeviceAPIKey i newAPIKey =
     (let key = trimSpace newAPIKey; apiKeyHash = hashDeviceAPIKey key in
      if i \<le> 0 then throwE ErrDeviceNotFound
      else if key = [] then throwE (ErrRequired ''new api key'')
      else if apiKeyHash = [] then throwE (ErrRequired ''new api key'')
      else
        bindE generateAPIKeySentinel (\<lambda>sentinel.
        bindE time_Now (\<lambda>now.
        bindE (exec (update_key sentinel apiKeyHash
                 (\<lambda>r. set_key sentinel apiKeyHash (buildAPIKeyPreview key) r
                        \<lparr>d_updated_at := Some (fmt_RFC3339Nano now)\<rparr>) i)) (\<lambda>affected.
          if affected = 0 then throwE ErrDeviceNotFound else GetDeviceByID i))))"

section \<open>The backfill at start (sqlite_store.go)\<close>

record pendingUpdate =
  pu_id :: int
  pu_sentinel :: string
  pu_hash :: string
  pu_preview :: string

text \<open>\<^verbatim>\<open>%d\<close>.\<close>

definition fmt_int :: "int \<Rightarrow> string" where
  "fmt_int i = (if i < 0 then ''-'' @ dec (nat (- i)) else dec (nat i))"

definition coalesce :: "string option \<Rightarrow> string" where
  "coalesce s = (case s of None \<Rightarrow> [] | Some x \<Rightarrow> x)"

definition pending_update :: "device_row \<Rightarrow> pendingUpdate option" where
  "pending_update r =
     (let apiKeyHash = coalesce (d_api_key_hash r); apiKeyPreview = coalesce (d_api_key_preview r);
          key = trimSpace (d_api_key r);
          h = trimSpace apiKeyHash;
          preview = trimSpace apiKeyPreview;
          h2 = (if h = [] \<and> key \<noteq> [] then hashDeviceAPIKey key else h);
          preview2 = (if preview = [] \<and> key \<noteq> [] then buildAPIKeyPreview key else preview);
          sentinel = ''hashonly:'' @ fmt_int (d_id r)
      in
      if h2 = [] then None
      else if key = sentinel \<and> apiKeyHash = h2 \<and> apiKeyPreview = preview2 then None
      else Some \<lparr>pu_id = d_id r, pu_sentinel = sentinel, pu_hash = h2, pu_preview = preview2\<rparr>)"

primrec applyUpdates :: "pendingUpdate list \<Rightarrow> (dbstate, store_error, unit) gomethod" where
  "applyUpdates [] = returnE ()"
| "applyUpdates (u # us) =
     bindE (exec (update_key (pu_sentinel u) (pu_hash u)
              (set_key (pu_sentinel u) (pu_hash u) (pu_preview u)) (pu_id u))) (\<lambda>_.
       applyUpdates us)"

text \<open>
  \<^verbatim>\<open>tableExists\<close> and twice \<^verbatim>\<open>columnExists\<close>: on the migrated schema they answer yes, unless the driver
  fails.
\<close>

definition backfillDeviceAPIKeyHashes :: "(dbstate, store_error, unit) gomethod" where
  "backfillDeviceAPIKeyHashes =
     bindE sql_call (\<lambda>_. bindE sql_call (\<lambda>_. bindE sql_call (\<lambda>_.
     bindE (query (\<lambda>t. Inr (List.map_filter pending_update (sort_key d_id (devices t))))) (\<lambda>updates.
       if updates = [] then returnE ()
       else in_tx (bindE sql_call (\<lambda>_. applyUpdates updates))))))"

text \<open>
  \<^verbatim>\<open>OpenSQLiteStore\<close> applies the pragmas (foreign keys among them) and backfills.
\<close>

definition OpenSQLiteStore :: "(dbstate, store_error, unit) gomethod" where
  "OpenSQLiteStore =
     bindE sql_call (\<lambda>_. bindE (\<lambda>d. (Inr (), d\<lparr>fk_on := True\<rparr>)) (\<lambda>_. backfillDeviceAPIKeyHashes))"

section \<open>The invariant\<close>

lemma map_filter_replace:
  assumes "distinct (List.map_filter g xs)" and "distinct (map key xs)"
    and "\<And>v. new = Some v \<Longrightarrow> v \<notin> set (List.map_filter g (filter (\<lambda>x. key x \<noteq> i) xs))"
    and "\<And>x. g (f x) = new"
  shows "distinct (List.map_filter g (map (\<lambda>x. if key x = i then f x else x) xs))"
  using assms
proof (induction xs)
  case (Cons x xs)
  have same: "map (\<lambda>x. if key x = i then f x else x) xs = xs" "filter (\<lambda>x. key x \<noteq> i) xs = xs"
    if k: "key x = i"
  proof -
    have "key y \<noteq> i" if "y \<in> set xs" for y
    proof
      assume "key y = i"
      then have "key x \<in> key ` set xs" using that k by (metis imageI)
      then show False using Cons.prems(2) by simp
    qed
    then show "map (\<lambda>x. if key x = i then f x else x) xs = xs" "filter (\<lambda>x. key x \<noteq> i) xs = xs"
      by (auto intro: map_idI simp: filter_id_conv)
  qed
  show ?case
  proof (cases "key x = i")
    case True
    then show ?thesis
      using Cons.prems same by (cases new) (auto simp: List.map_filter_simps split: option.splits)
  next
    case False
    have IH: "distinct (List.map_filter g (map (\<lambda>x. if key x = i then f x else x) xs))"
      using Cons False by (auto simp: List.map_filter_simps split: option.splits)
    have "v \<notin> set (List.map_filter g (map (\<lambda>x. if key x = i then f x else x) xs))" if "g x = Some v" for v
      using Cons.prems(1,3,4) False that
      by (force simp: List.map_filter_simps set_map_filter split: if_splits)
    with IH False show ?thesis by (auto simp: List.map_filter_simps split: option.splits)
  qed
qed (simp add: List.map_filter_simps)

lemma map_as_map_filter: "List.map_filter (\<lambda>x. Some (h x)) xs = map h xs"
  by (induction xs) (simp_all add: List.map_filter_simps)

definition key_setter :: "string \<Rightarrow> string \<Rightarrow> (device_row \<Rightarrow> device_row) \<Rightarrow> bool" where
  "key_setter sentinel h f \<longleftrightarrow>
     (\<forall>r. d_id (f r) = d_id r \<and> d_user_id (f r) = d_user_id r \<and>
        d_last_seq_received (f r) = d_last_seq_received r \<and> d_api_key (f r) = sentinel \<and>
        d_api_key_hash (f r) = Some h)"

lemma set_key_setter:
  "key_setter sentinel h (set_key sentinel h preview)"
  "key_setter sentinel h (\<lambda>r. set_key sentinel h preview r\<lparr>d_updated_at := u\<rparr>)"
  by (simp_all add: key_setter_def set_key_def)

lemma update_key_inv:
  assumes "update_key sentinel h f i fk now t = Inr (n, t')" and "db_inv t" and "key_setter sentinel h f"
  shows "db_inv t'"
proof (cases "device_exists i t")
  case True
  have t': "t' = update_devices i f t" and key: "sentinel \<notin> d_api_key ` {r \<in> set (devices t). d_id r \<noteq> i}"
    and h: "sql_trim h \<noteq> [] \<longrightarrow> h \<notin> set (indexed_hashes (filter (\<lambda>r. d_id r \<noteq> i) (devices t)))"
    using assms(1) True by (auto simp: update_key_def Let_def split: if_splits)
  have S: "d_id (f r) = d_id r" "d_user_id (f r) = d_user_id r"
    "d_last_seq_received (f r) = d_last_seq_received r" "d_api_key (f r) = sentinel"
    "d_api_key_hash (f r) = Some h" for r
    using assms(3) by (simp_all add: key_setter_def)
  let ?ds = "map (\<lambda>r. if d_id r = i then f r else r) (devices t)"
  have ids: "map d_id ?ds = map d_id (devices t)" "map d_user_id ?ds = map d_user_id (devices t)"
    "map d_last_seq_received ?ds = map d_last_seq_received (devices t)"
    by (simp_all add: S)
  have ok: "devices_ok t" using assms(2) by (simp add: db_inv_def)
  have "distinct (map d_api_key ?ds)"
    using map_filter_replace [of "\<lambda>r. Some (d_api_key r)" "devices t" d_id "Some sentinel" i f] ok key S
    by (auto simp: map_as_map_filter devices_ok_def)
  moreover have "distinct (indexed_hashes ?ds)"
    unfolding indexed_hashes_def
  proof (rule map_filter_replace [where key = d_id and new = "indexed_hash (Some h)"])
    show "v \<notin> set (List.map_filter (indexed_hash \<circ> d_api_key_hash) (filter (\<lambda>x. d_id x \<noteq> i) (devices t)))"
      if "indexed_hash (Some h) = Some v" for v
      using that h by (auto simp: indexed_hash_def indexed_hashes_def split: if_splits)
  qed (use ok S in \<open>simp_all add: devices_ok_def indexed_hashes_def\<close>)
  moreover have "distinct (map d_id ?ds)" unfolding ids(1) using ok by (simp add: devices_ok_def)
  moreover have "\<forall>r \<in> set ?ds. d_id r \<le> last_device_id t \<and> 0 \<le> d_last_seq_received r"
    using ok S by (auto simp: devices_ok_def)
  ultimately have "devices_ok t'"
    using ok by (simp add: t' update_devices_def devices_ok_def del: map_map)
  moreover have "owners_ok t'"
    unfolding owners_ok_def
  proof
    let ?f = "\<lambda>r. if d_id r = i then f r else r"
    fix p assume "p \<in> set (raw_points t')"
    then have "p \<in> set (raw_points t)" by (simp add: t' update_devices_def)
    moreover have "owners_ok t" using assms(2) by (simp add: db_inv_def)
    ultimately obtain d where "d \<in> set (devices t)" "d_id d = rp_device_id p" "d_user_id d = rp_user_id p"
      unfolding owners_ok_def by blast
    then have "?f d \<in> set (devices t')" "d_id (?f d) = rp_device_id p" "d_user_id (?f d) = rp_user_id p"
      by (simp_all add: t' update_devices_def S)
    then show "\<exists>d \<in> set (devices t'). d_id d = rp_device_id p \<and> d_user_id d = rp_user_id p" by blast
  qed
  moreover have "seqs_ok t'"
  proof -
    have "seqs_ok t" using assms(2) by (simp add: db_inv_def)
    then show ?thesis unfolding seqs_ok_def by (auto simp: t' update_devices_def S)
  qed
  ultimately show ?thesis
    using assms(2) by (simp add: db_inv_def db_inv_defs t' update_devices_def)
qed (use assms in \<open>auto simp: update_key_def\<close>)

lemma keeps_GetDeviceByID [keeps_intros]: "keeps P (GetDeviceByID i)"
  unfolding GetDeviceByID_def by (intro keeps_intros)

lemma keeps_sentinel [keeps_intros]: "keeps P generateAPIKeySentinel"
  unfolding generateAPIKeySentinel_def by (intro keeps_intros)

lemma keeps_CreateDevice: "keeps db_inv (CreateDevice params)"
  unfolding CreateDevice_def Let_def
  by (intro keeps_intros keeps_exec) (erule insert_default_user_inv insert_device_inv; assumption)+

lemma keeps_device_reads [keeps_intros]: "keeps P ListDevices" "keeps P (GetDeviceByAPIKey k)"
  unfolding ListDevices_def GetDeviceByAPIKey_def Let_def by (intro keeps_intros)+

lemma keeps_RotateDeviceAPIKey: "keeps db_inv (RotateDeviceAPIKey i k)"
  unfolding RotateDeviceAPIKey_def Let_def
  by (intro keeps_intros keeps_exec) (erule update_key_inv; simp add: set_key_setter)

lemma keeps_applyUpdates: "keeps db_inv (applyUpdates us)"
proof (induction us)
  case Nil
  show ?case unfolding applyUpdates.simps by (intro keeps_intros)
next
  case (Cons u us)
  show ?case unfolding applyUpdates.simps
    by (intro keeps_intros keeps_exec Cons.IH) (erule update_key_inv; simp add: set_key_setter)
qed

lemma keeps_backfill: "keeps db_inv backfillDeviceAPIKeyHashes"
  unfolding backfillDeviceAPIKeyHashes_def by (intro keeps_intros keeps_applyUpdates)

lemma keeps_OpenSQLiteStore: "keeps db_inv OpenSQLiteStore"
  unfolding OpenSQLiteStore_def
  by (intro keeps_intros keeps_backfill) (auto simp: keeps_def)

section \<open>Authentication by key\<close>

lemma trimmed_empty: "rev (dropWhile P (rev (dropWhile P s))) = [] \<longleftrightarrow> (\<forall>c \<in> set s. P c)"
proof (cases "dropWhile P s = []")
  case False
  then have "\<not> P (hd (dropWhile P s))" "hd (dropWhile P s) \<in> set (dropWhile P s)"
    by (simp_all add: hd_dropWhile)
  moreover from this have "hd (dropWhile P s) \<in> set s" by (meson set_dropWhileD)
  ultimately show ?thesis by (metis Nil_is_rev_conv dropWhile_eq_Nil_conv set_rev)
next
  case True
  then have "\<forall>c \<in> set s. P c" unfolding dropWhile_eq_Nil_conv .
  then show ?thesis by (auto dest: set_dropWhileD)
qed

lemma sql_trim_empty: "sql_trim s = [] \<longleftrightarrow> (\<forall>c \<in> set s. c = CHR '' '')"
  unfolding sql_trim_def Let_def by (rule trimmed_empty)

lemma space_not_graphic: "\<not> graphic (CHR '' '')"
  by (simp add: graphic_def)

lemma sha256_hex_graphic: "c \<in> set (sha256_hex s) \<Longrightarrow> graphic c"
  using hex_digit_graphic nibble_less by (auto simp: sha256_hex_def word_hex_def)

lemma sql_trim_hash [simp]: "sql_trim (hashDeviceAPIKey k) = [] \<longleftrightarrow> trimSpace k = []"
proof -
  have "sql_trim (sha256_hex s) \<noteq> []" for s
    unfolding sql_trim_empty using sha256_hex_graphic [of "hd (sha256_hex s)" s] space_not_graphic
    by (metis hd_in_set sha256_hex_nonempty)
  moreover have "sql_trim [] = []" by (simp add: sql_trim_empty)
  ultimately show ?thesis by (simp add: hashDeviceAPIKey_def Let_def)
qed

lemma hash_trim [simp]: "hashDeviceAPIKey (trimSpace k) = hashDeviceAPIKey k"
  by (simp add: hashDeviceAPIKey_def)

lemma hash_empty [simp]: "hashDeviceAPIKey k = [] \<longleftrightarrow> trimSpace k = []"
  by (simp add: hashDeviceAPIKey_def Let_def)

lemma map_filter_unique:
  assumes "distinct (List.map_filter g xs)" and "x \<in> set xs" "y \<in> set xs" "g x = Some v" "g y = Some v"
  shows "x = y"
  using assms
proof (induction xs)
  case (Cons a xs)
  have "v \<in> set (List.map_filter g xs)" if "z \<in> set xs" "g z = Some v" for z
    using that by (force simp: set_map_filter)
  with Cons show ?case by (auto simp: List.map_filter_simps split: option.splits)
qed simp

lemma find_key:
  assumes "devices_ok t" and "r \<in> set (devices t)" and "d_api_key_hash r = Some h" and "sql_trim h \<noteq> []"
  shows "find (\<lambda>x. d_api_key_hash x = Some h) (devices t) = Some r"
proof -
  let ?P = "\<lambda>x. d_api_key_hash x = Some h"
  have "find ?P (devices t) \<noteq> None" using assms(2,3) by (auto simp: find_None_iff)
  then obtain x where x: "find ?P (devices t) = Some x" by blast
  then have "x \<in> set (devices t)" "?P x" by (auto simp: find_Some_iff)
  moreover have "indexed_hash (Some h) = Some h" using assms(4) by (simp add: indexed_hash_def)
  ultimately have "x = r"
    using map_filter_unique [of "indexed_hash \<circ> d_api_key_hash" "devices t" x r h] assms(1-3)
    by (simp add: devices_ok_def indexed_hashes_def)
  then show ?thesis using x by simp
qed

lemma find_device: "devices_ok t \<Longrightarrow> r \<in> set (devices t) \<Longrightarrow> find (\<lambda>x. d_id x = d_id r) (devices t) = Some r"
  using find_unique by (fastforce simp: devices_ok_def)

lemma same_device:
  "devices_ok t \<Longrightarrow> r \<in> set (devices t) \<Longrightarrow> r' \<in> set (devices t) \<Longrightarrow> d_id r = d_id r' \<Longrightarrow> r = r'"
  unfolding devices_ok_def by (meson distinct_map inj_onD)

lemma GetDeviceByID_success:
  assumes "GetDeviceByID i d = (Inr dev, d')"
  obtains r where "r \<in> set (devices (tables d))" and "d_id r = i" and "scanDevice r = Inr dev"
    and "tables d' = tables d" and "0 < i"
  using assms
  by (auto simp: GetDeviceByID_def bindE_eq_Inr find_Some_iff dest!: query_tables split: if_splits option.splits)
    (metis nth_mem)

lemma scanDevice_fields:
  "scanDevice r = Inr dev \<Longrightarrow> Device_ID dev = d_id r \<and> Device_UserID dev = d_user_id r \<and>
    Device_Name dev = d_name r \<and> Device_SourceType dev = d_source_type r \<and>
    d_api_key_hash r = Some (Device_APIKeyHash dev)"
  by (auto simp: scanDevice_def split: option.splits sum.splits)

lemma GetDeviceByAPIKey_runs:
  assumes "calm d" and "db_inv (tables d)" and "r \<in> set (devices (tables d))"
    and "d_api_key_hash r = Some (hashDeviceAPIKey k)" and "trimSpace k \<noteq> []"
    and "scanDevice r = Inr dev" and "0 < d_id r"
  shows "\<exists>d'. GetDeviceByAPIKey k d = (Inr dev, d') \<and> tables d' = tables d"
proof -
  have ok: "devices_ok (tables d)" using assms(2) by (simp add: db_inv_def)
  note F = find_key [OF ok assms(3,4)] find_device [OF ok assms(3)]
  show ?thesis
    using assms(1,5-7) F
    by (simp add: GetDeviceByAPIKey_def Let_def GetDeviceByID_def query_def exec_def calm_def bindE_def fromE_def)
qed

lemma GetDeviceByAPIKey_success:
  assumes "GetDeviceByAPIKey k d = (Inr dev, d')"
  obtains r where "r \<in> set (devices (tables d))" and "d_api_key_hash r = Some (hashDeviceAPIKey k)"
    and "trimSpace k \<noteq> []"
    and "\<exists>r' \<in> set (devices (tables d)). d_id r' = d_id r \<and> scanDevice r' = Inr dev" and "0 < d_id r"
    and "tables d' = tables d"
proof -
  from assms have k: "trimSpace k \<noteq> []"
    by (auto simp: GetDeviceByAPIKey_def Let_def split: if_splits)
  with assms obtain i d1 where q: "query (\<lambda>t. case find (\<lambda>r. d_api_key_hash r = Some (hashDeviceAPIKey k)) (devices t) of
        None \<Rightarrow> Inl ErrDeviceNotFound | Some r \<Rightarrow> Inr (d_id r)) d = (Inr i, d1)"
    and g: "GetDeviceByID i d1 = (Inr dev, d')"
    by (auto simp: GetDeviceByAPIKey_def Let_def bindE_eq_Inr)
  from query_tables [OF q] obtain r where r: "find (\<lambda>r. d_api_key_hash r = Some (hashDeviceAPIKey k)) (devices (tables d)) = Some r"
      "d_id r = i" and t: "tables d1 = tables d" by (auto split: option.splits)
  from r(1) have "r \<in> set (devices (tables d))" "d_api_key_hash r = Some (hashDeviceAPIKey k)"
    by (auto simp: find_Some_iff)
  with GetDeviceByID_success [OF g] r(2) k t that show thesis by metis
qed

lemma ensure_user_step:
  assumes "(if user = 1 then exec insert_default_user else returnE ()) d = (Inr x, d')"
    and "db_inv (tables d)"
  shows "db_inv (tables d')" and "devices (tables d') = devices (tables d)"
    and "last_device_id (tables d') = last_device_id (tables d)"
    and "user = (1 :: int) \<Longrightarrow> \<exists>fk now. insert_default_user fk now (tables d) = Inr ((), tables d')"
proof -
  have frame: "devices t' = devices t \<and> last_device_id t' = last_device_id t"
    if "insert_default_user fk now t = Inr (y, t')" for fk now t y t'
    using that by (auto simp: insert_default_user_def split: if_splits)
  have one: "\<exists>fk now. insert_default_user fk now (tables d) = Inr (x, tables d')" if "user = 1"
    using assms(1) that exec_tables [of insert_default_user d x d'] by simp
  show "db_inv (tables d')" and "devices (tables d') = devices (tables d)"
    and "last_device_id (tables d') = last_device_id (tables d)"
    using one insert_default_user_inv frame assms by (cases "user = 1"; force)+
  show "\<exists>fk now. insert_default_user fk now (tables d) = Inr ((), tables d')" if "user = 1"
    using one [OF that] by simp
qed

lemma CreateDevice_success:
  assumes "CreateDevice params d = (Inr dev, d1)" and "db_inv (tables d)"
  obtains r where "devices (tables d1) = devices (tables d) @ [r]" and "scanDevice r = Inr dev" and "0 < d_id r"
    and "d_api_key_hash r = Some (hashDeviceAPIKey (CD_APIKey params))" and "trimSpace (CD_APIKey params) \<noteq> []"
    and "d_user_id r = (if CD_UserID params \<le> 0 then 1 else CD_UserID params)"
    and "d_name r = trimSpace (CD_Name params)" and "d_source_type r = trimSpace (CD_SourceType params)"
    and "CD_UserID params \<le> 1 \<Longrightarrow>
      \<exists>fk now t. insert_default_user fk now (tables d) = Inr ((), t) \<and> users (tables d1) = users t"
proof -
  let ?user = "if CD_UserID params \<le> 0 then 1 else CD_UserID params"
  have key: "trimSpace (CD_APIKey params) \<noteq> []"
    using assms(1) by (auto simp: CreateDevice_def Let_def split: if_splits)
  from assms(1) obtain sentinel d2 x d3 now d4 i d5 where
    s: "generateAPIKeySentinel d = (Inr sentinel, d2)"
    and u: "(if ?user = 1 then exec insert_default_user else returnE ()) d2 = (Inr x, d3)"
    and n: "time_Now d3 = (Inr now, d4)"
    and ins: "exec (insert_device ?user (trimSpace (CD_Name params)) (trimSpace (CD_SourceType params)) sentinel
           (hashDeviceAPIKey (trimSpace (CD_APIKey params))) (buildAPIKeyPreview (trimSpace (CD_APIKey params)))
           (fmt_RFC3339Nano now)) d4 = (Inr i, d5)"
    and get: "GetDeviceByID i d5 = (Inr dev, d1)"
    by (auto simp: CreateDevice_def Let_def bindE_eq_Inr split: if_splits)
  have t2: "tables d2 = tables d" using s generateAPIKeySentinel_tables by metis
  note t3 = ensure_user_step [OF u, unfolded t2, OF assms(2)]
  have t4: "tables d4 = tables d3" using n time_Now_tables by metis
  from exec_tables [OF ins] obtain fk w where
    row: "insert_device ?user (trimSpace (CD_Name params)) (trimSpace (CD_SourceType params)) sentinel
           (hashDeviceAPIKey (trimSpace (CD_APIKey params))) (buildAPIKeyPreview (trimSpace (CD_APIKey params)))
           (fmt_RFC3339Nano now) fk w (tables d3) = Inr (i, tables d5)" unfolding t4 by blast
  note inv5 = insert_device_inv [OF row t3(1)]
  from insert_device_frame(4) [OF row] obtain r where
    r: "devices (tables d5) = devices (tables d3) @ [r]" "d_id r = i" "d_user_id r = ?user"
      "d_name r = trimSpace (CD_Name params)" "d_source_type r = trimSpace (CD_SourceType params)"
      "d_api_key_hash r = Some (hashDeviceAPIKey (trimSpace (CD_APIKey params)))" by blast
  from GetDeviceByID_success [OF get] obtain r' where
    r': "r' \<in> set (devices (tables d5))" "d_id r' = i" "scanDevice r' = Inr dev" "tables d1 = tables d5" "0 < i" .
  have "r \<in> set (devices (tables d5))" "devices_ok (tables d5)" using r(1) inv5 by (simp_all add: db_inv_def)
  then have "r' = r" using same_device r'(1,2) r(2) by blast
  moreover have "users (tables d1) = users (tables d3)" using insert_device_frame(3) [OF row] r'(4) by simp
  moreover have "?user = 1" if "CD_UserID params \<le> 1" using that by auto
  ultimately show thesis
    using that [of r] r r' t3 key by (metis hash_trim)
qed

lemma hash_same_trim: "trimSpace k = trimSpace k' \<Longrightarrow> hashDeviceAPIKey k = hashDeviceAPIKey k'"
  by (simp add: hashDeviceAPIKey_def)

text \<open>
  Claim C25. A device that was registered is found by its key, with any surrounding white space, as
  long as its row stays as it is; the row belongs to the user, and has the name and the source type it was
  registered with. A key with another SHA-256 never authenticates as this device.
\<close>

theorem device_key_authenticates:
  assumes "db_inv (tables d)" and "CreateDevice params d = (Inr dev, d1)"
    and "db_inv (tables d2)" and "devices (tables d2) = devices (tables d1)"
  shows "Device_UserID dev = (if CD_UserID params \<le> 0 then 1 else CD_UserID params) \<and>
    Device_Name dev = trimSpace (CD_Name params) \<and> Device_SourceType dev = trimSpace (CD_SourceType params) \<and>
    (calm d2 \<longrightarrow> trimSpace k = trimSpace (CD_APIKey params) \<longrightarrow>
       (\<exists>d3. GetDeviceByAPIKey k d2 = (Inr dev, d3) \<and> tables d3 = tables d2)) \<and>
    (hashDeviceAPIKey k \<noteq> hashDeviceAPIKey (CD_APIKey params) \<longrightarrow>
       (\<forall>other d3. GetDeviceByAPIKey k d2 = (Inr other, d3) \<longrightarrow> Device_ID other \<noteq> Device_ID dev))"
proof -
  obtain r where r: "devices (tables d1) = devices (tables d) @ [r]" "scanDevice r = Inr dev" "0 < d_id r"
    "d_api_key_hash r = Some (hashDeviceAPIKey (CD_APIKey params))" "trimSpace (CD_APIKey params) \<noteq> []"
    "d_user_id r = (if CD_UserID params \<le> 0 then 1 else CD_UserID params)"
    "d_name r = trimSpace (CD_Name params)" "d_source_type r = trimSpace (CD_SourceType params)"
    using CreateDevice_success [OF assms(2,1)] by metis
  have mem: "r \<in> set (devices (tables d2))" using r(1) assms(4) by simp
  have found: "\<exists>d3. GetDeviceByAPIKey k d2 = (Inr dev, d3) \<and> tables d3 = tables d2"
    if "calm d2" "trimSpace k = trimSpace (CD_APIKey params)"
    using GetDeviceByAPIKey_runs [OF that(1) assms(3) mem, of k dev] r that(2) hash_same_trim [OF that(2)] by simp
  have other: "Device_ID other \<noteq> Device_ID dev"
    if diff: "hashDeviceAPIKey k \<noteq> hashDeviceAPIKey (CD_APIKey params)"
      and g: "GetDeviceByAPIKey k d2 = (Inr other, d3)" for other d3
  proof
    assume same: "Device_ID other = Device_ID dev"
    obtain r2 r3 where r2: "r2 \<in> set (devices (tables d2))" "d_api_key_hash r2 = Some (hashDeviceAPIKey k)"
      "d_id r3 = d_id r2" "scanDevice r3 = Inr other"
      using GetDeviceByAPIKey_success [OF g] by metis
    then have "d_id r2 = d_id r"
      using same scanDevice_fields [OF r2(4)] scanDevice_fields [OF r(2)] by simp
    moreover have "devices_ok (tables d2)" using assms(3) by (simp add: db_inv_def)
    ultimately have "r2 = r" using same_device r2(1) mem by blast
    with r2(2) r(4) diff show False by simp
  qed
  have fields: "Device_UserID dev = (if CD_UserID params \<le> 0 then 1 else CD_UserID params)"
    "Device_Name dev = trimSpace (CD_Name params)" "Device_SourceType dev = trimSpace (CD_SourceType params)"
    using scanDevice_fields [OF r(2)] r(6-8) by simp_all
  show ?thesis by (intro conjI impI allI fields) (rule found other; assumption)+
qed

lemma RotateDeviceAPIKey_success:
  assumes "RotateDeviceAPIKey i new d = (Inr dev, d1)" and "db_inv (tables d)"
  obtains sentinel preview upd where
    "devices (tables d1) = map (\<lambda>r. if d_id r = i
       then set_key sentinel (hashDeviceAPIKey new) preview r\<lparr>d_updated_at := upd\<rparr> else r) (devices (tables d))"
    and "0 < i" and "trimSpace new \<noteq> []" and "db_inv (tables d1)"
    and "\<exists>r \<in> set (devices (tables d1)). d_id r = i \<and> scanDevice r = Inr dev"
proof -
  have inv: "db_inv (tables d1)" using keepsD [OF keeps_RotateDeviceAPIKey assms(2,1)] .
  have new: "trimSpace new \<noteq> []"
    using assms(1) by (auto simp: RotateDeviceAPIKey_def Let_def split: if_splits)
  from assms(1) obtain sentinel d2 now d3 n d4 where
    s: "generateAPIKeySentinel d = (Inr sentinel, d2)" and t: "time_Now d2 = (Inr now, d3)"
    and u: "exec (update_key sentinel (hashDeviceAPIKey (trimSpace new))
       (\<lambda>r. set_key sentinel (hashDeviceAPIKey (trimSpace new)) (buildAPIKeyPreview (trimSpace new)) r
          \<lparr>d_updated_at := Some (fmt_RFC3339Nano now)\<rparr>) i) d3 = (Inr n, d4)"
    and n: "n \<noteq> 0" and get: "GetDeviceByID i d4 = (Inr dev, d1)"
    by (auto simp: RotateDeviceAPIKey_def Let_def bindE_eq_Inr split: if_splits)
  have t3: "tables d3 = tables d" using s t generateAPIKeySentinel_tables time_Now_tables by metis
  from exec_tables [OF u] n have
    t4: "tables d4 = update_devices i (\<lambda>r. set_key sentinel (hashDeviceAPIKey new) (buildAPIKeyPreview (trimSpace new)) r
          \<lparr>d_updated_at := Some (fmt_RFC3339Nano now)\<rparr>) (tables d)"
    unfolding t3 by (auto simp: update_key_def Let_def split: if_splits)
  from GetDeviceByID_success [OF get] obtain r where
    r: "r \<in> set (devices (tables d4))" "d_id r = i" "scanDevice r = Inr dev" "tables d1 = tables d4" "0 < i" .
  have "devices (tables d1) = map (\<lambda>r. if d_id r = i
       then set_key sentinel (hashDeviceAPIKey new) (buildAPIKeyPreview (trimSpace new)) r
              \<lparr>d_updated_at := Some (fmt_RFC3339Nano now)\<rparr> else r) (devices (tables d))"
    unfolding r(4) t4 update_devices_def by simp
  moreover have "\<exists>r \<in> set (devices (tables d1)). d_id r = i \<and> scanDevice r = Inr dev"
    using r by metis
  ultimately show thesis using that r(5) new inv by blast
qed

text \<open>
  Claim C26. Rotating the key of a device revokes the old key at once: from then on (as long as the device
  rows stay as they are) the new key finds the same device of the same user, and the old one finds nothing.
\<close>

theorem rotation_revokes_old_key:
  assumes "db_inv (tables d)" and "r \<in> set (devices (tables d))"
    and "d_api_key_hash r = Some (hashDeviceAPIKey old)" and "trimSpace old \<noteq> []"
    and "RotateDeviceAPIKey (d_id r) new d = (Inr dev, d1)"
    and "hashDeviceAPIKey new \<noteq> hashDeviceAPIKey old"
    and "calm d2" and "db_inv (tables d2)" and "devices (tables d2) = devices (tables d1)"
  shows "Device_ID dev = d_id r \<and> Device_UserID dev = d_user_id r \<and>
    (\<exists>d3. GetDeviceByAPIKey new d2 = (Inr dev, d3)) \<and>
    fst (GetDeviceByAPIKey old d2) = Inl ErrDeviceNotFound"
proof -
  obtain sentinel preview upd where
    ds: "devices (tables d1) = map (\<lambda>x. if d_id x = d_id r
       then set_key sentinel (hashDeviceAPIKey new) preview x\<lparr>d_updated_at := upd\<rparr> else x) (devices (tables d))"
    and pos: "0 < d_id r" and new: "trimSpace new \<noteq> []" and "db_inv (tables d1)"
    and ex: "\<exists>x \<in> set (devices (tables d1)). d_id x = d_id r \<and> scanDevice x = Inr dev"
    by (rule RotateDeviceAPIKey_success [OF assms(5,1)])
  let ?row = "set_key sentinel (hashDeviceAPIKey new) preview r\<lparr>d_updated_at := upd\<rparr>"
  have mem: "?row \<in> set (devices (tables d2))"
  proof -
    let ?f = "\<lambda>x. if d_id x = d_id r
       then set_key sentinel (hashDeviceAPIKey new) preview x\<lparr>d_updated_at := upd\<rparr> else x"
    have "?f r \<in> ?f ` set (devices (tables d))" using assms(2) by (rule imageI)
    then have "?f r \<in> set (devices (tables d2))" unfolding assms(9) ds set_map .
    then show ?thesis by simp
  qed
  obtain x where x: "x \<in> set (devices (tables d2))" "d_id x = d_id r" "scanDevice x = Inr dev"
    using ex assms(9) by metis
  have ok: "devices_ok (tables d)" "devices_ok (tables d2)" using assms(1,8) by (simp_all add: db_inv_def)
  have "x = ?row" using same_device [OF ok(2) x(1) mem] x(2) by (simp add: set_key_def)
  then have scan: "scanDevice ?row = Inr dev" using x(3) by simp
  have fields: "Device_ID dev = d_id r" "Device_UserID dev = d_user_id r"
    using scanDevice_fields [OF scan] by (simp_all add: set_key_def)
  have "\<exists>d3. GetDeviceByAPIKey new d2 = (Inr dev, d3) \<and> tables d3 = tables d2"
    by (rule GetDeviceByAPIKey_runs [OF assms(7,8) mem _ new scan]) (use pos in \<open>simp_all add: set_key_def\<close>)
  moreover have "d_api_key_hash y \<noteq> Some (hashDeviceAPIKey old)" if y: "y \<in> set (devices (tables d2))" for y
  proof
    assume h: "d_api_key_hash y = Some (hashDeviceAPIKey old)"
    obtain z where z: "z \<in> set (devices (tables d))" "y = (if d_id z = d_id r
       then set_key sentinel (hashDeviceAPIKey new) preview z\<lparr>d_updated_at := upd\<rparr> else z)"
      using y assms(9) ds by auto
    show False
    proof (cases "d_id z = d_id r")
      case True
      then show False using z(2) h assms(6) by (simp add: set_key_def)
    next
      case False
      then have "d_api_key_hash z = Some (hashDeviceAPIKey old)" using z(2) h by simp
      then have "find (\<lambda>x. d_api_key_hash x = Some (hashDeviceAPIKey old)) (devices (tables d)) = Some z"
        by (rule find_key [OF ok(1) z(1)]) (simp add: assms(4))
      moreover have "find (\<lambda>x. d_api_key_hash x = Some (hashDeviceAPIKey old)) (devices (tables d)) = Some r"
        by (rule find_key [OF ok(1) assms(2,3)]) (simp add: assms(4))
      ultimately show False using False by simp
    qed
  qed
  then have "find (\<lambda>x. d_api_key_hash x = Some (hashDeviceAPIKey old)) (devices (tables d2)) = None"
    by (simp add: find_None_iff)
  then have "fst (GetDeviceByAPIKey old d2) = Inl ErrDeviceNotFound"
    using assms(4,7) by (simp add: GetDeviceByAPIKey_def Let_def query_def exec_def calm_def bindE_def)
  ultimately show ?thesis using fields by blast
qed

section \<open>The backfill\<close>

definition refill :: "device_row \<Rightarrow> device_row" where
  "refill r =
     (case pending_update r of
        None \<Rightarrow> r | Some u \<Rightarrow> set_key (pu_sentinel u) (pu_hash u) (pu_preview u) r)"

definition apply_one :: "pendingUpdate \<Rightarrow> device_row \<Rightarrow> device_row" where
  "apply_one u r = (if d_id r = pu_id u then set_key (pu_sentinel u) (pu_hash u) (pu_preview u) r else r)"

lemma update_key_devices:
  assumes "update_key (pu_sentinel u) h (set_key (pu_sentinel u) (pu_hash u) (pu_preview u)) (pu_id u) fk now t = Inr (n, t')"
  shows "t' = t\<lparr>devices := map (apply_one u) (devices t)\<rparr>"
proof (cases "device_exists (pu_id u) t")
  case True
  then show ?thesis
    using assms by (auto simp: update_key_def Let_def update_devices_def apply_one_def fun_eq_iff split: if_splits)
next
  case False
  then have "map (apply_one u) (devices t) = devices t"
    unfolding apply_one_def device_exists_def by (intro map_idI) (metis imageI)
  then show ?thesis using assms False by (simp add: update_key_def)
qed

lemma applyUpdates_devices:
  "applyUpdates us d = (Inr x, d') \<Longrightarrow>
   tables d' = (tables d)\<lparr>devices := map (fold apply_one us) (devices (tables d))\<rparr>"
proof (induction us arbitrary: d)
  case (Cons u us)
  then obtain n d1 where
    e: "exec (update_key (pu_sentinel u) (pu_hash u) (set_key (pu_sentinel u) (pu_hash u) (pu_preview u)) (pu_id u)) d = (Inr n, d1)"
    and r: "applyUpdates us d1 = (Inr x, d')" by (auto simp: bindE_eq_Inr)
  from exec_tables [OF e] update_key_devices have
    "tables d1 = (tables d)\<lparr>devices := map (apply_one u) (devices (tables d))\<rparr>" by blast
  with Cons.IH [OF r] show ?case by (simp add: comp_def)
qed simp

lemma fold_apply_one:
  assumes "distinct (map pu_id us)"
  shows "fold apply_one us r =
    (case find (\<lambda>u. pu_id u = d_id r) us of
       None \<Rightarrow> r | Some u \<Rightarrow> set_key (pu_sentinel u) (pu_hash u) (pu_preview u) r)"
  using assms
proof (induction us arbitrary: r)
  case (Cons u us)
  have id: "d_id (set_key a b c r) = d_id r" for a b c by (simp add: set_key_def)
  show ?case
  proof (cases "pu_id u = d_id r")
    case True
    have "find (\<lambda>v. pu_id v = d_id r) us = None"
      unfolding find_None_iff using Cons.prems True by (metis distinct.simps(2) image_eqI list.simps(9) set_map)
    with True Cons show ?thesis by (simp add: apply_one_def id)
  next
    case False
    with Cons show ?thesis by (simp add: apply_one_def)
  qed
qed simp

lemma pending_update_id: "pending_update r = Some u \<Longrightarrow> pu_id u = d_id r"
  by (auto simp: pending_update_def Let_def split: if_splits)

lemma pending_updates_distinct:
  assumes "distinct (map d_id rs)"
  shows "distinct (map pu_id (List.map_filter pending_update rs))"
    and "r \<in> set rs \<Longrightarrow> find (\<lambda>u. pu_id u = d_id r) (List.map_filter pending_update rs) = pending_update r"
proof -
  show dist: "distinct (map pu_id (List.map_filter pending_update rs))"
    using assms
  proof (induction rs)
    case (Cons a rs)
    have ids: "pu_id ` set (List.map_filter pending_update rs) \<subseteq> d_id ` set rs"
      using pending_update_id by (fastforce simp: set_map_filter)
    show ?case
    proof (cases "pending_update a")
      case None
      then show ?thesis using Cons by (simp add: List.map_filter_simps)
    next
      case (Some u)
      then have "pu_id u \<notin> pu_id ` set (List.map_filter pending_update rs)"
        using ids pending_update_id [OF Some] Cons.prems by auto
      then show ?thesis using Cons Some by (simp add: List.map_filter_simps)
    qed
  qed (simp add: List.map_filter_simps)
  assume r: "r \<in> set rs"
  let ?us = "List.map_filter pending_update rs"
  show "find (\<lambda>u. pu_id u = d_id r) ?us = pending_update r"
  proof (cases "pending_update r")
    case None
    have "pu_id u \<noteq> d_id r" if u: "u \<in> set ?us" for u
    proof
      assume same: "pu_id u = d_id r"
      obtain x where "x \<in> set rs" "pending_update x = Some u" using u by (auto simp: set_map_filter)
      then have "x = r" using same pending_update_id assms r by (metis distinct_map inj_onD)
      then show False using \<open>pending_update x = Some u\<close> None by simp
    qed
    then show ?thesis using None by (auto simp: find_None_iff)
  next
    case (Some u)
    then have "u \<in> set ?us" using r by (force simp: set_map_filter)
    then show ?thesis using find_unique [OF dist] Some pending_update_id by metis
  qed
qed

lemma backfill_rows:
  assumes "backfillDeviceAPIKeyHashes d = (Inr x, d')" and "db_inv (tables d)"
  shows "tables d' = (tables d)\<lparr>devices := map refill (devices (tables d))\<rparr>"
proof -
  let ?us = "List.map_filter pending_update (sort_key d_id (devices (tables d)))"
  from assms(1) obtain d1 d2 d3 d4 us where
    s: "sql_call d = (Inr (), d1)" "sql_call d1 = (Inr (), d2)" "sql_call d2 = (Inr (), d3)"
    and q: "query (\<lambda>t. Inr (List.map_filter pending_update (sort_key d_id (devices t)))) d3 = (Inr us, d4)"
    and r: "(if us = [] then returnE () else in_tx (bindE sql_call (\<lambda>_. applyUpdates us))) d4 = (Inr x, d')"
    by (auto simp: backfillDeviceAPIKeyHashes_def bindE_eq_Inr)
  have t: "tables d4 = tables d" and us: "us = ?us"
    using query_tables [OF q] s sql_call_tables by auto
  have "distinct (map d_id (sort_key d_id (devices (tables d))))"
    using assms(2) by (simp add: db_inv_def devices_ok_def distinct_map)
  note P = pending_updates_distinct [OF this]
  have fold: "fold apply_one us row = refill row" if "row \<in> set (devices (tables d))" for row
    using fold_apply_one [OF P(1), of row] P(2) [of row] that us by (simp add: refill_def)
  show ?thesis
  proof (cases "us = []")
    case True
    then have "map refill (devices (tables d)) = devices (tables d)"
      using fold by (intro map_idI) (metis fold_simps(1))
    then show ?thesis using r True t by simp
  next
    case False
    then have "in_tx (bindE sql_call (\<lambda>_. applyUpdates us)) d4 = (Inr x, d')" using r by simp
    then obtain e1 e2 where e: "bindE sql_call (\<lambda>_. applyUpdates us) e1 = (Inr x, e2)"
      "tables e1 = tables d4" "tables d' = tables e2"
      by (rule in_tx_success)
    then obtain e3 u where "sql_call e1 = (Inr u, e3)" "applyUpdates us e3 = (Inr x, e2)"
      by (auto simp: bindE_eq_Inr)
    then have "tables e2 = (tables d)\<lparr>devices := map (fold apply_one us) (devices (tables d))\<rparr>"
      using applyUpdates_devices sql_call_tables e(2) t by metis
    moreover have "map (fold apply_one us) (devices (tables d)) = map refill (devices (tables d))"
      using fold by simp
    ultimately show ?thesis using e(3) by simp
  qed
qed

lemma hash_nonempty_trim [simp]: "trimSpace (hashDeviceAPIKey k) = hashDeviceAPIKey k"
proof (cases "trimSpace k = []")
  case False
  then have "hashDeviceAPIKey k = sha256_hex (trimSpace k)" by (simp add: hashDeviceAPIKey_def)
  moreover have "trimSpace (sha256_hex s) = sha256_hex s" for s
    by (intro trimSpace_graphic sha256_hex_graphic [of _ s]) simp_all
  ultimately show ?thesis by simp
qed (simp add: hashDeviceAPIKey_def)

text \<open>
  Claim C27. Opening the store keeps every device reachable by its key. A key that authenticated as a device
  still does; a device that only had a plain key gets that key's SHA-256, so its key starts to
  authenticate; and afterwards no row with a hash holds a plain key, only a marker made of the row id. Nothing
  but the three key columns of the devices changes.
\<close>

theorem backfill_keeps_keys:
  assumes "db_inv (tables d)" and "OpenSQLiteStore d = (Inr (), d1)"
  shows "db_inv (tables d1) \<and> (tables d1)\<lparr>devices := devices (tables d)\<rparr> = tables d \<and>
    list_all2 (\<lambda>r r'.
        r' = r\<lparr>d_api_key := d_api_key r', d_api_key_hash := d_api_key_hash r', d_api_key_preview := d_api_key_preview r'\<rparr> \<and>
        (\<forall>k. trimSpace k \<noteq> [] \<longrightarrow> d_api_key_hash r = Some (hashDeviceAPIKey k) \<longrightarrow>
           d_api_key_hash r' = Some (hashDeviceAPIKey k)) \<and>
        (trimSpace (coalesce (d_api_key_hash r)) = [] \<longrightarrow> trimSpace (d_api_key r) \<noteq> [] \<longrightarrow>
           d_api_key_hash r' = Some (hashDeviceAPIKey (d_api_key r))) \<and>
        (trimSpace (coalesce (d_api_key_hash r')) \<noteq> [] \<longrightarrow>
           trimSpace (d_api_key r') = trimSpace (''hashonly:'' @ fmt_int (d_id r))))
      (devices (tables d)) (devices (tables d1))"
proof -
  obtain d2 where "sql_call d = (Inr (), d2)" and b: "backfillDeviceAPIKeyHashes (d2\<lparr>fk_on := True\<rparr>) = (Inr (), d1)"
    using assms(2) by (auto simp: OpenSQLiteStore_def bindE_eq_Inr)
  then have "tables (d2\<lparr>fk_on := True\<rparr>) = tables d" using sql_call_tables by simp
  then have t: "tables d1 = (tables d)\<lparr>devices := map refill (devices (tables d))\<rparr>"
    using backfill_rows [OF b] assms(1) by simp
  have row: "refill r = r\<lparr>d_api_key := d_api_key (refill r), d_api_key_hash := d_api_key_hash (refill r),
        d_api_key_preview := d_api_key_preview (refill r)\<rparr>" for r
    by (simp add: refill_def set_key_def split: option.split)
  have kept: "d_api_key_hash (refill r) = Some (hashDeviceAPIKey k)"
    if "trimSpace k \<noteq> []" "d_api_key_hash r = Some (hashDeviceAPIKey k)" for r k
    using that by (auto simp: refill_def pending_update_def Let_def coalesce_def set_key_def)
  have filled: "d_api_key_hash (refill r) = Some (hashDeviceAPIKey (d_api_key r))"
    if "trimSpace (coalesce (d_api_key_hash r)) = []" "trimSpace (d_api_key r) \<noteq> []" for r
  proof -
    have "coalesce (d_api_key_hash r) \<noteq> hashDeviceAPIKey (d_api_key r)" using that by (metis hash_empty hash_nonempty_trim)
    then show ?thesis using that by (simp add: refill_def pending_update_def Let_def set_key_def)
  qed
  have marked: "trimSpace (d_api_key (refill r)) = trimSpace (''hashonly:'' @ fmt_int (d_id r))"
    if "trimSpace (coalesce (d_api_key_hash (refill r))) \<noteq> []" for r
  proof (cases "pending_update r")
    case None
    then have "trimSpace (coalesce (d_api_key_hash r)) \<noteq> []" using that by (simp add: refill_def)
    then have "trimSpace (d_api_key r) = ''hashonly:'' @ fmt_int (d_id r)"
      using None by (simp add: pending_update_def Let_def split: if_splits)
    then show ?thesis using None trimSpace_idem [of "d_api_key r"] by (simp add: refill_def)
  next
    case (Some u)
    then show ?thesis by (auto simp: refill_def pending_update_def Let_def set_key_def split: if_splits)
  qed
  have "db_inv (tables d1)" using keepsD [OF keeps_OpenSQLiteStore assms] .
  then show ?thesis using t row kept filled marked by (auto simp: list_all2_conv_all_nth)
qed

section \<open>The default user\<close>

text \<open>
  Registering a device for user 1 before any account exists creates the default user without an
  address and without \<^verbatim>\<open>updated_at\<close>. Such a row cannot be scanned: reading user 1 fails, and so does
  every listing of the users.
\<close>

theorem default_user_breaks_listing:
  assumes "CreateDevice params d = (Inr dev, d1)" and "db_inv (tables d)"
    and "CD_UserID params \<le> 1" and "\<not> user_exists 1 (tables d)"
    and "calm d2" and "users (tables d2) = users (tables d1)"
  shows "(\<exists>d3. GetUserByID 1 d2 = (Inl ErrScanNull, d3)) \<and> (\<exists>e d3. ListUsers d2 = (Inl e, d3))"
proof -
  obtain fk now t where "insert_default_user fk now (tables d) = Inr ((), t)" and t: "users (tables d1) = users t"
    using CreateDevice_success [OF assms(1,2)] assms(3) by metis
  then obtain r where us: "users t = users (tables d) @ [r]" and r: "u_id r = 1" "u_email r = None"
    using assms(4) by (auto simp: insert_default_user_def)
  have none: "find (\<lambda>x. u_id x = 1) (users (tables d)) = None"
    using assms(4) unfolding user_exists_def find_None_iff by force
  have "find (\<lambda>x. u_id x = 1) (xs @ [r]) = Some r" if "find (\<lambda>x. u_id x = 1) xs = None" for xs
    using that r by (induction xs) (auto split: if_splits)
  then have f: "find (\<lambda>x. u_id x = 1) (users (tables d2)) = Some r" using none us t assms(6) by simp
  have bad: "scanUser r = Inl ErrScanNull" using r by (simp add: scanUser_def)
  have "r \<in> set (sort_key u_id (users (tables d2)))" using us t assms(6) by simp
  then obtain e where "mapE scanUser (sort_key u_id (users (tables d2))) = Inl e" using bad mapE_fails by metis
  then show ?thesis
    using assms(5) f bad
    by (simp add: GetUserByID_def ListUsers_def query_def exec_def calm_def bindE_def fromE_def)
qed

section \<open>Witnesses\<close>

text \<open>Two known answers of SHA-256, the keys of the examples.\<close>

lemma sha256_abc:
  "sha256_hex ''abc'' = ''ba7816bf8f01cfea414140de5dae2223b00361a396177a9cb410ff61f20015ad''"
  by code_simp

lemma sha256_a:
  "sha256_hex ''a'' = ''ca978112ca1bbdcafac231b39a23dc4da786eff8147c4e72b9807785afee48bb''"
  by code_simp

lemma trim_keys: "trimSpace ''abc'' = ''abc''" "trimSpace ''a'' = ''a''" "trimSpace ''phone'' = ''phone''"
  by code_simp+

lemma keys_differ: "hashDeviceAPIKey ''a'' \<noteq> hashDeviceAPIKey ''abc''"
  by (simp add: hashDeviceAPIKey_def trim_keys sha256_abc sha256_a)

definition phone :: CreateDeviceParams where
  "phone = \<lparr>CD_UserID = 0, CD_Name = ''phone'', CD_SourceType = ''phone'', CD_APIKey = ''abc''\<rparr>"

definition phone_row :: device_row where
  "phone_row =
     \<lparr>d_id = 1, d_user_id = 1, d_name = ''phone'', d_source_type = ''phone'',
      d_api_key = ''hashonly:'' @ hex_EncodeToString (replicate 16 (char_of (0 :: nat))),
      d_api_key_hash = Some (hashDeviceAPIKey ''abc''), d_api_key_preview = Some (buildAPIKeyPreview ''abc''),
      d_last_seen_at = None, d_last_seq_received = 0, d_created_at = sql_strftime 0,
      d_updated_at = Some (fmt_RFC3339Nano 0)\<rparr>"

definition phone_device :: Device where
  "phone_device =
     \<lparr>Device_ID = 1, Device_UserID = 1, Device_Name = ''phone'', Device_SourceType = ''phone'',
      Device_APIKeyHash = hashDeviceAPIKey ''abc'', Device_APIKeyPreview = buildAPIKeyPreview ''abc'',
      Device_CreatedAt = 0, Device_UpdatedAt = 0, Device_LastSeenAt = None\<rparr>"

lemma epoch_parses: "parseDBTime (sql_strftime 0) = Inr 0" "valid_time 0"
  by code_simp+

lemma phone_scan: "scanDevice phone_row = Inr phone_device"
  by (simp add: scanDevice_def phone_row_def phone_device_def parseLastSeen_def epoch_parses)

lemma phone_created:
  "\<exists>d1. CreateDevice phone sample_db = (Inr phone_device, d1) \<and> calm d1 \<and> devices (tables d1) = [phone_row]"
  using phone_scan
  by (simp add: CreateDevice_def phone_def Let_def trim_keys generateAPIKeySentinel_def bindE_def rand_Read_def
      exec_def time_Now_def insert_default_user_def insert_device_def sample_db_def empty_tables_def
      user_exists_def indexed_hashes_def List.map_filter_simps GetDeviceByID_def query_def fromE_def calm_def
      phone_row_def)

theorem device_key_authenticates_witness:
  "\<exists>d1 d3. CreateDevice phone sample_db = (Inr phone_device, d1) \<and>
     GetDeviceByAPIKey ''abc'' d1 = (Inr phone_device, d3)"
proof -
  obtain d1 where d1: "CreateDevice phone sample_db = (Inr phone_device, d1)" "calm d1"
    using phone_created by blast
  have "db_inv (tables d1)" using keepsD [OF keeps_CreateDevice sample_db_inv(1) d1(1)] .
  from device_key_authenticates [OF sample_db_inv(1) d1(1) this refl, of "''abc''"] d1
  show ?thesis by (auto simp: phone_def)
qed

definition phone_db :: dbstate where
  "phone_db = sample_db\<lparr>tables := empty_tables\<lparr>devices := [phone_row], last_device_id := 1\<rparr>\<rparr>"

lemma phone_db_ok: "db_inv (tables phone_db)" "calm phone_db" "devices (tables phone_db) = [phone_row]"
  by (simp_all add: phone_db_def phone_row_def sample_db_def calm_def db_inv_def db_inv_defs empty_tables_def
      indexed_emails_def indexed_hashes_def indexed_hash_def List.map_filter_simps trim_keys)

definition rotated :: Device where
  "rotated = phone_device\<lparr>Device_APIKeyHash := hashDeviceAPIKey ''a'', Device_APIKeyPreview := buildAPIKeyPreview ''a''\<rparr>"

lemma phone_rotated: "\<exists>d1. RotateDeviceAPIKey 1 ''a'' phone_db = (Inr rotated, d1) \<and> calm d1"
  by (simp add: RotateDeviceAPIKey_def phone_db_def phone_row_def sample_db_def rotated_def phone_device_def
      Let_def trim_keys generateAPIKeySentinel_def bindE_def rand_Read_def exec_def time_Now_def update_key_def
      device_exists_def indexed_hashes_def List.map_filter_simps update_devices_def set_key_def GetDeviceByID_def
      query_def fromE_def scanDevice_def parseLastSeen_def epoch_parses calm_def empty_tables_def)

theorem rotation_revokes_old_key_witness:
  "\<exists>d1 d3. RotateDeviceAPIKey 1 ''a'' phone_db = (Inr rotated, d1) \<and>
     GetDeviceByAPIKey ''a'' d1 = (Inr rotated, d3) \<and>
     fst (GetDeviceByAPIKey ''abc'' d1) = Inl ErrDeviceNotFound"
proof -
  obtain d1 where d1: "RotateDeviceAPIKey 1 ''a'' phone_db = (Inr rotated, d1)" "calm d1"
    using phone_rotated by blast
  have inv: "db_inv (tables d1)" using keepsD [OF keeps_RotateDeviceAPIKey phone_db_ok(1) d1(1)] .
  have r: "phone_row \<in> set (devices (tables phone_db))" "d_id phone_row = 1"
    "d_api_key_hash phone_row = Some (hashDeviceAPIKey ''abc'')" "trimSpace ''abc'' \<noteq> []"
    using phone_db_ok(3) by (simp_all add: phone_row_def trim_keys)
  from rotation_revokes_old_key [OF phone_db_ok(1) r(1,3,4) d1(1) [folded r(2)] keys_differ d1(2) inv refl] d1
  show ?thesis by blast
qed

text \<open>A row of an installation from before the keys were hashed.\<close>

definition legacy_row :: device_row where
  "legacy_row = phone_row\<lparr>d_api_key := ''abc'', d_api_key_hash := None, d_api_key_preview := None\<rparr>"

definition legacy_db :: dbstate where
  "legacy_db = sample_db\<lparr>tables := empty_tables\<lparr>devices := [legacy_row], last_device_id := 1\<rparr>\<rparr>"

lemma legacy_db_ok: "db_inv (tables legacy_db)" "devices (tables legacy_db) = [legacy_row]"
  by (simp_all add: legacy_db_def legacy_row_def phone_row_def sample_db_def db_inv_def db_inv_defs
      empty_tables_def indexed_emails_def indexed_hashes_def indexed_hash_def List.map_filter_simps)

lemma legacy_opened: "\<exists>d1. OpenSQLiteStore legacy_db = (Inr (), d1)"
  by (simp add: OpenSQLiteStore_def backfillDeviceAPIKeyHashes_def legacy_db_def legacy_row_def phone_row_def
      sample_db_def sql_call_def bindE_def exec_def query_def pending_update_def coalesce_def Let_def trim_keys
      fmt_int_def dec.simps digit_char_def List.map_filter_simps in_tx_def update_key_def device_exists_def
      empty_tables_def indexed_hashes_def)

theorem backfill_keeps_keys_witness:
  "\<exists>d1 r. OpenSQLiteStore legacy_db = (Inr (), d1) \<and> devices (tables d1) = [r] \<and>
     d_api_key_hash r = Some (hashDeviceAPIKey ''abc'') \<and> trimSpace (d_api_key r) = trimSpace (''hashonly:'' @ fmt_int 1)"
proof -
  obtain d1 where d1: "OpenSQLiteStore legacy_db = (Inr (), d1)" using legacy_opened by blast
  have l: "trimSpace (coalesce (d_api_key_hash legacy_row)) = []" "trimSpace (d_api_key legacy_row) \<noteq> []"
    "d_api_key legacy_row = ''abc''" "d_id legacy_row = 1"
    by (simp_all add: legacy_row_def phone_row_def coalesce_def trim_keys)
  have "trimSpace (hashDeviceAPIKey ''abc'') \<noteq> []" by (simp add: trim_keys)
  with backfill_keeps_keys [OF legacy_db_ok(1) d1] legacy_db_ok(2) l d1 show ?thesis
    by (auto simp: list_all2_Cons1 coalesce_def)
qed

theorem default_user_breaks_listing_witness:
  "\<exists>d1 e d3. CreateDevice phone sample_db = (Inr phone_device, d1) \<and> ListUsers d1 = (Inl e, d3)"
proof -
  obtain d1 where d1: "CreateDevice phone sample_db = (Inr phone_device, d1)" "calm d1"
    using phone_created by blast
  have "CD_UserID phone \<le> 1" "\<not> user_exists 1 (tables sample_db)"
    by (simp_all add: phone_def sample_db_def empty_tables_def user_exists_def)
  from default_user_breaks_listing [OF d1(1) sample_db_inv(1) this d1(2) refl] d1 show ?thesis by blast
qed

end
