(* ===== verification/StorePoints.thy ===== *)
theory StorePoints
  imports StoreAccounts
begin

text \<open>
  \<^verbatim>\<open>internal/store/points.go\<close>, \<^verbatim>\<open>internal/store/visit_generation_state.go\<close> and
  \<^verbatim>\<open>internal/store/visit_place_cache.go\<close>: the queries over the stored points, the watermarks of the
  visit scheduler and the cache of place names. Timestamps are compared as text, the way the
  queries do.
\<close>

section \<open>Points (points.go)\<close>

record RecentPoint =
  RP_Seq :: uint64
  RP_UserID :: int
  RP_DeviceID :: int
  RP_SourceType :: string
  RP_TimestampUTC :: gotime
  RP_Lat :: float64
  RP_Lon :: float64

record ExportPointFilter =
  F_DeviceRowID :: "int option"
  F_FromUTC :: "gotime option"
  F_ToUTC :: "gotime option"
  F_AfterSeq :: uint64
  F_UserID :: int

text \<open>A negative \<^verbatim>\<open>seq\<close> does not fit the \<^verbatim>\<open>uint64\<close> field.\<close>

definition scanPoint :: "raw_point_row \<Rightarrow> store_error + RecentPoint" where
  "scanPoint r =
     (if rp_seq r < 0 then Inl ErrScanNull
      else case parseDBTime (rp_timestamp_utc r) of
        Inl e \<Rightarrow> Inl e
      | Inr t \<Rightarrow>
          Inr \<lparr>RP_Seq = word_of_int (rp_seq r), RP_UserID = rp_user_id r, RP_DeviceID = rp_device_id r,
               RP_SourceType = rp_source_type r, RP_TimestampUTC = t, RP_Lat = rp_lat r, RP_Lon = rp_lon r\<rparr>)"

text \<open>\<^verbatim>\<open>ORDER BY rp.timestamp_utc ASC, rp.seq ASC\<close>.\<close>

definition by_time :: "raw_point_row list \<Rightarrow> raw_point_row list" where
  "by_time rows = sort_key (\<lambda>r. (rp_timestamp_utc r, rp_seq r)) rows"

definition in_range_text :: "gotime option \<Rightarrow> gotime option \<Rightarrow> string \<Rightarrow> bool" where
  "in_range_text from to ts \<longleftrightarrow>
     (case from of None \<Rightarrow> True | Some t \<Rightarrow> fmt_RFC3339Nano t \<le> ts) \<and>
     (case to of None \<Rightarrow> True | Some t \<Rightarrow> ts \<le> fmt_RFC3339Nano t)"

definition point_where :: "ExportPointFilter \<Rightarrow> int \<Rightarrow> raw_point_row \<Rightarrow> bool" where
  "point_where f after r \<longleftrightarrow>
     (case F_DeviceRowID f of None \<Rightarrow> True | Some i \<Rightarrow> rp_device_id r = i) \<and>
     (F_UserID f > 0 \<longrightarrow> rp_user_id r = F_UserID f) \<and>
     in_range_text (F_FromUTC f) (F_ToUTC f) (rp_timestamp_utc r) \<and>
     (after > 0 \<longrightarrow> rp_seq r > after)"

definition clamp :: "int \<Rightarrow> int \<Rightarrow> int \<Rightarrow> int" where
  "clamp usual upper n = (if n \<le> 0 then usual else if n > upper then upper else n)"

text \<open>The newest first: the ascending order reversed (\<^verbatim>\<open>seq\<close> is unique, so it is total).\<close>

definition ListRecentPoints :: "int option \<Rightarrow> int \<Rightarrow> (dbstate, store_error, RecentPoint list) gomethod" where
  "ListRecentPoints deviceRowID n =
     bindE (query (\<lambda>t. Inr (take (nat (clamp 50 500 n))
       (rev (by_time (filter (\<lambda>r. case deviceRowID of None \<Rightarrow> True | Some i \<Rightarrow> rp_device_id r = i)
          (raw_points t))))))) (\<lambda>rows. fromE (mapE scanPoint rows))"

definition select_points :: "ExportPointFilter \<Rightarrow> int \<Rightarrow> tables \<Rightarrow> raw_point_row list" where
  "select_points f after t = by_time (filter (point_where f after) (raw_points t))"

definition ListPoints :: "ExportPointFilter \<Rightarrow> int \<Rightarrow> (dbstate, store_error, RecentPoint list) gomethod" where
  "ListPoints f n =
     bindE (fromE (bindUint64 (F_AfterSeq f))) (\<lambda>after.
     bindE (query (\<lambda>t. Inr (take (nat (clamp 500 5000 n)) (select_points f after t)))) (\<lambda>rows.
       fromE (mapE scanPoint rows)))"

text \<open>
  The callback of the stream works on a state of its own (the response writer). The result is the
  count and the error, as in Go.
\<close>

fun streamRows ::
  "(RecentPoint \<Rightarrow> 's \<Rightarrow> (store_error + unit) \<times> 's) \<Rightarrow> raw_point_row list \<Rightarrow> int \<Rightarrow> 's \<Rightarrow>
   (int \<times> store_error option) \<times> 's" where
  "streamRows fn [] count s = ((count, None), s)"
| "streamRows fn (r # rs) count s =
     (case scanPoint r of
        Inl e \<Rightarrow> ((count, Some e), s)
      | Inr p \<Rightarrow>
          (case fn p s of
             (Inl e, s1) \<Rightarrow> ((count, Some e), s1)
           | (Inr _, s1) \<Rightarrow> streamRows fn rs (count + 1) s1))"

definition StreamPointsForExport ::
  "ExportPointFilter \<Rightarrow> int \<Rightarrow> (RecentPoint \<Rightarrow> 's \<Rightarrow> (store_error + unit) \<times> 's) \<Rightarrow> 's \<Rightarrow> dbstate \<Rightarrow>
   ((int \<times> store_error option) \<times> 's) \<times> dbstate" where
  "StreamPointsForExport f n fn s d =
     (case bindE (fromE (bindUint64 (F_AfterSeq f))) (\<lambda>after.
             query (\<lambda>t. Inr (take (nat (clamp 5000 50000 n)) (select_points f after t)))) d of
        (Inl e, d1) \<Rightarrow> (((0, Some e), s), d1)
      | (Inr rows, d1) \<Rightarrow> (streamRows fn rows 0 s, d1))"

text \<open>Neither the user nor the cursor of the filter is looked at here.\<close>

definition ListPointsForExport :: "ExportPointFilter \<Rightarrow> (dbstate, store_error, RecentPoint list) gomethod" where
  "ListPointsForExport f =
     bindE (query (\<lambda>t. Inr (by_time (filter (\<lambda>r.
         (case F_DeviceRowID f of None \<Rightarrow> True | Some i \<Rightarrow> rp_device_id r = i) \<and>
         in_range_text (F_FromUTC f) (F_ToUTC f) (rp_timestamp_utc r)) (raw_points t))))) (\<lambda>rows.
       fromE (mapE scanPoint rows))"

section \<open>Watermarks (visit\_generation\_state.go)\<close>

record VisitGenerationState =
  VG_DeviceID :: int
  VG_LastProcessedSeq :: uint64
  VG_UpdatedAt :: gotime

text \<open>The second component of the Go results, \<^verbatim>\<open>ok\<close>, is whether the value is there.\<close>

definition GetVisitGenerationState :: "int \<Rightarrow> (dbstate, store_error, VisitGenerationState option) gomethod" where
  "GetVisitGenerationState i =
     (if i \<le> 0 then throwE (ErrRequired ''device_id'')
      else bindE (query (\<lambda>t. Inr (find (\<lambda>r. g_device_id r = i) (visit_generation_state t)))) (\<lambda>row.
        case row of
          None \<Rightarrow> returnE None
        | Some r \<Rightarrow>
            if g_last_processed_seq r < 0 then throwE ErrScanNull
            else bindE (fromE (parseDBTime (g_updated_at r))) (\<lambda>u.
              returnE (Some \<lparr>VG_DeviceID = g_device_id r,
                             VG_LastProcessedSeq = word_of_int (g_last_processed_seq r),
                             VG_UpdatedAt = u\<rparr>))))"

text \<open>\<^verbatim>\<open>INSERT ... ON CONFLICT(device_id) DO UPDATE\<close>.\<close>

definition upsert_gen_state ::
  "gen_state_row \<Rightarrow> bool \<Rightarrow> gotime \<Rightarrow> tables \<Rightarrow> store_error + unit \<times> tables" where
  "upsert_gen_state row fk now t =
     (if g_device_id row \<in> g_device_id ` set (visit_generation_state t)
      then Inr ((), t\<lparr>visit_generation_state :=
             map (\<lambda>r. if g_device_id r = g_device_id row then row else r) (visit_generation_state t)\<rparr>)
      else if fk \<and> \<not> device_exists (g_device_id row) t then Inl ErrForeignKey
      else Inr ((), t\<lparr>visit_generation_state := visit_generation_state t @ [row]\<rparr>))"

definition UpsertVisitGenerationState :: "int \<Rightarrow> uint64 \<Rightarrow> (dbstate, store_error, unit) gomethod" where
  "UpsertVisitGenerationState i lastProcessedSeq =
     (if i \<le> 0 then throwE (ErrRequired ''device_id'')
      else
        bindE time_Now (\<lambda>now.
        bindE (fromE (bindUint64 lastProcessedSeq)) (\<lambda>seq.
          exec (upsert_gen_state
            \<lparr>g_device_id = i, g_last_processed_seq = seq, g_updated_at = fmt_RFC3339Nano now\<rparr>))))"

text \<open>\<^verbatim>\<open>SELECT MAX(seq)\<close> of no rows is NULL.\<close>

definition max_point_seq :: "int \<Rightarrow> tables \<Rightarrow> int option" where
  "max_point_seq i t =
     (case map rp_seq (filter (\<lambda>r. rp_device_id r = i) (raw_points t)) of
        [] \<Rightarrow> None | n # ns \<Rightarrow> Some (fold max ns n))"

definition GetMaxPointSeqForDevice :: "int \<Rightarrow> (dbstate, store_error, uint64 option) gomethod" where
  "GetMaxPointSeqForDevice i =
     (if i \<le> 0 then throwE (ErrRequired ''device_id'')
      else bindE (query (\<lambda>t. Inr (max_point_seq i t))) (\<lambda>raw. returnE
        (case raw of None \<Rightarrow> None | Some n \<Rightarrow> if n \<le> 0 then None else Some (word_of_int n))))"

definition GetPointTimestampForDeviceSeq ::
  "int \<Rightarrow> uint64 \<Rightarrow> (dbstate, store_error, gotime option) gomethod" where
  "GetPointTimestampForDeviceSeq i seq =
     (if i \<le> 0 then throwE (ErrRequired ''device_id'')
      else if seq = 0 then returnE None
      else
        bindE (fromE (bindUint64 seq)) (\<lambda>n.
        bindE (query (\<lambda>t. Inr (find (\<lambda>r. rp_device_id r = i \<and> rp_seq r = n) (raw_points t)))) (\<lambda>row.
          case row of
            None \<Rightarrow> returnE None
          | Some r \<Rightarrow> bindE (fromE (parseDBTime (rp_timestamp_utc r))) (\<lambda>t. returnE (Some t)))))"

section \<open>Place names (visit\_place\_cache.go)\<close>

definition place_key :: "place_row \<Rightarrow> string \<times> string \<times> string" where
  "place_key r = (pl_provider r, pl_lat_key r, pl_lon_key r)"

definition GetVisitPlaceLabel ::
  "string \<Rightarrow> string \<Rightarrow> string \<Rightarrow> (dbstate, store_error, string option) gomethod" where
  "GetVisitPlaceLabel provider latKey lonKey =
     (let p = trimSpace provider; lat = trimSpace latKey; lon = trimSpace lonKey in
      if p = [] \<or> lat = [] \<or> lon = [] then returnE None
      else query (\<lambda>t. Inr (map_option pl_label (find (\<lambda>r. place_key r = (p, lat, lon)) (visit_place_cache t)))))"

definition upsert_place :: "place_row \<Rightarrow> bool \<Rightarrow> gotime \<Rightarrow> tables \<Rightarrow> store_error + unit \<times> tables" where
  "upsert_place row fk now t =
     (if place_key row \<in> place_key ` set (visit_place_cache t)
      then Inr ((), t\<lparr>visit_place_cache :=
             map (\<lambda>r. if place_key r = place_key row then row else r) (visit_place_cache t)\<rparr>)
      else Inr ((), t\<lparr>visit_place_cache := visit_place_cache t @ [row]\<rparr>))"

definition UpsertVisitPlaceLabel ::
  "string \<Rightarrow> string \<Rightarrow> string \<Rightarrow> string \<Rightarrow> (dbstate, store_error, unit) gomethod" where
  "UpsertVisitPlaceLabel provider latKey lonKey label =
     (let p = trimSpace provider; lat = trimSpace latKey; lon = trimSpace lonKey; v = trimSpace label in
      if p = [] \<or> lat = [] \<or> lon = [] \<or> v = [] then returnE ()
      else
        bindE time_Now (\<lambda>now.
          exec (upsert_place
            \<lparr>pl_provider = p, pl_lat_key = lat, pl_lon_key = lon, pl_label = v,
             pl_updated_at = fmt_RFC3339Nano now\<rparr>)))"

section \<open>The invariant\<close>

lemma keeps_point_reads [keeps_intros]:
  "keeps P (ListRecentPoints dev n)" "keeps P (ListPoints f n)" "keeps P (ListPointsForExport f)"
  "keeps P (GetMaxPointSeqForDevice i)" "keeps P (GetPointTimestampForDeviceSeq i seq)"
  "keeps P (GetVisitGenerationState i)" "keeps P (GetVisitPlaceLabel a b c)"
  unfolding ListRecentPoints_def ListPoints_def ListPointsForExport_def GetMaxPointSeqForDevice_def
    GetPointTimestampForDeviceSeq_def GetVisitGenerationState_def GetVisitPlaceLabel_def Let_def
  by (intro keeps_intros)+

lemma map_replaced:
  "(\<And>r. key (f r) = key r) \<Longrightarrow> map key (map (\<lambda>r. if P r then f r else r) xs) = map key xs"
  by simp

lemma map_replaced_by:
  "map key (map (\<lambda>r. if key r = key row then row else r) xs) = map key xs"
  by simp

lemma upsert_gen_state_inv: "upsert_gen_state row fk now t = Inr (x, t') \<Longrightarrow> db_inv t \<Longrightarrow> db_inv t'"
  using map_replaced_by [of g_device_id row "visit_generation_state t"]
  by (auto simp: upsert_gen_state_def db_inv_def db_inv_defs simp del: map_map split: if_splits)

lemma upsert_place_inv: "upsert_place row fk now t = Inr (x, t') \<Longrightarrow> db_inv t \<Longrightarrow> db_inv t'"
  using map_replaced_by [of place_key row "visit_place_cache t"]
  by (auto simp: upsert_place_def db_inv_def db_inv_defs place_key_def [abs_def] simp del: map_map split: if_splits)

lemma keeps_UpsertVisitGenerationState: "keeps db_inv (UpsertVisitGenerationState i n)"
  unfolding UpsertVisitGenerationState_def
  by (intro keeps_intros keeps_exec) (erule upsert_gen_state_inv; assumption)

lemma keeps_UpsertVisitPlaceLabel: "keeps db_inv (UpsertVisitPlaceLabel a b c l)"
  unfolding UpsertVisitPlaceLabel_def Let_def
  by (intro keeps_intros keeps_exec) (erule upsert_place_inv; assumption)

section \<open>What a query returns\<close>

text \<open>The first \<open>k\<close> of the sorted rows: the \<open>k\<close> smallest, in order.\<close>

lemma take_sorted:
  assumes "rows = take k (sort_key key xs)"
  shows "set rows \<subseteq> set xs" and "length rows = min k (length xs)" and "sorted (map key rows)"
    and "\<forall>x \<in> set xs. x \<notin> set rows \<longrightarrow> (\<forall>y \<in> set rows. key y \<le> key x)"
proof -
  let ?s = "sort_key key xs"
  show "set rows \<subseteq> set xs" using assms set_take_subset [of k ?s] by simp
  show "length rows = min k (length xs)" using assms by (simp add: min.commute)
  have s: "sorted (map key ?s)" by simp
  then show "sorted (map key rows)" unfolding assms take_map [symmetric] by (rule sorted_wrt_take)
  have "sorted (map key (rows @ drop k ?s))" using s assms by simp
  then have le: "\<forall>y \<in> set rows. \<forall>x \<in> set (drop k ?s). key y \<le> key x"
    by (simp add: sorted_append)
  have "set rows \<union> set (drop k ?s) = set xs"
    unfolding assms set_append [symmetric] append_take_drop_id by simp
  then show "\<forall>x \<in> set xs. x \<notin> set rows \<longrightarrow> (\<forall>y \<in> set rows. key y \<le> key x)"
    using le by blast
qed

lemma list_all2_origin: "list_all2 R xs ys \<Longrightarrow> y \<in> set ys \<Longrightarrow> \<exists>x \<in> set xs. R x y"
  by (induction rule: list_all2_induct) auto

lemma scanPoint_fields:
  "scanPoint r = Inr p \<Longrightarrow> RP_Seq p = word_of_int (rp_seq r) \<and> RP_UserID p = rp_user_id r \<and>
     RP_DeviceID p = rp_device_id r \<and> RP_Lat p = rp_lat r \<and> RP_Lon p = rp_lon r"
  by (auto simp: scanPoint_def split: if_splits sum.splits)

lemma ListPoints_runs:
  assumes "calm d" and "uint (F_AfterSeq f) < 2 ^ 63"
    and "\<forall>r \<in> set (raw_points (tables d)). \<exists>p. scanPoint r = Inr p"
  obtains out d' where "ListPoints f n d = (Inr out, d')" and "tables d' = tables d"
    and "list_all2 (\<lambda>r p. scanPoint r = Inr p)
      (take (nat (clamp 500 5000 n)) (select_points f (uint (F_AfterSeq f)) (tables d))) out"
proof -
  let ?rows = "take (nat (clamp 500 5000 n)) (select_points f (uint (F_AfterSeq f)) (tables d))"
  have "set ?rows \<subseteq> set (raw_points (tables d))"
    using set_take_subset by (fastforce simp: select_points_def by_time_def)
  then have "\<not> (\<exists>e. mapE scanPoint ?rows = Inl e)" unfolding mapE_fails using assms(3) by fastforce
  then obtain out where "mapE scanPoint ?rows = Inr out" by (cases "mapE scanPoint ?rows") auto
  then show thesis
    using that [of out] assms(1,2)
    by (simp add: ListPoints_def bindE_def fromE_def bindUint64_def query_def exec_def calm_def mapE_Inr)
qed

text \<open>
  Claim C28. What a point query returns, when the rows are readable: rows that match the filter, in the order
  of their timestamp text and then their number; as many as match, or the limit; and none that was left
  out belongs before one that was returned. With a user in the filter, every point returned is
  that user's; with a device, that device's; with a cursor, all have a larger number.
\<close>

theorem list_points_exact:
  assumes "calm d" and "uint (F_AfterSeq f) < 2 ^ 63"
    and "\<forall>r \<in> set (raw_points (tables d)). \<exists>p. scanPoint r = Inr p"
  shows "\<exists>out d' rows. ListPoints f n d = (Inr out, d') \<and> tables d' = tables d \<and>
    list_all2 (\<lambda>r p. scanPoint r = Inr p) rows out \<and>
    set rows \<subseteq> {r \<in> set (raw_points (tables d)). point_where f (uint (F_AfterSeq f)) r} \<and>
    length rows = min (nat (clamp 500 5000 n))
      (length (filter (point_where f (uint (F_AfterSeq f))) (raw_points (tables d)))) \<and>
    sorted (map (\<lambda>r. (rp_timestamp_utc r, rp_seq r)) rows) \<and>
    (\<forall>r \<in> set (raw_points (tables d)). point_where f (uint (F_AfterSeq f)) r \<longrightarrow> r \<notin> set rows \<longrightarrow>
       (\<forall>r' \<in> set rows. (rp_timestamp_utc r', rp_seq r') \<le> (rp_timestamp_utc r, rp_seq r))) \<and>
    (0 < F_UserID f \<longrightarrow> (\<forall>p \<in> set out. RP_UserID p = F_UserID f)) \<and>
    (\<forall>i. F_DeviceRowID f = Some i \<longrightarrow> (\<forall>p \<in> set out. RP_DeviceID p = i))"
proof -
  let ?W = "point_where f (uint (F_AfterSeq f))" and ?k = "nat (clamp 500 5000 n)"
  let ?rows = "take ?k (select_points f (uint (F_AfterSeq f)) (tables d))"
  obtain out d' where run: "ListPoints f n d = (Inr out, d')" "tables d' = tables d"
    and out: "list_all2 (\<lambda>r p. scanPoint r = Inr p) ?rows out"
    using ListPoints_runs [OF assms] .
  have rows: "?rows = take ?k (sort_key (\<lambda>r. (rp_timestamp_utc r, rp_seq r)) (filter ?W (raw_points (tables d))))"
    by (simp add: select_points_def by_time_def)
  note T = take_sorted [OF rows]
  have from_row: "\<exists>r. ?W r \<and> scanPoint r = Inr p" if p: "p \<in> set out" for p
  proof -
    obtain r where r: "r \<in> set ?rows" "scanPoint r = Inr p"
      using list_all2_origin [OF out p] by blast
    have "r \<in> set (filter ?W (raw_points (tables d)))" by (rule subsetD [OF T(1) r(1)])
    with r(2) show ?thesis by auto
  qed
  have user: "RP_UserID p = F_UserID f" if "p \<in> set out" "0 < F_UserID f" for p
    using from_row [OF that(1)] that(2) scanPoint_fields unfolding point_where_def by metis
  have dev: "RP_DeviceID p = i" if p: "p \<in> set out" and i: "F_DeviceRowID f = Some i" for p i
  proof -
    obtain r where "?W r" "scanPoint r = Inr p" using from_row [OF p] by blast
    then show ?thesis using i scanPoint_fields [of r p] by (simp add: point_where_def)
  qed
  have sub: "set ?rows \<subseteq> {r \<in> set (raw_points (tables d)). ?W r}" using T(1) unfolding set_filter .
  have rest: "\<forall>r \<in> set (raw_points (tables d)). ?W r \<longrightarrow> r \<notin> set ?rows \<longrightarrow>
      (\<forall>r' \<in> set ?rows. (rp_timestamp_utc r', rp_seq r') \<le> (rp_timestamp_utc r, rp_seq r))"
    using T(4) unfolding set_filter mem_Collect_eq by blast
  show ?thesis
    by (intro exI [of _ out] exI [of _ d'] exI [of _ ?rows] conjI run out sub T(2,3) rest impI ballI allI user dev)
qed

section \<open>Text order and time\<close>

lemma append_less_append [simp]: "(xs @ ys < xs @ zs) = (ys < (zs :: 'a :: order list))"
  by (induction xs) simp_all

text \<open>A fraction makes the text smaller: \<^verbatim>\<open>.\<close> comes before \<^verbatim>\<open>Z\<close>.\<close>

lemma fraction_sorts_first:
  assumes "t mod second = 0" and "0 < n" and "n < second"
  shows "fmt_RFC3339Nano (t + n) < fmt_RFC3339Nano t"
proof -
  define D where "D = 86400 * second"
  have parts: "t mod D mod second = 0" using assms(1) by (simp add: D_def mod_mod_cancel)
  have "0 \<le> t mod D" "t mod D < D" by (simp_all add: D_def)
  moreover have "t mod D = second * (t mod D div second)"
    using parts mult_div_mod_eq [of second "t mod D"] by linarith
  moreover from this have "t mod D div second \<le> 86399" by (simp add: D_def)
  ultimately have room: "t mod D + n < D" using assms(3) unfolding D_def by linarith
  then have step: "(t + n) mod D = t mod D + n" "(t + n) div D = t div D"
  proof -
    have "t + n = D * (t div D) + (t mod D + n)" using mult_div_mod_eq [of D t] by linarith
    moreover have "0 \<le> t mod D + n" using \<open>0 \<le> t mod D\<close> assms(2) by linarith
    ultimately show "(t + n) mod D = t mod D + n" "(t + n) div D = t div D"
      using room int_mod_pos_eq int_div_pos_eq by blast+
  qed
  have sub: "(t mod D + n) mod second = n" "(t mod D + n) div second = t mod D div second"
  proof -
    have "t mod D + n = second * (t mod D div second) + n"
      using \<open>t mod D = second * (t mod D div second)\<close> by linarith
    then show "(t mod D + n) mod second = n" "(t mod D + n) div second = t mod D div second"
      using assms(2,3) int_mod_pos_eq [of _ second "t mod D div second" n]
        int_div_pos_eq [of _ second "t mod D div second" n] by simp_all
  qed
  obtain rest where frac: "fmt_frac n = CHR ''.'' # rest" using assms(2) by (simp add: fmt_frac_def)
  obtain y m dd where c: "civil (t div D) = (y, m, dd)" by (metis prod_cases3)
  define sec where "sec = t mod D div second"
  define pre where "pre = fmt_year y @ ''-'' @ pad_dec 2 (nat m) @ ''-'' @ pad_dec 2 (nat dd) @ ''T'' @
         pad_dec 2 (nat (sec div 3600)) @ '':'' @ pad_dec 2 (nat (sec div 60 mod 60)) @ '':'' @ pad_dec 2 (nat (sec mod 60))"
  have "fmt_RFC3339Nano t = pre @ fmt_frac (t mod D mod second) @ ''Z''"
    "fmt_RFC3339Nano (t + n) = pre @ fmt_frac n @ ''Z''"
    unfolding fmt_RFC3339Nano_def D_def [symmetric] Let_def step sub c prod.case pre_def sec_def append_assoc by simp_all
  moreover have "(CHR ''.'' :: char) < CHR ''Z''" by (simp add: less_char_def)
  ultimately show ?thesis using frac parts by (simp add: fmt_frac_def)
qed

text \<open>
  A range that starts on a whole second misses the rest of that second: no point with a
  timestamp strictly inside it is returned, although it is later than the start, because its text sorts
  before the text of the start.
\<close>

theorem range_misses_first_second:
  assumes "ListPoints f k d = (Inr out, d')" and "F_FromUTC f = Some t" and "t mod second = 0"
    and "\<forall>r \<in> set (raw_points (tables d)). \<exists>u. valid_time u \<and> rp_timestamp_utc r = fmt_RFC3339Nano u"
  shows "\<forall>p \<in> set out. \<not> (t < RP_TimestampUTC p \<and> RP_TimestampUTC p < t + second)"
proof
  fix p assume p: "p \<in> set out"
  from assms(1) obtain after rows d1 where
    q: "query (\<lambda>t. Inr (take (nat (clamp 500 5000 k)) (select_points f after t))) d = (Inr rows, d1)"
    and m: "mapE scanPoint rows = Inr out"
    by (auto simp: ListPoints_def bindE_eq_Inr)
  from query_tables [OF q] have rows: "rows = take (nat (clamp 500 5000 k)) (select_points f after (tables d))" by simp
  obtain r where r: "r \<in> set rows" "scanPoint r = Inr p"
    using list_all2_origin [OF m [unfolded mapE_Inr] p] by blast
  have "set rows \<subseteq> set (select_points f after (tables d))" unfolding rows by (rule set_take_subset)
  then have "r \<in> set (select_points f after (tables d))" using r(1) by (rule subsetD)
  then have mem: "r \<in> set (raw_points (tables d))" and w: "point_where f after r"
    by (simp_all add: select_points_def by_time_def)
  obtain u where u: "valid_time u" "rp_timestamp_utc r = fmt_RFC3339Nano u" using assms(4) mem by blast
  have ts: "RP_TimestampUTC p = u" using r(2) u by (auto simp: scanPoint_def split: if_splits)
  have le: "fmt_RFC3339Nano t \<le> fmt_RFC3339Nano u"
    using w assms(2) u(2) by (simp add: point_where_def in_range_text_def)
  show "\<not> (t < RP_TimestampUTC p \<and> RP_TimestampUTC p < t + second)"
  proof
    assume "t < RP_TimestampUTC p \<and> RP_TimestampUTC p < t + second"
    then have "0 < u - t" "u - t < second" using ts by simp_all
    from fraction_sorts_first [OF assms(3) this] le show False by simp
  qed
qed

section \<open>Witnesses\<close>

definition sample_row :: "int \<Rightarrow> int \<Rightarrow> gotime \<Rightarrow> raw_point_row" where
  "sample_row n user t =
     \<lparr>rp_id = n, rp_seq = n, rp_user_id = user, rp_device_id = 1, rp_source_type = ''owntracks'',
      rp_timestamp_utc = fmt_RFC3339Nano t, rp_lat = 1, rp_lon = 2, rp_altitude = None, rp_accuracy = None,
      rp_speed = None, rp_heading = None, rp_battery = None, rp_motion_type = None,
      rp_raw_payload_json = None, rp_ingest_hash = dec (nat n), rp_created_at = []\<rparr>"

definition points_db :: dbstate where
  "points_db =
     \<lparr>tables = empty_tables\<lparr>raw_points :=
        [sample_row 1 1 (5 * second), sample_row 2 2 (5 * second), sample_row 3 1 (5 * second + 500000000),
         sample_row 4 1 (9 * second)]\<rparr>,
      fk_on = True, dbfault = \<lambda>_. False, dbcalls = 0, dbclock = \<lambda>_. 0, dbticks = 0,
      dbrand = \<lambda>_ _. None, dbrands = 0\<rparr>"

definition from_five :: ExportPointFilter where
  "from_five = \<lparr>F_DeviceRowID = None, F_FromUTC = Some (5 * second), F_ToUTC = None, F_AfterSeq = 0, F_UserID = 1\<rparr>"

lemma points_db_rows:
  "\<forall>r \<in> set (raw_points (tables points_db)). \<exists>u. valid_time u \<and> rp_timestamp_utc r = fmt_RFC3339Nano u"
proof -
  have "\<exists>u. valid_time u \<and> rp_timestamp_utc (sample_row n i t) = fmt_RFC3339Nano u" if "valid_time t" for n i t
    using that by (intro exI [of _ t]) (simp add: sample_row_def)
  then show ?thesis by (simp add: points_db_def valid_time_def)
qed

lemma points_db_readable: "\<forall>r \<in> set (raw_points (tables points_db)). \<exists>p. scanPoint r = Inr p"
  by (simp add: points_db_def sample_row_def scanPoint_def valid_time_def)

theorem list_points_exact_witness:
  "\<exists>out d'. ListPoints from_five 0 points_db = (Inr out, d') \<and> (\<forall>p \<in> set out. RP_UserID p = 1)"
proof -
  have "calm points_db" "uint (F_AfterSeq from_five) < 2 ^ 63" "0 < F_UserID from_five" "F_UserID from_five = 1"
    by (simp_all add: points_db_def calm_def from_five_def)
  then show ?thesis using list_points_exact [OF _ _ points_db_readable, of from_five 0] by metis
qed

theorem range_misses_first_second_witness:
  "\<exists>out d'. ListPoints from_five 0 points_db = (Inr out, d') \<and>
     sample_row 3 1 (5 * second + 500000000) \<in> set (raw_points (tables points_db)) \<and>
     (\<forall>p \<in> set out. \<not> (5 * second < RP_TimestampUTC p \<and> RP_TimestampUTC p < 6 * second))"
proof -
  have "calm points_db" "uint (F_AfterSeq from_five) < 2 ^ 63" and start: "F_FromUTC from_five = Some (5 * second)"
    by (simp_all add: points_db_def calm_def from_five_def)
  then obtain out d' where run: "ListPoints from_five 0 points_db = (Inr out, d')"
    using ListPoints_runs [OF _ _ points_db_readable] by metis
  have "5 * second mod second = 0" by simp
  from range_misses_first_second [OF run start this points_db_rows] run show ?thesis
    by (auto simp: points_db_def)
qed

end
