(* ===== verification/Visits.thy ===== *)
theory Visits
  imports Geo
begin

text \<open>
  \<^verbatim>\<open>internal/visits/detector.go\<close>: visits as maximal windows of consecutive points that stay within
  a radius of their centroid for long enough. The Go loops over indices become functions of the
  indices with a measure; the running sums of the source are kept. The theory shows that the
  detector computes what a direct definition of the windows says, and what that means for its
  result.
\<close>

section \<open>Model\<close>

record visit_config =
  MinDwell :: duration
  MaxRadiusMeters :: float64

record vpoint =
  vp_TimestampUTC :: gotime
  vp_Lat :: float64
  vp_Lon :: float64

record visit =
  StartAt :: gotime
  EndAt :: gotime
  CentroidLat :: float64
  CentroidLon :: float64
  PointCount :: int

definition windowWithinRadius ::
  "vpoint list \<Rightarrow> nat \<Rightarrow> nat \<Rightarrow> float64 \<Rightarrow> float64 \<Rightarrow> float64 \<Rightarrow> bool" where
  "windowWithinRadius ps start stop centroidLat centroidLon maxRadiusMeters =
     list_all (\<lambda>i. \<not> visits_haversineMeters (vp_Lat (ps ! i)) (vp_Lon (ps ! i)) centroidLat centroidLon
                    > maxRadiusMeters) [start ..< Suc stop]"

text \<open>The inner loop: \<open>j\<close> is the next point to try, \<open>e\<close> the last one accepted.\<close>

function grow ::
  "vpoint list \<Rightarrow> visit_config \<Rightarrow> nat \<Rightarrow> nat \<Rightarrow> float64 \<Rightarrow> float64 \<Rightarrow> nat \<Rightarrow> float64 \<times> float64 \<times> nat" where
  "grow ps cfg i j sumLat sumLon e =
     (if j < length ps then
        (if time_IsZero (vp_TimestampUTC (ps ! j)) then (sumLat, sumLon, e)
         else let trialCount = real (j - i + 1);
                  trialSumLat = sumLat + vp_Lat (ps ! j);
                  trialSumLon = sumLon + vp_Lon (ps ! j)
              in if windowWithinRadius ps i j (trialSumLat / trialCount) (trialSumLon / trialCount)
                      (MaxRadiusMeters cfg)
                 then grow ps cfg i (Suc j) trialSumLat trialSumLon j
                 else (sumLat, sumLon, e))
      else (sumLat, sumLon, e))"
  by pat_completeness auto
termination
  by (relation "measure (\<lambda>(ps, cfg, i, j, a, b, e). length ps - j)") auto

declare grow.simps [simp del]

text \<open>The outer loop.\<close>

function detectFrom :: "vpoint list \<Rightarrow> visit_config \<Rightarrow> nat \<Rightarrow> visit list" where
  "detectFrom ps cfg i =
     (if i < length ps then
        (if time_IsZero (vp_TimestampUTC (ps ! i)) then detectFrom ps cfg (Suc i)
         else case grow ps cfg i (Suc i) (vp_Lat (ps ! i)) (vp_Lon (ps ! i)) i of
           (sumLat, sumLon, e) \<Rightarrow>
             (let startAt = vp_TimestampUTC (ps ! i); endAt = vp_TimestampUTC (ps ! e);
                  count = e - i + 1
              in if i < e \<and> time_Sub endAt startAt \<ge> MinDwell cfg
                 then \<lparr>StartAt = startAt, EndAt = endAt, CentroidLat = sumLat / real count,
                       CentroidLon = sumLon / real count, PointCount = int count\<rparr>
                      # detectFrom ps cfg (Suc e)
                 else detectFrom ps cfg (Suc i)))
      else [])"
  by pat_completeness auto
termination
  by (relation "measure (\<lambda>(ps, cfg, i). length ps - i)") auto

declare detectFrom.simps [simp del]

definition Detect :: "vpoint list \<Rightarrow> visit_config \<Rightarrow> visit list" where
  "Detect ps cfg =
     (if length ps < 2 then []
      else if MinDwell cfg \<le> 0 \<or> MaxRadiusMeters cfg \<le> 0 then []
      else detectFrom ps cfg 0)"

section \<open>The windows, directly\<close>

definition mean :: "(vpoint \<Rightarrow> real) \<Rightarrow> vpoint list \<Rightarrow> nat \<Rightarrow> nat \<Rightarrow> real" where
  "mean c ps a b = (\<Sum>k \<in> {a..b}. c (ps ! k)) / real (b - a + 1)"

text \<open>All points of the window lie within the radius of the window's own centroid.\<close>

definition compact_window :: "vpoint list \<Rightarrow> visit_config \<Rightarrow> nat \<Rightarrow> nat \<Rightarrow> bool" where
  "compact_window ps cfg a b \<longleftrightarrow>
     (\<forall>k \<in> {a..b}. visits_haversineMeters (vp_Lat (ps ! k)) (vp_Lon (ps ! k))
        (mean vp_Lat ps a b) (mean vp_Lon ps a b) \<le> MaxRadiusMeters cfg)"

definition extends :: "vpoint list \<Rightarrow> visit_config \<Rightarrow> nat \<Rightarrow> nat \<Rightarrow> bool" where
  "extends ps cfg a j \<longleftrightarrow> vp_TimestampUTC (ps ! j) \<noteq> 0 \<and> compact_window ps cfg a j"

text \<open>The last point of the window that starts at \<open>a\<close>: points are added while they extend it.\<close>

definition window_end :: "vpoint list \<Rightarrow> visit_config \<Rightarrow> nat \<Rightarrow> nat" where
  "window_end ps cfg a = a + length (takeWhile (extends ps cfg a) [Suc a ..< length ps])"

definition visit_of :: "vpoint list \<Rightarrow> nat \<times> nat \<Rightarrow> visit" where
  "visit_of ps w = (case w of (a, b) \<Rightarrow>
     \<lparr>StartAt = vp_TimestampUTC (ps ! a), EndAt = vp_TimestampUTC (ps ! b),
      CentroidLat = mean vp_Lat ps a b, CentroidLon = mean vp_Lon ps a b,
      PointCount = int (b - a + 1)\<rparr>)"

definition dwells :: "vpoint list \<Rightarrow> visit_config \<Rightarrow> nat \<Rightarrow> bool" where
  "dwells ps cfg a \<longleftrightarrow>
     vp_TimestampUTC (ps ! a) \<noteq> 0 \<and> a < window_end ps cfg a \<and>
     MinDwell cfg \<le> time_Sub (vp_TimestampUTC (ps ! window_end ps cfg a)) (vp_TimestampUTC (ps ! a))"

function windows :: "vpoint list \<Rightarrow> visit_config \<Rightarrow> nat \<Rightarrow> (nat \<times> nat) list" where
  "windows ps cfg a =
     (if a < length ps then
        (if dwells ps cfg a then (a, window_end ps cfg a) # windows ps cfg (Suc (window_end ps cfg a))
         else windows ps cfg (Suc a))
      else [])"
  by pat_completeness auto
termination
  by (relation "measure (\<lambda>(ps, cfg, i). length ps - i)") (auto simp: dwells_def)

declare windows.simps [simp del]


section \<open>The loops compute the windows\<close>

lemma within_compact:
  "windowWithinRadius ps a b (mean vp_Lat ps a b) (mean vp_Lon ps a b) (MaxRadiusMeters cfg) \<longleftrightarrow>
   compact_window ps cfg a b"
  by (auto simp: windowWithinRadius_def compact_window_def list_all_iff not_less)

lemma grow_eq:
  assumes "i \<le> e" and "e < length ps"
  shows "grow ps cfg i (Suc e) (\<Sum>k \<in> {i..e}. vp_Lat (ps ! k)) (\<Sum>k \<in> {i..e}. vp_Lon (ps ! k)) e =
    (let e' = e + length (takeWhile (extends ps cfg i) [Suc e ..< length ps])
     in (\<Sum>k \<in> {i..e'}. vp_Lat (ps ! k), \<Sum>k \<in> {i..e'}. vp_Lon (ps ! k), e'))"
  using assms
proof (induction "length ps - e" arbitrary: e rule: less_induct)
  case less
  show ?case
  proof (cases "Suc e < length ps")
    case False
    then show ?thesis by (subst grow.simps) simp
  next
    case True
    let ?e = "Suc e"
    have sums: "(\<Sum>k \<in> {i..e}. c (ps ! k)) + c (ps ! ?e) = (\<Sum>k \<in> {i..?e}. c (ps ! k))"
      for c :: "vpoint \<Rightarrow> real" using less.prems by simp
    have upt: "[?e ..< length ps] = ?e # [Suc ?e ..< length ps]" using True by (simp add: upt_rec)
    have IH: "grow ps cfg i (Suc ?e) (\<Sum>k \<in> {i..?e}. vp_Lat (ps ! k)) (\<Sum>k \<in> {i..?e}. vp_Lon (ps ! k)) ?e =
      (let e' = ?e + length (takeWhile (extends ps cfg i) [Suc ?e ..< length ps])
       in (\<Sum>k \<in> {i..e'}. vp_Lat (ps ! k), \<Sum>k \<in> {i..e'}. vp_Lon (ps ! k), e'))"
      using less.hyps [of ?e] less.prems True by simp
    have test: "windowWithinRadius ps i ?e ((\<Sum>k \<in> {i..?e}. vp_Lat (ps ! k)) / (1 + real (?e - i)))
        ((\<Sum>k \<in> {i..?e}. vp_Lon (ps ! k)) / (1 + real (?e - i))) (MaxRadiusMeters cfg) \<longleftrightarrow>
        compact_window ps cfg i ?e"
      using within_compact [of ps i ?e cfg] by (simp add: mean_def del: sum.cl_ivl_Suc)
    show ?thesis
      unfolding upt
      by (subst grow.simps)
        (use True IH in \<open>simp add: Let_def time_IsZero_def sums test extends_def del: of_nat_add sum.cl_ivl_Suc\<close>)
  qed
qed

lemma window_end_bounds:
  assumes "a < length ps"
  shows "a \<le> window_end ps cfg a" and "window_end ps cfg a < length ps"
proof -
  have "length (takeWhile (extends ps cfg a) [Suc a ..< length ps]) \<le> length ps - Suc a"
    using length_takeWhile_le [of "extends ps cfg a" "[Suc a ..< length ps]"] by simp
  with assms show "a \<le> window_end ps cfg a" and "window_end ps cfg a < length ps"
    by (simp_all add: window_end_def)
qed

lemma detectFrom_windows:
  "detectFrom ps cfg i = map (visit_of ps) (windows ps cfg i)"
proof (induction ps cfg i rule: windows.induct)
  case (1 ps cfg i)
  show ?case
  proof (cases "i < length ps")
    case False
    then show ?thesis by (simp add: detectFrom.simps [of ps cfg i] windows.simps [of ps cfg i])
  next
    case True
    let ?e = "window_end ps cfg i"
    have g: "grow ps cfg i (Suc i) (vp_Lat (ps ! i)) (vp_Lon (ps ! i)) i =
        (\<Sum>k \<in> {i..?e}. vp_Lat (ps ! k), \<Sum>k \<in> {i..?e}. vp_Lon (ps ! k), ?e)"
      using grow_eq [of i i ps cfg] True by (simp add: window_end_def Let_def)
    show ?thesis
    proof (cases "dwells ps cfg i")
      case d: True
      with 1 True g show ?thesis
        by (subst detectFrom.simps, subst windows.simps)
          (simp add: dwells_def time_IsZero_def visit_of_def mean_def Let_def)
    next
      case False
      with 1 True g show ?thesis
        by (subst detectFrom.simps, subst windows.simps)
          (auto simp: dwells_def time_IsZero_def Let_def)
    qed
  qed
qed

section \<open>What the windows are\<close>

lemma windows_ordered:
  "sorted_wrt (\<lambda>v w. snd v < fst w) (windows ps cfg a) \<and>
   (\<forall>w \<in> set (windows ps cfg a). a \<le> fst w \<and> fst w < length ps \<and> dwells ps cfg (fst w) \<and>
      snd w = window_end ps cfg (fst w))"
proof (induction ps cfg a rule: windows.induct)
  case (1 ps cfg a)
  show ?case
  proof (cases "a < length ps \<and> dwells ps cfg a")
    case True
    then have step: "windows ps cfg a = (a, window_end ps cfg a) # windows ps cfg (Suc (window_end ps cfg a))"
      by (simp add: windows.simps [of ps cfg a])
    have "a \<le> window_end ps cfg a" using window_end_bounds True by blast
    with 1(1) True show ?thesis unfolding step by force
  next
    case False
    then have "windows ps cfg a = (if a < length ps then windows ps cfg (Suc a) else [])"
      by (simp add: windows.simps [of ps cfg a])
    with 1(2) False show ?thesis by (cases "a < length ps") force+
  qed
qed

lemma windows_cover:
  assumes "a \<le> b" and "b < length ps" and "dwells ps cfg b"
  shows "\<exists>w \<in> set (windows ps cfg a). fst w \<le> b \<and> b \<le> snd w"
  using assms
proof (induction ps cfg a rule: windows.induct)
  case (1 ps cfg a)
  show ?case
  proof (cases "dwells ps cfg a")
    case True
    then show ?thesis
      using 1 by (subst windows.simps) (cases "b \<le> window_end ps cfg a"; fastforce)
  next
    case False
    then have "a \<noteq> b" using 1 by auto
    with False 1 show ?thesis by (subst windows.simps) fastforce
  qed
qed

lemma window_end_maximal:
  assumes "a < length ps"
  shows "\<forall>j. a < j \<and> j \<le> window_end ps cfg a \<longrightarrow> extends ps cfg a j"
    and "Suc (window_end ps cfg a) < length ps \<longrightarrow> \<not> extends ps cfg a (Suc (window_end ps cfg a))"
proof -
  let ?xs = "[Suc a ..< length ps]" and ?t = "takeWhile (extends ps cfg a) [Suc a ..< length ps]"
  show "\<forall>j. a < j \<and> j \<le> window_end ps cfg a \<longrightarrow> extends ps cfg a j"
  proof (intro allI impI)
    fix j assume j: "a < j \<and> j \<le> window_end ps cfg a"
    then have k: "j - Suc a < length ?t" unfolding window_end_def by arith
    then have "?t ! (j - Suc a) = ?xs ! (j - Suc a)" by (rule takeWhile_nth)
    also have "\<dots> = j" using j k length_takeWhile_le [of "extends ps cfg a" ?xs] by simp
    finally show "extends ps cfg a j" using nth_mem [OF k] by (metis set_takeWhileD)
  qed
  show "Suc (window_end ps cfg a) < length ps \<longrightarrow> \<not> extends ps cfg a (Suc (window_end ps cfg a))"
  proof
    assume "Suc (window_end ps cfg a) < length ps"
    then have l: "length ?t < length ?xs" by (simp add: window_end_def)
    then have "\<not> extends ps cfg a (?xs ! length ?t)" by (rule nth_length_takeWhile)
    with l show "\<not> extends ps cfg a (Suc (window_end ps cfg a))" by (simp add: window_end_def)
  qed
qed

section \<open>Properties\<close>

text \<open>
  Claim C20. The detector with its running sums computes the same visits as the direct definition,
  which takes the mean of each window afresh: for every list of points and every configuration
  that enables detection, the result is the list of windows in which each next point keeps the whole
  window within the radius of its own centroid, and which last at least the minimum dwell.
\<close>

theorem Detect_eq_windows:
  "Detect ps cfg =
     (if length ps < 2 \<or> MinDwell cfg \<le> 0 \<or> MaxRadiusMeters cfg \<le> 0 then []
      else map (visit_of ps) (windows ps cfg 0))"
  by (simp add: Detect_def detectFrom_windows)

text \<open>
  Claim C21. What a visit is: the visits come from windows of consecutive points that do not overlap
  and are in order; every point of a window is within the radius of the centroid, the first
  and the last differ by at least the minimum dwell, and the window cannot be extended by the next
  point. And no visit is missed: every point from which a long enough window starts
  lies in a reported one.
\<close>

theorem Detect_windows_sound_complete:
  assumes "2 \<le> length ps" and "0 < MinDwell cfg" and "0 < MaxRadiusMeters cfg"
  shows "\<exists>ws. Detect ps cfg = map (visit_of ps) ws \<and>
    sorted_wrt (\<lambda>v w. snd v < fst w) ws \<and>
    (\<forall>(a, b) \<in> set ws. a < b \<and> b < length ps \<and> compact_window ps cfg a b \<and>
       MinDwell cfg \<le> time_Sub (vp_TimestampUTC (ps ! b)) (vp_TimestampUTC (ps ! a)) \<and>
       (Suc b < length ps \<longrightarrow> \<not> extends ps cfg a (Suc b))) \<and>
    (\<forall>a < length ps. dwells ps cfg a \<longrightarrow> (\<exists>(x, y) \<in> set ws. x \<le> a \<and> a \<le> y))"
proof (rule exI [of _ "windows ps cfg 0"], intro conjI)
  show "Detect ps cfg = map (visit_of ps) (windows ps cfg 0)"
    using assms by (simp add: Detect_def detectFrom_windows)
  note W = windows_ordered [of ps cfg 0]
  show "sorted_wrt (\<lambda>v w. snd v < fst w) (windows ps cfg 0)" using W by simp
  show "\<forall>(a, b) \<in> set (windows ps cfg 0). a < b \<and> b < length ps \<and> compact_window ps cfg a b \<and>
       MinDwell cfg \<le> time_Sub (vp_TimestampUTC (ps ! b)) (vp_TimestampUTC (ps ! a)) \<and>
       (Suc b < length ps \<longrightarrow> \<not> extends ps cfg a (Suc b))"
  proof (clarify, intro conjI)
    fix a b assume "(a, b) \<in> set (windows ps cfg 0)"
    with W have a: "a < length ps" "dwells ps cfg a" "b = window_end ps cfg a" by auto
    then show "a < b" and "MinDwell cfg \<le> time_Sub (vp_TimestampUTC (ps ! b)) (vp_TimestampUTC (ps ! a))"
      by (simp_all add: dwells_def)
    show "b < length ps" using window_end_bounds [OF a(1)] a(3) by simp
    show "compact_window ps cfg a b" and "Suc b < length ps \<longrightarrow> \<not> extends ps cfg a (Suc b)"
      using window_end_maximal [OF a(1), of cfg] a(3) \<open>a < b\<close> by (auto simp: extends_def)
  qed
  show "\<forall>a < length ps. dwells ps cfg a \<longrightarrow> (\<exists>(x, y) \<in> set (windows ps cfg 0). x \<le> a \<and> a \<le> y)"
    using windows_cover [of 0 _ ps cfg] by fastforce
qed

definition sample_stay :: "vpoint list" where
  "sample_stay =
     [\<lparr>vp_TimestampUTC = second, vp_Lat = 1, vp_Lon = 2\<rparr>,
      \<lparr>vp_TimestampUTC = 31 * second, vp_Lat = 1, vp_Lon = 2\<rparr>]"

definition sample_visit_config :: visit_config where
  "sample_visit_config = \<lparr>MinDwell = 30 * second, MaxRadiusMeters = 35\<rparr>"

lemma sample_stay_dwells: "dwells sample_stay sample_visit_config 0"
proof -
  have "compact_window sample_stay sample_visit_config 0 1"
    by (auto simp: compact_window_def mean_def sample_stay_def sample_visit_config_def
        visits_haversine_eq haversine_same atLeastAtMost_insertL le_Suc_eq)
  then have "window_end sample_stay sample_visit_config 0 = 1"
    by (simp add: window_end_def extends_def sample_stay_def upt_rec)
  then show ?thesis
    by (simp add: dwells_def sample_stay_def sample_visit_config_def time_Sub_def max_int64_def min_int64_def)
qed

theorem Detect_windows_sound_complete_witness:
  "\<exists>w ws. Detect sample_stay sample_visit_config = map (visit_of sample_stay) (w # ws)"
proof -
  have "2 \<le> length sample_stay" "0 < MinDwell sample_visit_config" "0 < MaxRadiusMeters sample_visit_config"
    "0 < length sample_stay"
    by (simp_all add: sample_stay_def sample_visit_config_def)
  from Detect_windows_sound_complete [OF this(1-3)] sample_stay_dwells this(4)
  obtain ws where "Detect sample_stay sample_visit_config = map (visit_of sample_stay) ws" "ws \<noteq> []"
    by fastforce
  then show ?thesis by (cases ws) auto
qed

end
