(* ===== verification/StoreVisits.thy ===== *)
theory StoreVisits
  imports StorePoints Visits
begin

text \<open>
  \<^verbatim>\<open>internal/store/visits.go\<close>: the visits of a device are recomputed from its points and replace the
  ones that start in the same window, in one transaction; listing them joins the devices of a user.
\<close>

section \<open>Rows and queries\<close>

record StoredVisit =
  SV_ID :: int
  SV_DeviceRowID :: int
  SV_DeviceID :: string
  SV_StartAt :: gotime
  SV_EndAt :: gotime
  SV_CentroidLat :: float64
  SV_CentroidLon :: float64
  SV_PointCount :: int

definition select_detection_points ::
  "int \<Rightarrow> gotime option \<Rightarrow> gotime option \<Rightarrow> tables \<Rightarrow> raw_point_row list" where
  "select_detection_points dev fromUTC toUTC t =
     by_time (filter (\<lambda>r. rp_device_id r = dev \<and> in_range_text fromUTC toUTC (rp_timestamp_utc r)) (raw_points t))"

text \<open>The user is not selected: its field keeps the zero value.\<close>

definition scanDetectionPoint :: "raw_point_row \<Rightarrow> store_error + RecentPoint" where
  "scanDetectionPoint r =
     (case scanPoint r of Inl e \<Rightarrow> Inl e | Inr p \<Rightarrow> Inr (p\<lparr>RP_UserID := 0\<rparr>))"

definition listPointsForVisitDetectionByDeviceID ::
  "int \<Rightarrow> gotime option \<Rightarrow> gotime option \<Rightarrow> (dbstate, store_error, RecentPoint list) gomethod" where
  "listPointsForVisitDetectionByDeviceID dev fromUTC toUTC =
     bindE (query (\<lambda>t. Inr (select_detection_points dev fromUTC toUTC t)))
       (\<lambda>rows. fromE (mapE scanDetectionPoint rows))"

definition delete_visits ::
  "int \<Rightarrow> gotime option \<Rightarrow> gotime option \<Rightarrow> bool \<Rightarrow> gotime \<Rightarrow> tables \<Rightarrow> store_error + unit \<times> tables" where
  "delete_visits dev fromUTC toUTC fk now t =
     Inr ((), t\<lparr>visits := filter (\<lambda>v. \<not> (v_device_id v = dev \<and> in_range_text fromUTC toUTC (v_start_at v)))
                            (visits t)\<rparr>)"

definition insert_visit ::
  "int \<Rightarrow> visit \<Rightarrow> bool \<Rightarrow> gotime \<Rightarrow> tables \<Rightarrow> store_error + unit \<times> tables" where
  "insert_visit dev v fk now t =
     (if fk \<and> \<not> device_exists dev t then Inl ErrForeignKey
      else let i = last_visit_id t + 1 in
        Inr ((), t\<lparr>visits := visits t @
          [\<lparr>v_id = i, v_device_id = dev, v_start_at = fmt_RFC3339Nano (StartAt v),
            v_end_at = fmt_RFC3339Nano (EndAt v), v_centroid_lat = CentroidLat v,
            v_centroid_lon = CentroidLon v, v_point_count = PointCount v,
            v_created_at = sql_strftime now\<rparr>], last_visit_id := i\<rparr>))"

fun insertVisits :: "int \<Rightarrow> visit list \<Rightarrow> (dbstate, store_error, unit) gomethod" where
  "insertVisits dev [] = returnE ()"
| "insertVisits dev (v # vs) = bindE (exec (insert_visit dev v)) (\<lambda>_. insertVisits dev vs)"

definition detectPoint :: "RecentPoint \<Rightarrow> vpoint" where
  "detectPoint p = \<lparr>vp_TimestampUTC = RP_TimestampUTC p, vp_Lat = RP_Lat p, vp_Lon = RP_Lon p\<rparr>"

definition RebuildVisitsForDeviceRange ::
  "int \<Rightarrow> gotime option \<Rightarrow> gotime option \<Rightarrow> visit_config \<Rightarrow> (dbstate, store_error, int) gomethod" where
  "RebuildVisitsForDeviceRange dev fromUTC toUTC cfg =
     (if dev \<le> 0 then throwE (ErrRequired ''device_id'')
      else
        bindE (listPointsForVisitDetectionByDeviceID dev fromUTC toUTC) (\<lambda>points.
        let detected = Detect (map detectPoint points) cfg in
        bindE (in_tx (bindE (exec (delete_visits dev fromUTC toUTC)) (\<lambda>_.
                      bindE sql_call (\<lambda>_. insertVisits dev detected)))) (\<lambda>_.
          returnE (int (length detected)))))"

definition RebuildVisitsForDeviceID :: "int \<Rightarrow> visit_config \<Rightarrow> (dbstate, store_error, int) gomethod" where
  "RebuildVisitsForDeviceID dev cfg = RebuildVisitsForDeviceRange dev None None cfg"

text \<open>The join: a visit with each device of its id.\<close>

definition visits_of_user :: "int \<Rightarrow> int option \<Rightarrow> gotime option \<Rightarrow> gotime option \<Rightarrow> tables \<Rightarrow> (visit_row \<times> device_row) list" where
  "visits_of_user user dev fromUTC toUTC t =
     filter (\<lambda>(v, d). d_id d = v_device_id v \<and> d_user_id d = user \<and>
               (case dev of None \<Rightarrow> True | Some i \<Rightarrow> v_device_id v = i) \<and>
               in_range_text fromUTC toUTC (v_start_at v))
       (List.product (visits t) (devices t))"

definition scanVisit :: "visit_row \<times> device_row \<Rightarrow> store_error + StoredVisit" where
  "scanVisit vd =
     (case vd of (v, d) \<Rightarrow>
      (case parseDBTime (v_start_at v) of
         Inl e \<Rightarrow> Inl e
       | Inr s \<Rightarrow>
           (case parseDBTime (v_end_at v) of
              Inl e \<Rightarrow> Inl e
            | Inr u \<Rightarrow>
                Inr \<lparr>SV_ID = v_id v, SV_DeviceRowID = v_device_id v, SV_DeviceID = d_name d, SV_StartAt = s,
                     SV_EndAt = u, SV_CentroidLat = v_centroid_lat v, SV_CentroidLon = v_centroid_lon v,
                     SV_PointCount = v_point_count v\<rparr>)))"

definition ListVisits ::
  "int \<Rightarrow> int option \<Rightarrow> gotime option \<Rightarrow> gotime option \<Rightarrow> int \<Rightarrow>
   (dbstate, store_error, StoredVisit list) gomethod" where
  "ListVisits user dev fromUTC toUTC n =
     (if user \<le> 0 then throwE (ErrRequired ''user_id'')
      else bindE (query (\<lambda>t. Inr (take (nat (clamp 100 5000 n))
             (sort_key (\<lambda>(v, d). (v_start_at v, v_id v)) (visits_of_user user dev fromUTC toUTC t)))))
           (\<lambda>rows. fromE (mapE scanVisit rows)))"

section \<open>The invariant\<close>

lemma delete_visits_inv: "delete_visits dev a b fk now t = Inr (x, t') \<Longrightarrow> db_inv t \<Longrightarrow> db_inv t'"
  by (auto simp: delete_visits_def db_inv_def db_inv_defs List.distinct_map_filter)

lemma insert_visit_inv:
  assumes "insert_visit dev v fk now t = Inr (x, t')" and "db_inv t"
  shows "db_inv t'"
proof -
  have "v_id w \<noteq> last_visit_id t + 1" if "w \<in> set (visits t)" for w
    using assms(2) that by (auto simp: db_inv_def others_ok_def)
  then show ?thesis
    using assms by (fastforce simp: insert_visit_def Let_def db_inv_def db_inv_defs split: if_splits)
qed

lemma keeps_insertVisits: "keeps db_inv (insertVisits dev vs)"
proof (induction vs)
  case Nil
  show ?case unfolding insertVisits.simps by (intro keeps_intros)
next
  case (Cons v vs)
  show ?case unfolding insertVisits.simps
    by (intro keeps_intros keeps_exec Cons.IH) (erule insert_visit_inv; assumption)
qed

lemma keeps_visit_reads [keeps_intros]:
  "keeps P (listPointsForVisitDetectionByDeviceID dev a b)" "keeps P (ListVisits user dv a b n)"
  unfolding listPointsForVisitDetectionByDeviceID_def ListVisits_def by (intro keeps_intros)+

lemma keeps_Rebuild: "keeps db_inv (RebuildVisitsForDeviceRange dev a b cfg)"
  unfolding RebuildVisitsForDeviceRange_def Let_def
  by (intro keeps_intros keeps_exec keeps_insertVisits) (erule delete_visits_inv; assumption)

section \<open>What a rebuild does\<close>

definition visit_columns :: "visit_row \<Rightarrow> int \<times> string \<times> string \<times> float64 \<times> float64 \<times> int" where
  "visit_columns v =
     (v_device_id v, v_start_at v, v_end_at v, v_centroid_lat v, v_centroid_lon v, v_point_count v)"

definition visit_of_device :: "int \<Rightarrow> visit \<Rightarrow> int \<times> string \<times> string \<times> float64 \<times> float64 \<times> int" where
  "visit_of_device dev v =
     (dev, fmt_RFC3339Nano (StartAt v), fmt_RFC3339Nano (EndAt v), CentroidLat v, CentroidLon v, PointCount v)"

definition visits_added :: "int \<Rightarrow> visit list \<Rightarrow> tables \<Rightarrow> tables \<Rightarrow> bool" where
  "visits_added dev vs t t' \<longleftrightarrow>
     (\<exists>new n. t' = t\<lparr>visits := visits t @ new, last_visit_id := n\<rparr> \<and>
        map visit_columns new = map (visit_of_device dev) vs)"

lemma insert_visit_added:
  "insert_visit dev v fk now t = Inr (x, t') \<Longrightarrow> visits_added dev [v] t t'"
  unfolding visits_added_def
  by (auto simp: insert_visit_def Let_def visit_columns_def visit_of_device_def split: if_splits)

lemma visits_added_trans:
  assumes "visits_added dev vs t u" and "visits_added dev ws u w"
  shows "visits_added dev (vs @ ws) t w"
proof -
  obtain new n where u: "u = t\<lparr>visits := visits t @ new, last_visit_id := n\<rparr>"
    and c: "map visit_columns new = map (visit_of_device dev) vs"
    using assms(1) unfolding visits_added_def by blast
  obtain new' n' where w: "w = u\<lparr>visits := visits u @ new', last_visit_id := n'\<rparr>"
    and c': "map visit_columns new' = map (visit_of_device dev) ws"
    using assms(2) unfolding visits_added_def by blast
  show ?thesis
    unfolding visits_added_def
  proof (intro exI conjI)
    show "w = t\<lparr>visits := visits t @ (new @ new'), last_visit_id := n'\<rparr>"
      unfolding w u by simp
    show "map visit_columns (new @ new') = map (visit_of_device dev) (vs @ ws)"
      using c c' by simp
  qed
qed

lemma insertVisits_added:
  "insertVisits dev vs d = (Inr x, d') \<Longrightarrow> visits_added dev vs (tables d) (tables d')"
proof (induction vs arbitrary: d)
  case Nil
  then have "tables d' = tables d" by simp
  then show ?case unfolding visits_added_def
    by (intro exI [of _ "[]"] exI [of _ "last_visit_id (tables d)"]) simp
next
  case (Cons v vs)
  then obtain y e where 1: "exec (insert_visit dev v) d = (Inr y, e)" and 2: "insertVisits dev vs e = (Inr x, d')"
    by (auto simp: bindE_eq_Inr)
  have "visits_added dev [v] (tables d) (tables e)"
    using exec_tables [OF 1] insert_visit_added by blast
  from visits_added_trans [OF this Cons.IH [OF 2]] show ?case by simp
qed

lemma insertVisits_runs:
  "calm d \<Longrightarrow> device_exists dev (tables d) \<Longrightarrow> runs (insertVisits dev vs) (\<lambda>_ _. True) d"
proof (induction vs arbitrary: d)
  case Nil
  show ?case unfolding insertVisits.simps by (rule runs_returnE [OF Nil(1)]) (rule TrueI)
next
  case (Cons v vs)
  show ?case unfolding insertVisits.simps
  proof (rule runs_bindE [where R = "\<lambda>_ t. device_exists dev t"])
    show "runs (exec (insert_visit dev v)) (\<lambda>_ t. device_exists dev t) d"
      by (rule runs_exec [OF Cons.prems(1)])
        (use Cons.prems(2) in \<open>simp add: insert_visit_def Let_def device_exists_def\<close>)
  qed (rule Cons.IH)
qed

text \<open>The visits of a device that start in a window, as the text comparison of the query has it.\<close>

definition in_window :: "int \<Rightarrow> gotime option \<Rightarrow> gotime option \<Rightarrow> visit_row \<Rightarrow> bool" where
  "in_window dev a b v \<longleftrightarrow> v_device_id v = dev \<and> in_range_text a b (v_start_at v)"

lemma Rebuild_success:
  assumes "RebuildVisitsForDeviceRange dev a b cfg d = (Inr n, d')"
  shows "\<exists>ps new m.
     mapE scanDetectionPoint (select_detection_points dev a b (tables d)) = Inr ps \<and>
     tables d' = (tables d)\<lparr>visits := filter (\<lambda>v. \<not> in_window dev a b v) (visits (tables d)) @ new,
                            last_visit_id := m\<rparr> \<and>
     map visit_columns new = map (visit_of_device dev) (Detect (map detectPoint ps) cfg) \<and> n = int (length new)"
proof -
  from assms obtain ps d1 y d2 where
    1: "listPointsForVisitDetectionByDeviceID dev a b d = (Inr ps, d1)" and
    2: "in_tx (bindE (exec (delete_visits dev a b)) (\<lambda>_. bindE sql_call
          (\<lambda>_. insertVisits dev (Detect (map detectPoint ps) cfg)))) d1 = (Inr y, d2)" and
    n: "n = int (length (Detect (map detectPoint ps) cfg))" and d': "d' = d2"
    by (auto simp: RebuildVisitsForDeviceRange_def Let_def bindE_eq_Inr split: if_splits)
  from 1 have ps: "mapE scanDetectionPoint (select_detection_points dev a b (tables d)) = Inr ps"
    and t1: "tables d1 = tables d"
    by (auto simp: listPointsForVisitDetectionByDeviceID_def bindE_eq_Inr dest!: query_tables)
  from 2 obtain e e' where body: "bindE (exec (delete_visits dev a b)) (\<lambda>_. bindE sql_call
          (\<lambda>_. insertVisits dev (Detect (map detectPoint ps) cfg))) e = (Inr y, e')"
    and t: "tables e = tables d1" "tables d2 = tables e'"
    by (rule in_tx_success)
  from body obtain u e1 w e2 where del: "exec (delete_visits dev a b) e = (Inr u, e1)"
    and c: "sql_call e1 = (Inr w, e2)"
    and ins: "insertVisits dev (Detect (map detectPoint ps) cfg) e2 = (Inr y, e')"
    by (auto simp: bindE_eq_Inr)
  have e2: "tables e2 = (tables d)\<lparr>visits := filter (\<lambda>v. \<not> in_window dev a b v) (visits (tables d))\<rparr>"
    using exec_tables [OF del] sql_call_tables [OF c] t(1) t1 by (auto simp: delete_visits_def in_window_def)
  obtain new m where e': "tables e' = (tables e2)\<lparr>visits := visits (tables e2) @ new, last_visit_id := m\<rparr>"
    and new: "map visit_columns new = map (visit_of_device dev) (Detect (map detectPoint ps) cfg)"
    using insertVisits_added [OF ins] unfolding visits_added_def by blast
  have len: "length new = length (Detect (map detectPoint ps) cfg)"
    using arg_cong [OF new, of length] by simp
  have "tables d' = (tables d)\<lparr>visits := filter (\<lambda>v. \<not> in_window dev a b v) (visits (tables d)) @ new,
                            last_visit_id := m\<rparr>"
    unfolding d' t(2) e' e2 by simp
  with ps new n len show ?thesis by auto
qed

lemma Rebuild_failure:
  assumes "RebuildVisitsForDeviceRange dev a b cfg d = (Inl e, d')"
  shows "tables d' = tables d"
proof -
  show ?thesis
  proof (cases "dev \<le> 0")
    case True
    with assms show ?thesis by (simp add: RebuildVisitsForDeviceRange_def)
  next
    case False
    obtain r d1 where 1: "listPointsForVisitDetectionByDeviceID dev a b d = (r, d1)" by fastforce
    have t1: "tables d1 = tables d"
      using keepsD [OF keeps_visit_reads(1) [where P = "\<lambda>t. t = tables d"] refl 1] .
    show ?thesis
    proof (cases r)
      case (Inl e)
      with 1 False assms t1 show ?thesis by (simp add: RebuildVisitsForDeviceRange_def)
    next
      case (Inr ps)
      obtain r2 d2 where 2: "in_tx (bindE (exec (delete_visits dev a b)) (\<lambda>_. bindE sql_call
          (\<lambda>_. insertVisits dev (Detect (map detectPoint ps) cfg)))) d1 = (r2, d2)" by fastforce
      with 1 Inr False assms t1 show ?thesis
        by (cases r2) (auto simp: RebuildVisitsForDeviceRange_def Let_def dest: in_tx_error)
    qed
  qed
qed

lemma Rebuild_runs:
  assumes "calm d" and "0 < dev" and "device_exists dev (tables d)"
    and "mapE scanDetectionPoint (select_detection_points dev a b (tables d)) = Inr ps"
  shows "runs (RebuildVisitsForDeviceRange dev a b cfg) (\<lambda>_ _. True) d"
proof -
  have list: "runs (listPointsForVisitDetectionByDeviceID dev a b) (\<lambda>_ t. device_exists dev t) d"
    unfolding listPointsForVisitDetectionByDeviceID_def
    by (rule runs_bindE [where R = "\<lambda>rows t. mapE scanDetectionPoint rows = Inr ps \<and> device_exists dev t"])
      (use assms in \<open>auto intro!: runs_rules\<close>)
  have tx: "runs (in_tx (bindE (exec (delete_visits dev a b)) (\<lambda>_. bindE sql_call (\<lambda>_. insertVisits dev vs))))
      (\<lambda>_ _. True) e" if "device_exists dev (tables e)" "calm e" for e vs
  proof (rule runs_in_tx [OF that(2)])
    fix e1 assume e1: "calm e1" "tables e1 = tables e"
    show "runs (bindE (exec (delete_visits dev a b)) (\<lambda>_. bindE sql_call (\<lambda>_. insertVisits dev vs)))
        (\<lambda>_ _. True) e1"
    proof (rule runs_bindE [where R = "\<lambda>_ t. device_exists dev t"])
      show "runs (exec (delete_visits dev a b)) (\<lambda>_ t. device_exists dev t) e1"
        by (rule runs_exec [OF e1(1)]) (use that e1 in \<open>simp add: delete_visits_def device_exists_def\<close>)
      show "runs (bindE sql_call (\<lambda>_. insertVisits dev vs)) (\<lambda>_ _. True) e2"
        if "device_exists dev (tables e2)" "calm e2" for e2
        by (rule runs_bindE [where R = "\<lambda>_ t. device_exists dev t"])
          (use that in \<open>auto intro: runs_sql_call insertVisits_runs\<close>)
    qed
  qed
  have nz: "\<not> dev \<le> 0" using assms(2) by simp
  show ?thesis unfolding RebuildVisitsForDeviceRange_def Let_def if_not_P [OF nz]
    by (rule runs_bindE [OF list], rule runs_bindE [OF tx], assumption, assumption)
      (rule runs_returnE, assumption, rule TrueI)
qed

text \<open>
  Claim C16. \<^verbatim>\<open>RebuildVisitsForDeviceRange\<close> replaces, and replaces atomically: when it returns n, every
  visit of the device that starts in the window is gone, every other visit of every device is where it was,
  and after them come exactly n rows, the visits that \<^verbatim>\<open>Detect\<close> finds in the device's points of the window,
  in its order and with its numbers; no other table changed. When it returns an error the tables are as they
  were. And it does return a count, not an error, for an existing device with readable points when the
  driver does not fail.
\<close>

theorem rebuild_replaces_window:
  assumes "RebuildVisitsForDeviceRange dev a b cfg d = (r, d')"
  shows "(case r of
      Inl e \<Rightarrow> tables d' = tables d
    | Inr n \<Rightarrow> \<exists>ps new m.
        mapE scanDetectionPoint (select_detection_points dev a b (tables d)) = Inr ps \<and>
        tables d' = (tables d)\<lparr>visits := filter (\<lambda>v. \<not> in_window dev a b v) (visits (tables d)) @ new,
                               last_visit_id := m\<rparr> \<and>
        map visit_columns new = map (visit_of_device dev) (Detect (map detectPoint ps) cfg) \<and>
        n = int (length new)) \<and>
    (calm d \<and> 0 < dev \<and> device_exists dev (tables d) \<and>
      (\<exists>ps. mapE scanDetectionPoint (select_detection_points dev a b (tables d)) = Inr ps) \<longrightarrow> (\<exists>n. r = Inr n))"
proof (rule conjI)
  show "case r of
      Inl e \<Rightarrow> tables d' = tables d
    | Inr n \<Rightarrow> \<exists>ps new m.
        mapE scanDetectionPoint (select_detection_points dev a b (tables d)) = Inr ps \<and>
        tables d' = (tables d)\<lparr>visits := filter (\<lambda>v. \<not> in_window dev a b v) (visits (tables d)) @ new,
                               last_visit_id := m\<rparr> \<and>
        map visit_columns new = map (visit_of_device dev) (Detect (map detectPoint ps) cfg) \<and>
        n = int (length new)"
  proof (cases r)
    case (Inl e)
    with Rebuild_failure assms show ?thesis by simp
  next
    case (Inr n)
    with Rebuild_success [of dev a b cfg d n d'] assms show ?thesis by simp
  qed
  have "\<exists>n. r = Inr n" if "calm d" "0 < dev" "device_exists dev (tables d)"
    "mapE scanDetectionPoint (select_detection_points dev a b (tables d)) = Inr ps" for ps
    using Rebuild_runs [OF that, of cfg] assms by (auto simp: runs_def)
  then show "calm d \<and> 0 < dev \<and> device_exists dev (tables d) \<and>
      (\<exists>ps. mapE scanDetectionPoint (select_detection_points dev a b (tables d)) = Inr ps) \<longrightarrow> (\<exists>n. r = Inr n)"
    by blast
qed

section \<open>Witness\<close>

definition sample_visit :: "int \<Rightarrow> int \<Rightarrow> visit_row" where
  "sample_visit i dev =
     \<lparr>v_id = i, v_device_id = dev, v_start_at = fmt_RFC3339Nano (3 * second), v_end_at = fmt_RFC3339Nano (4 * second),
      v_centroid_lat = 0, v_centroid_lon = 0, v_point_count = 2, v_created_at = []\<rparr>"

definition sample_device :: device_row where
  "sample_device =
     \<lparr>d_id = 1, d_user_id = 1, d_name = ''phone'', d_source_type = ''owntracks'', d_api_key = ''k'',
      d_api_key_hash = None, d_api_key_preview = None, d_last_seen_at = None, d_last_seq_received = 0,
      d_created_at = [], d_updated_at = None\<rparr>"

definition rebuild_db :: dbstate where
  "rebuild_db = points_db\<lparr>tables := (tables points_db)\<lparr>devices := [sample_device],
     visits := [sample_visit 1 1, sample_visit 2 7], last_visit_id := 2\<rparr>\<rparr>"

lemma rebuild_db_readable:
  "\<exists>ps. mapE scanDetectionPoint (select_detection_points 1 None None (tables rebuild_db)) = Inr ps"
proof -
  have "\<exists>p. scanDetectionPoint r = Inr p" if "r \<in> set (select_detection_points 1 None None (tables rebuild_db))" for r
  proof -
    have "r \<in> set (raw_points (tables points_db))"
      using that by (simp add: select_detection_points_def by_time_def rebuild_db_def)
    with points_db_readable show ?thesis by (auto simp: scanDetectionPoint_def)
  qed
  then have "\<not> (\<exists>e. mapE scanDetectionPoint (select_detection_points 1 None None (tables rebuild_db)) = Inl e)"
    unfolding mapE_fails by force
  then show ?thesis by (metis sum.exhaust)
qed

theorem rebuild_replaces_window_witness:
  "\<exists>n new d'. RebuildVisitsForDeviceRange 1 None None \<lparr>MinDwell = second, MaxRadiusMeters = 30\<rparr> rebuild_db = (Inr n, d') \<and>
     visits (tables d') = sample_visit 2 7 # new \<and> n = int (length new)"
proof -
  let ?c = "\<lparr>MinDwell = second, MaxRadiusMeters = 30\<rparr>"
  obtain r d' where run: "RebuildVisitsForDeviceRange 1 None None ?c rebuild_db = (r, d')" by fastforce
  have "calm rebuild_db" "(0::int) < 1" "device_exists 1 (tables rebuild_db)"
    by (simp_all add: rebuild_db_def points_db_def calm_def device_exists_def sample_device_def)
  then obtain n where r: "r = Inr n"
    using rebuild_replaces_window [OF run] rebuild_db_readable by blast
  have kept: "filter (\<lambda>v. \<not> in_window 1 None None v) (visits (tables rebuild_db)) = [sample_visit 2 7]"
    by (simp add: rebuild_db_def in_window_def in_range_text_def sample_visit_def)
  obtain new m where "tables d' = (tables rebuild_db)\<lparr>visits := [sample_visit 2 7] @ new, last_visit_id := m\<rparr>"
    and "n = int (length new)"
    using rebuild_replaces_window [OF run] unfolding r sum.case kept by blast
  then show ?thesis using run r by auto
qed

end
