(* ===== verification/Outcomes.thy ===== *)
theory Outcomes
  imports Database
begin

text \<open>
  Rules for what a method of the store leaves in the tables, on success and on error. \<open>yields m E Q d\<close>:
  started at \<open>d\<close>, \<open>m\<close> ends with tables that satisfy \<open>E\<close> when it returns an error, and \<open>Q x\<close> when it
  returns \<open>x\<close>. There is one rule per construct, so a proof follows the text of the method.
\<close>

definition yields ::
  "(dbstate, 'e, 'a) gomethod \<Rightarrow> (tables \<Rightarrow> bool) \<Rightarrow> ('a \<Rightarrow> tables \<Rightarrow> bool) \<Rightarrow> dbstate \<Rightarrow> bool" where
  "yields m E Q d \<longleftrightarrow>
     (case m d of (Inl e, d') \<Rightarrow> E (tables d') | (Inr x, d') \<Rightarrow> Q x (tables d'))"

lemma yieldsI:
  "(\<And>e d'. m d = (Inl e, d') \<Longrightarrow> E (tables d')) \<Longrightarrow> (\<And>x d'. m d = (Inr x, d') \<Longrightarrow> Q x (tables d')) \<Longrightarrow>
   yields m E Q d"
  by (auto simp: yields_def split: prod.splits sum.splits)

lemma yieldsD:
  "yields m E Q d \<Longrightarrow> m d = (r, d') \<Longrightarrow> (case r of Inl e \<Rightarrow> E (tables d') | Inr x \<Rightarrow> Q x (tables d'))"
  by (simp add: yields_def split: sum.splits)

lemma yields_bindE:
  "yields m E R d \<Longrightarrow> (\<And>x d'. R x (tables d') \<Longrightarrow> yields (f x) E Q d') \<Longrightarrow> yields (bindE m f) E Q d"
  unfolding yields_def bindE_def by (fastforce split: prod.splits sum.splits)

lemma yields_returnE: "Q x (tables d) \<Longrightarrow> yields (returnE x) E Q d"
  and yields_throwE: "E (tables d) \<Longrightarrow> yields (throwE e) E Q d"
  by (simp_all add: yields_def returnE_def throwE_def)

lemma yields_fromE:
  "(\<And>e. r = Inl e \<Longrightarrow> E (tables d)) \<Longrightarrow> (\<And>x. r = Inr x \<Longrightarrow> Q x (tables d)) \<Longrightarrow> yields (fromE r) E Q d"
  by (auto simp: yields_def fromE_def split: sum.splits)

lemma yields_if:
  "(b \<Longrightarrow> yields m E Q d) \<Longrightarrow> (\<not> b \<Longrightarrow> yields m' E Q d) \<Longrightarrow> yields (if b then m else m') E Q d"
  by simp

lemma yields_option:
  "(x = None \<Longrightarrow> yields m E Q d) \<Longrightarrow> (\<And>y. x = Some y \<Longrightarrow> yields (f y) E Q d) \<Longrightarrow>
   yields (case x of None \<Rightarrow> m | Some y \<Rightarrow> f y) E Q d"
  by (cases x) simp_all

text \<open>A method that changes nothing.\<close>

definition reads :: "(dbstate, 'e, 'a) gomethod \<Rightarrow> bool" where
  "reads m \<longleftrightarrow> (\<forall>P. keeps P m)"

lemma readsI: "(\<And>P. keeps P m) \<Longrightarrow> reads m"
  by (simp add: reads_def)

lemma reads_tables: "reads m \<Longrightarrow> m d = (r, d') \<Longrightarrow> tables d' = tables d"
  using keepsD [of "\<lambda>t. t = tables d" m d r d'] by (simp add: reads_def)

lemma yields_reads:
  assumes "reads m" and "E (tables d)" and "\<And>x d'. m d = (Inr x, d') \<Longrightarrow> Q x (tables d)"
  shows "yields m E Q d"
proof (rule yieldsI)
  show "E (tables d')" if "m d = (Inl e, d')" for e d'
    using assms(2) unfolding reads_tables [OF assms(1) that] .
  show "Q x (tables d')" if "m d = (Inr x, d')" for x d'
    using assms(3) [OF that] unfolding reads_tables [OF assms(1) that] .
qed

lemma exec_error: "exec stmt d = (Inl e, d') \<Longrightarrow> tables d' = tables d"
  by (auto simp: exec_def Let_def split: if_splits sum.splits prod.splits)

lemma yields_exec:
  "E (tables d) \<Longrightarrow> (\<And>fk now x t. stmt fk now (tables d) = Inr (x, t) \<Longrightarrow> Q x t) \<Longrightarrow> yields (exec stmt) E Q d"
  by (rule yieldsI) (auto dest: exec_error exec_tables)

lemmas yields_rules = yields_returnE yields_throwE yields_fromE yields_if yields_option

end
