(* ===== verification/Scheduler.thy ===== *)
theory Scheduler
  imports StoreDevices StoreVisits Outcomes
begin

text \<open>
  \<^verbatim>\<open>internal/tasks/visit_scheduler.go\<close>: the background task that recomputes the visits of the devices
  with new points, a batch of devices per run, and keeps a watermark per device. The \<^verbatim>\<open>store\<close> of the
  receiver is the database state; the two atomic flags, the round-robin position and the status are its
  other fields. The nil checks of the source concern pointers that the program never passes as nil, and
  the log lines are left out.
\<close>

section \<open>Model\<close>

record VisitSchedulerConfig =
  VC_Enabled :: bool
  VC_Interval :: duration
  VC_DeviceBatchSize :: int
  VC_Lookback :: duration
  VC_DetectConfig :: visit_config

record VisitSchedulerRunResult =
  ProcessedDevices :: int
  SkippedDevices :: int
  UpdatedDevices :: int
  CreatedVisits :: int
  RunErrors :: int

record VisitSchedulerStatus =
  SS_Enabled :: bool
  SS_Running :: bool
  LastRunStartUTC :: gotime
  LastRunFinishUTC :: gotime
  LastSuccessUTC :: gotime
  SS_LastError :: "store_error option"
  LastRun :: VisitSchedulerRunResult
  WatermarkDevices :: int
  WatermarkMinSeq :: uint64
  WatermarkMaxSeq :: uint64
  WatermarkLastUTC :: gotime
  LagSeconds :: int

record VisitScheduler =
  vs_store :: dbstate
  vs_cfg :: VisitSchedulerConfig
  vs_started :: bool
  vs_running :: bool
  roundRobinStart :: nat
  vs_status :: VisitSchedulerStatus

definition zeroRunResult :: VisitSchedulerRunResult where
  "zeroRunResult =
     \<lparr>ProcessedDevices = 0, SkippedDevices = 0, UpdatedDevices = 0, CreatedVisits = 0, RunErrors = 0\<rparr>"

definition zeroStatus :: VisitSchedulerStatus where
  "zeroStatus =
     \<lparr>SS_Enabled = False, SS_Running = False, LastRunStartUTC = 0, LastRunFinishUTC = 0, LastSuccessUTC = 0,
      SS_LastError = None, LastRun = zeroRunResult, WatermarkDevices = 0, WatermarkMinSeq = 0,
      WatermarkMaxSeq = 0, WatermarkLastUTC = 0, LagSeconds = 0\<rparr>"

definition NewVisitScheduler :: "dbstate \<Rightarrow> VisitSchedulerConfig \<Rightarrow> VisitScheduler" where
  "NewVisitScheduler d cfg =
     (let dc = VC_DetectConfig cfg;
          cfg1 = cfg
            \<lparr>VC_Interval := (if VC_Interval cfg \<le> 0 then 15 * 60 * second else VC_Interval cfg),
             VC_DeviceBatchSize := (if VC_DeviceBatchSize cfg \<le> 0 then 10 else VC_DeviceBatchSize cfg),
             VC_Lookback := (if VC_Lookback cfg \<le> 0 then 2 * 3600 * second else VC_Lookback cfg),
             VC_DetectConfig := dc
               \<lparr>MinDwell := (if MinDwell dc \<le> 0 then 15 * 60 * second else MinDwell dc),
                MaxRadiusMeters := (if MaxRadiusMeters dc \<le> 0 then 35 else MaxRadiusMeters dc)\<rparr>\<rparr>
      in \<lparr>vs_store = d, vs_cfg = cfg1, vs_started = False, vs_running = False, roundRobinStart = 0,
          vs_status = zeroStatus\<lparr>SS_Enabled := VC_Enabled cfg\<rparr>\<rparr>)"

definition Status :: "VisitScheduler \<Rightarrow> VisitSchedulerStatus" where
  "Status s = (vs_status s)\<lparr>SS_Running := vs_running s, SS_Enabled := VC_Enabled (vs_cfg s)\<rparr>"

fun uniqueByID :: "int set \<Rightarrow> Device list \<Rightarrow> Device list" where
  "uniqueByID seen [] = []"
| "uniqueByID seen (d # ds) =
     (if Device_ID d \<le> 0 then uniqueByID seen ds
      else if Device_ID d \<in> seen then uniqueByID seen ds
      else d # uniqueByID (insert (Device_ID d) seen) ds)"

text \<open>The ids are distinct, so the tie on the name is never looked at.\<close>

definition sortedUniqueDevicesByID :: "Device list \<Rightarrow> Device list" where
  "sortedUniqueDevicesByID ds = sort_key Device_ID (uniqueByID {} ds)"

definition selectDeviceBatch :: "Device list \<Rightarrow> VisitScheduler \<Rightarrow> Device list \<times> VisitScheduler" where
  "selectDeviceBatch ds s =
     (if int (length ds) \<le> VC_DeviceBatchSize (vs_cfg s) then (ds, s)
      else let n = length ds; b = nat (VC_DeviceBatchSize (vs_cfg s)); start = roundRobinStart s mod n
           in (map (\<lambda>i. ds ! ((start + i) mod n)) [0..<b], s\<lparr>roundRobinStart := (start + b) mod n\<rparr>))"

text \<open>From where the visits of a device are recomputed: some time before the last point it has seen.\<close>

definition lookbackStart ::
  "duration \<Rightarrow> int \<Rightarrow> VisitGenerationState option \<Rightarrow> (dbstate, store_error, gotime option) gomethod" where
  "lookbackStart lookback i state =
     (case state of
        None \<Rightarrow> returnE None
      | Some g \<Rightarrow>
          if VG_LastProcessedSeq g > 0
          then bindE (GetPointTimestampForDeviceSeq i (VG_LastProcessedSeq g)) (\<lambda>ts.
                 returnE (map_option (\<lambda>t. t - lookback) ts))
          else returnE None)"

text \<open>The result: visits created, whether the device was updated, whether it was skipped.\<close>

definition processDevice ::
  "VisitSchedulerConfig \<Rightarrow> Device \<Rightarrow> (dbstate, store_error, int \<times> bool \<times> bool) gomethod" where
  "processDevice cfg dev =
     (let i = Device_ID dev in
      if i \<le> 0 then returnE (0, False, True)
      else
        bindE (GetMaxPointSeqForDevice i) (\<lambda>mx.
        case mx of
          None \<Rightarrow> returnE (0, False, True)
        | Some maxSeq \<Rightarrow>
            bindE (GetVisitGenerationState i) (\<lambda>state.
            if (case state of None \<Rightarrow> False | Some g \<Rightarrow> maxSeq \<le> VG_LastProcessedSeq g)
            then returnE (0, False, True)
            else
              bindE (lookbackStart (VC_Lookback cfg) i state) (\<lambda>fromUTC.
              bindE (RebuildVisitsForDeviceRange i fromUTC None (VC_DetectConfig cfg)) (\<lambda>created.
              bindE (UpsertVisitGenerationState i maxSeq) (\<lambda>_.
                returnE (created, True, False)))))))"

definition countDevice ::
  "store_error + int \<times> bool \<times> bool \<Rightarrow> VisitSchedulerRunResult \<Rightarrow> VisitSchedulerRunResult" where
  "countDevice r res =
     (let res1 = res\<lparr>ProcessedDevices := ProcessedDevices res + 1\<rparr> in
      case r of
        Inl e \<Rightarrow> res1\<lparr>RunErrors := RunErrors res1 + 1\<rparr>
      | Inr (created, updated, skipped) \<Rightarrow>
          if skipped then res1\<lparr>SkippedDevices := SkippedDevices res1 + 1\<rparr>
          else res1\<lparr>UpdatedDevices := UpdatedDevices res1 + (if updated then 1 else 0),
                    CreatedVisits := CreatedVisits res1 + created\<rparr>)"

text \<open>An error of one device does not stop the loop.\<close>

fun processDevices ::
  "VisitSchedulerConfig \<Rightarrow> Device list \<Rightarrow> VisitSchedulerRunResult \<Rightarrow> dbstate \<Rightarrow> VisitSchedulerRunResult \<times> dbstate"
where
  "processDevices cfg [] res d = (res, d)"
| "processDevices cfg (dev # devs) res d =
     (case processDevice cfg dev d of (r, d1) \<Rightarrow> processDevices cfg devs (countDevice r res) d1)"

definition setRunStart :: "gotime \<Rightarrow> VisitScheduler \<Rightarrow> VisitScheduler" where
  "setRunStart t s = s\<lparr>vs_status := (vs_status s)
     \<lparr>SS_Enabled := VC_Enabled (vs_cfg s), LastRunStartUTC := t, SS_Running := True\<rparr>\<rparr>"

definition setRunFinish ::
  "gotime \<Rightarrow> VisitSchedulerRunResult \<Rightarrow> store_error option \<Rightarrow> VisitScheduler \<Rightarrow> VisitScheduler" where
  "setRunFinish t res err s =
     (let st = (vs_status s)\<lparr>SS_Enabled := VC_Enabled (vs_cfg s), SS_Running := False,
                             LastRunFinishUTC := t, LastRun := res\<rparr>
      in s\<lparr>vs_status :=
             (case err of Some e \<Rightarrow> st\<lparr>SS_LastError := Some e\<rparr>
                        | None \<Rightarrow> st\<lparr>LastSuccessUTC := t, SS_LastError := None\<rparr>)\<rparr>)"

text \<open>The watermarks of the batch: how many, the least, the greatest, the latest point they stand for.\<close>

definition watermarkStep ::
  "Device \<Rightarrow> int \<times> uint64 \<times> uint64 \<times> gotime \<Rightarrow> dbstate \<Rightarrow> (int \<times> uint64 \<times> uint64 \<times> gotime) \<times> dbstate"
where
  "watermarkStep dev acc d =
     (case acc of (n, minSeq, maxSeq, maxTs) \<Rightarrow>
      case GetVisitGenerationState (Device_ID dev) d of
        (Inr (Some g), d1) \<Rightarrow>
          (if VG_LastProcessedSeq g = 0 then (acc, d1)
           else
             let w = VG_LastProcessedSeq g;
                 minSeq1 = (if minSeq = 0 \<or> w < minSeq then w else minSeq);
                 maxSeq1 = (if w > maxSeq then w else maxSeq)
             in case GetPointTimestampForDeviceSeq (Device_ID dev) w d1 of
                  (Inr (Some ts), d2) \<Rightarrow> ((n + 1, minSeq1, maxSeq1, if ts > maxTs then ts else maxTs), d2)
                | (_, d2) \<Rightarrow> ((n + 1, minSeq1, maxSeq1, maxTs), d2))
      | (_, d1) \<Rightarrow> (acc, d1))"

fun watermarkLoop ::
  "Device list \<Rightarrow> int \<times> uint64 \<times> uint64 \<times> gotime \<Rightarrow> dbstate \<Rightarrow> (int \<times> uint64 \<times> uint64 \<times> gotime) \<times> dbstate"
where
  "watermarkLoop [] acc d = (acc, d)"
| "watermarkLoop (dev # devs) acc d =
     (case watermarkStep dev acc d of (acc1, d1) \<Rightarrow> watermarkLoop devs acc1 d1)"

text \<open>\<^verbatim>\<open>int64(d.Seconds())\<close>, cut towards zero, and nothing below zero.\<close>

definition lagOf :: "gotime \<Rightarrow> gotime \<Rightarrow> int" where
  "lagOf now ts =
     (if time_IsZero ts then 0
      else let d = time_Sub now ts in if d < 0 then 0 else d div second)"

definition updateWatermarkStatus :: "Device list \<Rightarrow> VisitScheduler \<Rightarrow> VisitScheduler" where
  "updateWatermarkStatus devs s =
     (case watermarkLoop devs (0, 0, 0, 0) (vs_store s) of ((n, minSeq, maxSeq, maxTs), d1) \<Rightarrow>
      case time_Now d1 of (_, d2) \<Rightarrow>
        s\<lparr>vs_store := d2,
          vs_status := (vs_status s)
            \<lparr>WatermarkDevices := n, WatermarkMinSeq := minSeq, WatermarkMaxSeq := maxSeq,
             WatermarkLastUTC := maxTs, LagSeconds := lagOf (dbclock d1 (dbticks d1)) maxTs\<rparr>\<rparr>)"

text \<open>A reading of the clock that the scheduler itself makes.\<close>

definition vs_now :: "VisitScheduler \<Rightarrow> gotime \<times> VisitScheduler" where
  "vs_now s = (let d = vs_store s in
     (dbclock d (dbticks d), s\<lparr>vs_store := d\<lparr>dbticks := Suc (dbticks d)\<rparr>\<rparr>))"

text \<open>A second run that starts while one is running returns at once.\<close>

definition runOnce :: "VisitScheduler \<Rightarrow> (VisitSchedulerRunResult \<times> store_error option) \<times> VisitScheduler" where
  "runOnce s =
     (if vs_running s then ((zeroRunResult, None), s)
      else
        case vs_now (s\<lparr>vs_running := True\<rparr>) of (startedAt, s0) \<Rightarrow>
        let s1 = setRunStart startedAt s0 in
        case ListDevices (vs_store s1) of
          (Inl e, d1) \<Rightarrow>
            (case vs_now (s1\<lparr>vs_store := d1\<rparr>) of (t, s2) \<Rightarrow>
               ((zeroRunResult, Some e), (setRunFinish t zeroRunResult (Some e) s2)\<lparr>vs_running := False\<rparr>))
        | (Inr ds, d1) \<Rightarrow>
            (case selectDeviceBatch (sortedUniqueDevicesByID ds) (s1\<lparr>vs_store := d1\<rparr>) of (batch, s2) \<Rightarrow>
              if batch = [] then
                (case vs_now s2 of (t, s3) \<Rightarrow>
                   ((zeroRunResult, None), (setRunFinish t zeroRunResult None s3)\<lparr>vs_running := False\<rparr>))
              else
                case processDevices (vs_cfg s) batch zeroRunResult (vs_store s2) of (res, d2) \<Rightarrow>
                case vs_now (s2\<lparr>vs_store := d2\<rparr>) of (t, s3) \<Rightarrow>
                  ((res, None),
                   (updateWatermarkStatus batch (setRunFinish t res None s3))\<lparr>vs_running := False\<rparr>)))"

definition RunOnce :: "VisitScheduler \<Rightarrow> (VisitSchedulerRunResult \<times> store_error option) \<times> VisitScheduler" where
  "RunOnce s = runOnce s"

text \<open>
  \<^verbatim>\<open>Start\<close> launches the goroutine once; it runs at once and then at every tick, and a result is only
  logged. \<open>vs_loop n\<close> is what it has done after \<open>n\<close> ticks.
\<close>

definition safeRunOnce :: "VisitScheduler \<Rightarrow> VisitScheduler" where
  "safeRunOnce s = snd (runOnce s)"

definition Start_scheduler :: "VisitScheduler \<Rightarrow> bool \<times> VisitScheduler" where
  "Start_scheduler s =
     (if \<not> VC_Enabled (vs_cfg s) then (False, s)
      else if vs_started s then (False, s)
      else (True, s\<lparr>vs_started := True\<rparr>))"

fun vs_loop :: "nat \<Rightarrow> VisitScheduler \<Rightarrow> VisitScheduler" where
  "vs_loop 0 s = safeRunOnce s"
| "vs_loop (Suc n) s = safeRunOnce (vs_loop n s)"

section \<open>Round robin\<close>

lemma uniqueByID_ids: "set (uniqueByID seen ds) \<subseteq> set ds" "\<forall>d \<in> set (uniqueByID seen ds). 0 < Device_ID d \<and> Device_ID d \<notin> seen"
proof (induction ds arbitrary: seen)
  case (Cons d ds)
  { case 1
    show ?case using Cons(1) [of seen] Cons(1) [of "insert (Device_ID d) seen"] by auto }
  { case 2
    show ?case using Cons(2) [of seen] Cons(2) [of "insert (Device_ID d) seen"] by auto }
qed simp_all

lemma uniqueByID_distinct: "distinct (map Device_ID (uniqueByID seen ds))"
proof (induction ds arbitrary: seen)
  case (Cons d ds)
  have "Device_ID d \<notin> Device_ID ` set (uniqueByID (insert (Device_ID d) seen) ds)"
    using uniqueByID_ids(2) [of "insert (Device_ID d) seen" ds] by auto
  with Cons show ?case by simp
qed simp

lemma uniqueByID_complete: "d \<in> set ds \<Longrightarrow> 0 < Device_ID d \<Longrightarrow> Device_ID d \<notin> seen \<Longrightarrow>
  Device_ID d \<in> Device_ID ` set (uniqueByID seen ds)"
proof (induction ds arbitrary: seen)
  case (Cons e ds)
  show ?case
  proof (cases "Device_ID e \<in> seen \<or> Device_ID e \<le> 0")
    case True
    then have d: "d \<in> set ds" using Cons.prems by auto
    have "uniqueByID seen (e # ds) = uniqueByID seen ds" using True by auto
    with Cons.IH [OF d Cons.prems(2,3)] show ?thesis by metis
  next
    case new: False
    show ?thesis
    proof (cases "Device_ID d = Device_ID e")
      case False
      then have "d \<in> set ds" "Device_ID d \<notin> insert (Device_ID e) seen" using Cons.prems by auto
      with Cons.IH [of "insert (Device_ID e) seen"] Cons.prems(2) new show ?thesis by simp
    qed (use new in simp)
  qed
qed simp

lemma length_sortedUnique: "length (sortedUniqueDevicesByID ds) \<le> length ds"
proof -
  have "length (uniqueByID seen ds) \<le> length ds" for seen
    by (induction ds arbitrary: seen) (simp_all add: le_SucI)
  then show ?thesis by (simp add: sortedUniqueDevicesByID_def)
qed

lemma sortedUniqueDevicesByID_ids:
  "distinct (map Device_ID (sortedUniqueDevicesByID ds))" "sorted (map Device_ID (sortedUniqueDevicesByID ds))"
  "Device_ID ` set (sortedUniqueDevicesByID ds) = {i \<in> Device_ID ` set ds. 0 < i}"
proof -
  show "distinct (map Device_ID (sortedUniqueDevicesByID ds))"
    using uniqueByID_distinct [of "{}" ds] by (simp add: sortedUniqueDevicesByID_def distinct_map)
  show "sorted (map Device_ID (sortedUniqueDevicesByID ds))"
    by (simp add: sortedUniqueDevicesByID_def)
  show "Device_ID ` set (sortedUniqueDevicesByID ds) = {i \<in> Device_ID ` set ds. 0 < i}"
    using uniqueByID_ids [of "{}" ds] uniqueByID_complete [of _ ds "{}"]
    by (fastforce simp: sortedUniqueDevicesByID_def)
qed

text \<open>The batches of \<open>k\<close> runs that find the same devices.\<close>

fun batches :: "nat \<Rightarrow> Device list \<Rightarrow> VisitScheduler \<Rightarrow> Device list list" where
  "batches 0 ds s = []"
| "batches (Suc k) ds s = (case selectDeviceBatch ds s of (b, s1) \<Rightarrow> b # batches k ds s1)"

definition cyclic :: "'a list \<Rightarrow> nat \<Rightarrow> nat \<Rightarrow> 'a list" where
  "cyclic xs c m = map (\<lambda>t. xs ! ((c + t) mod length xs)) [0..<m]"

lemma cyclic_add: "cyclic xs c (m + n) = cyclic xs c m @ cyclic xs (c + m) n"
proof -
  have "[0..<m + n] = [0..<m] @ map (\<lambda>t. t + m) [0..<n]"
    by (metis map_add_upt add.commute upt_add_eq_append zero_le)
  then show ?thesis by (simp add: cyclic_def ac_simps)
qed

lemma cyclic_mod: "cyclic xs (c mod length xs) m = cyclic xs c m"
  by (simp add: cyclic_def mod_add_left_eq)

lemma selectDeviceBatch_small:
  "int (length ds) \<le> VC_DeviceBatchSize (vs_cfg s) \<Longrightarrow> selectDeviceBatch ds s = (ds, s)"
  by (simp add: selectDeviceBatch_def)

lemma selectDeviceBatch_large:
  assumes "VC_DeviceBatchSize (vs_cfg s) < int (length ds)"
  shows "selectDeviceBatch ds s =
    (cyclic ds (roundRobinStart s) (nat (VC_DeviceBatchSize (vs_cfg s))),
     s\<lparr>roundRobinStart := (roundRobinStart s + nat (VC_DeviceBatchSize (vs_cfg s))) mod length ds\<rparr>)"
  using assms by (simp add: selectDeviceBatch_def Let_def cyclic_def mod_add_left_eq)

lemma batches_cyclic:
  "VC_DeviceBatchSize (vs_cfg s) < int (length ds) \<Longrightarrow>
   concat (batches k ds s) = cyclic ds (roundRobinStart s) (k * nat (VC_DeviceBatchSize (vs_cfg s)))"
proof (induction k arbitrary: s)
  case 0
  show ?case by (simp add: cyclic_def)
next
  case (Suc k)
  let ?b = "nat (VC_DeviceBatchSize (vs_cfg s))"
  have "concat (batches (Suc k) ds s) =
    cyclic ds (roundRobinStart s) ?b @ cyclic ds ((roundRobinStart s + ?b) mod length ds) (k * ?b)"
    using Suc.IH [of "s\<lparr>roundRobinStart := (roundRobinStart s + ?b) mod length ds\<rparr>"] Suc.prems
    by (simp add: selectDeviceBatch_large)
  then show ?case by (simp add: cyclic_mod cyclic_add)
qed

text \<open>In a cycle of length \<open>n\<close> every position comes up once.\<close>

lemma mod_shift_inj:
  assumes "(c + s) mod n = (c + t) mod n" and "s < n" and "t < (n::nat)"
  shows "s = t"
proof -
  have "n dvd t - s" if "s \<le> t"
    using assms(1) that mod_eq_dvd_iff_nat [of "c + s" "c + t" n] by simp
  moreover have "n dvd s - t" if "t \<le> s"
    using assms(1) that mod_eq_dvd_iff_nat [of "c + t" "c + s" n] by simp
  moreover have "t - s = 0" if "n dvd t - s"
    using that assms(3) by (meson dvd_imp_le gr_zeroI less_imp_diff_less linorder_not_less)
  moreover have "s - t = 0" if "n dvd s - t"
    using that assms(2) by (meson dvd_imp_le gr_zeroI less_imp_diff_less linorder_not_less)
  ultimately show ?thesis by (cases "s \<le> t") auto
qed

definition hits :: "nat \<Rightarrow> nat \<Rightarrow> nat \<Rightarrow> nat \<Rightarrow> nat" where
  "hits n i c m = card {t. t < m \<and> (c + t) mod n = i}"

lemma hits_less:
  assumes "m \<le> n"
  shows "hits n i c m \<le> 1"
  unfolding hits_def One_nat_def
proof (rule iffD2 [OF card_le_Suc0_iff_eq])
  show "\<forall>s \<in> {t. t < m \<and> (c + t) mod n = i}. \<forall>t \<in> {t. t < m \<and> (c + t) mod n = i}. s = t"
  proof (intro ballI)
    fix s t assume "s \<in> {t. t < m \<and> (c + t) mod n = i}" "t \<in> {t. t < m \<and> (c + t) mod n = i}"
    then show "s = t" using assms by (intro mod_shift_inj [of c s n t]) simp_all
  qed
qed simp

lemma hits_period:
  assumes "i < n"
  shows "hits n i c n = 1"
proof -
  let ?t = "(i + (n - c mod n)) mod n"
  have "(c + ?t) mod n = (c mod n + (i + (n - c mod n))) mod n"
    by (simp add: mod_add_left_eq mod_add_right_eq)
  also have "c mod n + (i + (n - c mod n)) = i + n"
    using assms mod_less_divisor [of n c] by linarith
  finally have "?t \<in> {t. t < n \<and> (c + t) mod n = i}" using assms by simp
  then have "0 < hits n i c n" unfolding hits_def by (auto simp: card_gt_0_iff)
  with hits_less [of n n i c] show ?thesis by simp
qed

lemma hits_add: "hits n i c (k + m) = hits n i c k + hits n i (c + k) m"
proof -
  let ?A = "{t. t < k \<and> (c + t) mod n = i}" and ?B = "{t. t < m \<and> (c + k + t) mod n = i}"
  have "{t. t < k + m \<and> (c + t) mod n = i} = ?A \<union> (\<lambda>t. k + t) ` ?B"
  proof (intro set_eqI iffI)
    fix t assume t: "t \<in> {t. t < k + m \<and> (c + t) mod n = i}"
    show "t \<in> ?A \<union> (\<lambda>t. k + t) ` ?B"
    proof (cases "t < k")
      case False
      then have "t - k \<in> ?B" "t = k + (t - k)" using t by auto
      then show ?thesis by blast
    qed (use t in auto)
  qed (auto simp: add.assoc)
  moreover have "?A \<inter> (\<lambda>t. k + t) ` ?B = {}" by auto
  ultimately have "card {t. t < k + m \<and> (c + t) mod n = i} = card ?A + card ((\<lambda>t. k + t) ` ?B)"
    by (simp add: card_Un_disjoint)
  also have "card ((\<lambda>t. k + t) ` ?B) = card ?B" by (rule card_image) simp
  finally show ?thesis by (simp add: hits_def)
qed

lemma hits_bounds:
  assumes "i < n"
  shows "m div n \<le> hits n i c m \<and> hits n i c m \<le> m div n + 1"
proof (induction m arbitrary: c rule: less_induct)
  case (less m)
  show ?case
  proof (cases "m < n")
    case True
    then show ?thesis using hits_less [of m n i c] by simp
  next
    case False
    have "hits n i c (n + (m - n)) = 1 + hits n i (c + n) (m - n)"
      by (simp add: hits_add hits_period [OF assms])
    then have "hits n i c m = 1 + hits n i (c + n) (m - n)" using False by simp
    moreover have "m div n = 1 + (m - n) div n"
      using False assms by (simp add: le_div_geq)
    moreover have "m - n < m" using False assms by simp
    ultimately show ?thesis using less.IH [of "m - n" "c + n"] by simp
  qed
qed

lemma count_cyclic:
  assumes "distinct xs" and "i < length xs"
  shows "count_list (cyclic xs c m) (xs ! i) = hits (length xs) i c m"
proof -
  have "count_list (cyclic xs c m) (xs ! i) = length (filter (\<lambda>t. xs ! i = xs ! ((c + t) mod length xs)) [0..<m])"
    by (simp add: cyclic_def count_list_eq_length_filter filter_map o_def)
  also have "\<dots> = length (filter (\<lambda>t. (c + t) mod length xs = i) [0..<m])"
  proof -
    have "(xs ! i = xs ! ((c + t) mod length xs)) = ((c + t) mod length xs = i)" for t
      using nth_eq_iff_index_eq [OF assms(1), of i "(c + t) mod length xs"] assms(2)
        mod_less_divisor [of "length xs" "c + t"] by (metis gr_implies_not0 neq0_conv)
    then show ?thesis by simp
  qed
  also have "\<dots> = card (set (filter (\<lambda>t. (c + t) mod length xs = i) [0..<m]))"
    by (rule distinct_card [symmetric]) simp
  also have "set (filter (\<lambda>t. (c + t) mod length xs = i) [0..<m]) = {t. t < m \<and> (c + t) mod length xs = i}" by auto
  finally show ?thesis by (simp add: hits_def)
qed

text \<open>
  Claim C19. The choice of the batches is fair: over any number of runs that find the same devices, no
  device is chosen more than once more often than another one, whatever the position the scheduler starts
  at; and once the runs together had room for all devices, every device has been chosen.
\<close>

theorem round_robin_fair:
  assumes "distinct ds" and "0 < VC_DeviceBatchSize (vs_cfg s)" and "x \<in> set ds" and "y \<in> set ds"
  shows "count_list (concat (batches k ds s)) x \<le> count_list (concat (batches k ds s)) y + 1 \<and>
    (int (length ds) \<le> int k * VC_DeviceBatchSize (vs_cfg s) \<longrightarrow> x \<in> set (concat (batches k ds s)))"
proof (cases "int (length ds) \<le> VC_DeviceBatchSize (vs_cfg s)")
  case True
  have "concat (batches k ds s) = concat (replicate k ds)"
    by (induction k) (simp_all add: selectDeviceBatch_small [OF True])
  moreover have "count_list (concat (replicate k ds)) z = k" if "z \<in> set ds" for z
  proof -
    have one: "count_list ds z = 1" using assms(1) that by (induction ds) (auto simp: count_list_0_iff)
    show ?thesis by (induction k) (simp_all add: one)
  qed
  moreover have "0 < k" if "int (length ds) \<le> int k * VC_DeviceBatchSize (vs_cfg s)"
    using that assms(3) by (cases k) auto
  ultimately show ?thesis using assms(3,4) by (auto simp: gr0_conv_Suc)
next
  case False
  let ?b = "nat (VC_DeviceBatchSize (vs_cfg s))" and ?n = "length ds"
  have c: "concat (batches k ds s) = cyclic ds (roundRobinStart s) (k * ?b)"
    by (rule batches_cyclic) (use False in simp)
  obtain i j where i: "i < ?n" "x = ds ! i" and j: "j < ?n" "y = ds ! j"
    using assms(3,4) by (metis in_set_conv_nth)
  note bounds = hits_bounds [OF i(1), of "k * ?b" "roundRobinStart s"]
    hits_bounds [OF j(1), of "k * ?b" "roundRobinStart s"]
  have "x \<in> set (concat (batches k ds s))" if room: "int ?n \<le> int k * VC_DeviceBatchSize (vs_cfg s)"
  proof -
    have "int ?n \<le> int (k * ?b)" using room assms(2) by simp
    then have "?n \<le> k * ?b" by linarith
    then have "1 \<le> k * ?b div ?n" using i(1) by (auto simp: Suc_le_eq div_greater_zero_iff)
    then have "count_list (concat (batches k ds s)) x \<noteq> 0"
      using bounds(1) unfolding c i(2) count_cyclic [OF assms(1) i(1)] by simp
    then show ?thesis by (metis count_list_0_iff)
  qed
  moreover have "count_list (concat (batches k ds s)) x \<le> count_list (concat (batches k ds s)) y + 1"
    using bounds unfolding c i(2) j(2) count_cyclic [OF assms(1) i(1)] count_cyclic [OF assms(1) j(1)] by simp
  ultimately show ?thesis by blast
qed

section \<open>One device\<close>

text \<open>The watermark of a device, as the table has it.\<close>

definition watermark :: "int \<Rightarrow> tables \<Rightarrow> int option" where
  "watermark i t = map_option g_last_processed_seq (find (\<lambda>r. g_device_id r = i) (visit_generation_state t))"

text \<open>The columns of sequence numbers hold 64-bit integers.\<close>

definition seqs_fit :: "tables \<Rightarrow> bool" where
  "seqs_fit t \<longleftrightarrow> (\<forall>r \<in> set (raw_points t). rp_seq r < 2 ^ 63) \<and>
     (\<forall>r \<in> set (visit_generation_state t). g_last_processed_seq r < 2 ^ 63)"

lemma uint_word_of_int_small: "0 \<le> k \<Longrightarrow> k < 2 ^ 63 \<Longrightarrow> uint (word_of_int k :: uint64) = k"
  by (simp add: unsigned_of_int take_bit_int_eq_self)

lemma max_point_seq_in:
  assumes "max_point_seq i t = Some m"
  shows "\<exists>r \<in> set (raw_points t). rp_device_id r = i \<and> rp_seq r = m"
    and "\<And>r. r \<in> set (raw_points t) \<Longrightarrow> rp_device_id r = i \<Longrightarrow> rp_seq r \<le> m"
proof -
  let ?ns = "map rp_seq (filter (\<lambda>r. rp_device_id r = i) (raw_points t))"
  obtain n ns where ns: "?ns = n # ns" and m: "m = fold max ns n"
    using assms by (auto simp: max_point_seq_def split: list.splits)
  have "m = Max (set ?ns)" unfolding m ns Max.set_eq_fold ..
  moreover have "Max (set ?ns) \<in> set ?ns" using ns by (intro Max_in) auto
  ultimately have "m \<in> set ?ns" by simp
  then show "\<exists>r \<in> set (raw_points t). rp_device_id r = i \<and> rp_seq r = m" by auto
  show "rp_seq r \<le> m" if "r \<in> set (raw_points t)" "rp_device_id r = i" for r
    unfolding \<open>m = Max (set ?ns)\<close> using that by (intro Max_ge) auto
qed

lemma GetMaxPointSeq_success:
  assumes "GetMaxPointSeqForDevice i d = (Inr mx, d1)" and "seqs_fit (tables d)"
  shows "tables d1 = tables d" and
    "case mx of
       None \<Rightarrow> (case max_point_seq i (tables d) of None \<Rightarrow> True | Some m \<Rightarrow> m \<le> 0)
     | Some w \<Rightarrow> max_point_seq i (tables d) = Some (uint w) \<and> 0 < uint w"
proof -
  show "tables d1 = tables d"
    using keepsD [OF keeps_point_reads(4) [where P = "\<lambda>t. t = tables d"] refl assms(1)] .
  have fit: "0 < m \<Longrightarrow> uint (word_of_int m :: uint64) = m" if "max_point_seq i (tables d) = Some m" for m
    using max_point_seq_in(1) [OF that] assms(2) by (auto simp: seqs_fit_def unsigned_of_int take_bit_int_eq_self)
  from assms(1) have "mx = (case max_point_seq i (tables d) of None \<Rightarrow> None
      | Some n \<Rightarrow> if n \<le> 0 then None else Some (word_of_int n))"
    by (auto simp: GetMaxPointSeqForDevice_def bindE_eq_Inr split: if_splits dest!: query_tables)
  then show "case mx of
       None \<Rightarrow> (case max_point_seq i (tables d) of None \<Rightarrow> True | Some m \<Rightarrow> m \<le> 0)
     | Some w \<Rightarrow> max_point_seq i (tables d) = Some (uint w) \<and> 0 < uint w"
    using fit by (cases "max_point_seq i (tables d)") auto
qed

lemma GetVisitGenerationState_success:
  assumes "GetVisitGenerationState i d = (Inr st, d1)" and "seqs_fit (tables d)"
  shows "tables d1 = tables d" and
    "map_option (\<lambda>g. uint (VG_LastProcessedSeq g)) st = watermark i (tables d)"
proof -
  show "tables d1 = tables d"
    using keepsD [OF keeps_point_reads(6) [where P = "\<lambda>t. t = tables d"] refl assms(1)] .
  have fit: "uint (word_of_int (g_last_processed_seq r) :: uint64) = g_last_processed_seq r"
    if "find (\<lambda>r. g_device_id r = i) (visit_generation_state (tables d)) = Some r" "\<not> g_last_processed_seq r < 0" for r
  proof (rule uint_word_of_int_small)
    have "r \<in> set (visit_generation_state (tables d))" using that(1) by (auto simp: find_Some_iff)
    then show "g_last_processed_seq r < 2 ^ 63" using assms(2) by (simp add: seqs_fit_def)
  qed (use that(2) in simp)
  from assms(1) obtain row d2 where "query (\<lambda>t. Inr (find (\<lambda>r. g_device_id r = i) (visit_generation_state t))) d = (Inr row, d2)"
    and st: "(case row of None \<Rightarrow> returnE None
        | Some r \<Rightarrow> if g_last_processed_seq r < 0 then throwE ErrScanNull
            else bindE (fromE (parseDBTime (g_updated_at r))) (\<lambda>u.
              returnE (Some \<lparr>VG_DeviceID = g_device_id r, VG_LastProcessedSeq = word_of_int (g_last_processed_seq r),
                             VG_UpdatedAt = u\<rparr>))) d2 = (Inr st, d1)"
    by (auto simp: GetVisitGenerationState_def bindE_eq_Inr split: if_splits)
  then have row: "row = find (\<lambda>r. g_device_id r = i) (visit_generation_state (tables d))"
    by (auto dest!: query_tables)
  show "map_option (\<lambda>g. uint (VG_LastProcessedSeq g)) st = watermark i (tables d)"
  proof (cases row)
    case None
    with st row show ?thesis by (simp add: watermark_def)
  next
    case (Some r)
    have "\<not> g_last_processed_seq r < 0" and "st = Some \<lparr>VG_DeviceID = g_device_id r,
        VG_LastProcessedSeq = word_of_int (g_last_processed_seq r), VG_UpdatedAt = VG_UpdatedAt (the st)\<rparr>"
      using st unfolding Some by (auto simp: bindE_eq_Inr split: if_splits)
    moreover have "find (\<lambda>r. g_device_id r = i) (visit_generation_state (tables d)) = Some r"
      using row Some by simp
    ultimately show ?thesis
      using fit [of r] by (metis (no_types, lifting) VisitGenerationState.select_convs(2) option.simps(9) watermark_def)
  qed
qed

lemma find_map_replaced:
  "key row = k \<Longrightarrow> k \<in> key ` set xs \<Longrightarrow>
   find (\<lambda>r. key r = k) (map (\<lambda>r. if key r = key row then row else r) xs) = Some row"
  by (induction xs) auto

lemma find_map_other:
  "key row \<noteq> j \<Longrightarrow>
   find (\<lambda>r. key r = j) (map (\<lambda>r. if key r = key row then row else r) xs) = find (\<lambda>r. key r = j) xs"
  by (induction xs) auto

lemma find_append: "find P (xs @ ys) = (case find P xs of None \<Rightarrow> find P ys | Some x \<Rightarrow> Some x)"
  by (induction xs) auto

lemma upsert_watermark:
  assumes "upsert_gen_state row fk now t = Inr (x, t')"
  shows "watermark (g_device_id row) t' = Some (g_last_processed_seq row)"
    and "j \<noteq> g_device_id row \<Longrightarrow> watermark j t' = watermark j t"
    and "\<exists>gs. t' = t\<lparr>visit_generation_state := gs\<rparr> \<and> set gs \<subseteq> insert row (set (visit_generation_state t))"
proof -
  let ?gs = "visit_generation_state t" and ?k = "g_device_id row"
  let ?new = "if ?k \<in> g_device_id ` set ?gs then map (\<lambda>r. if g_device_id r = ?k then row else r) ?gs else ?gs @ [row]"
  have t': "t' = t\<lparr>visit_generation_state := ?new\<rparr>"
    using assms by (auto simp: upsert_gen_state_def split: if_splits)
  have none: "find (\<lambda>r. g_device_id r = ?k) ?gs = None" if "?k \<notin> g_device_id ` set ?gs"
    using that unfolding find_None_iff by (metis imageI)
  show "watermark ?k t' = Some (g_last_processed_seq row)"
    unfolding t' watermark_def using none find_map_replaced [of g_device_id row ?k ?gs] by (simp add: find_append)
  show "watermark j t' = watermark j t" if "j \<noteq> ?k"
    unfolding t' watermark_def using that find_map_other [of g_device_id row j ?gs]
    by (auto simp: find_append split: option.splits)
  show "\<exists>gs. t' = t\<lparr>visit_generation_state := gs\<rparr> \<and> set gs \<subseteq> insert row (set ?gs)"
    unfolding t' by (intro exI [of _ ?new] conjI refl) auto
qed

lemma Upsert_success:
  assumes "UpsertVisitGenerationState i w d = (Inr x, d')"
  shows "watermark i (tables d') = Some (uint w)" and "uint w < 2 ^ 63"
    and "\<And>j. j \<noteq> i \<Longrightarrow> watermark j (tables d') = watermark j (tables d)"
    and "\<exists>gs. tables d' = (tables d)\<lparr>visit_generation_state := gs\<rparr> \<and>
      (\<forall>g \<in> set gs. g \<in> set (visit_generation_state (tables d)) \<or> g_last_processed_seq g = uint w)"
proof -
  from assms obtain now d1 fk n where 1: "time_Now d = (Inr now, d1)" and w: "uint w < 2 ^ 63"
    and u: "upsert_gen_state \<lparr>g_device_id = i, g_last_processed_seq = uint w, g_updated_at = fmt_RFC3339Nano now\<rparr>
      fk n (tables d1) = Inr (x, tables d')"
    by (auto simp: UpsertVisitGenerationState_def bindE_eq_Inr split: if_splits dest!: exec_tables)
  have t: "tables d1 = tables d" by (rule time_Now_tables [OF 1])
  note up = upsert_watermark [OF u, unfolded t, simplified]
  show "watermark i (tables d') = Some (uint w)" by (rule up(1))
  show "uint w < 2 ^ 63" by (rule w)
  show "watermark j (tables d') = watermark j (tables d)" if "j \<noteq> i" for j by (rule up(2) [OF that])
  show "\<exists>gs. tables d' = (tables d)\<lparr>visit_generation_state := gs\<rparr> \<and>
      (\<forall>g \<in> set gs. g \<in> set (visit_generation_state (tables d)) \<or> g_last_processed_seq g = uint w)"
    using up(3) by (auto simp: subset_iff) (metis gen_state_row.select_convs(2))
qed

lemma Upsert_failure: "UpsertVisitGenerationState i w d = (Inl e, d') \<Longrightarrow> tables d' = tables d"
  by (auto simp: UpsertVisitGenerationState_def bindE_def time_Now_def fromE_def throwE_def
      split: if_splits sum.splits prod.splits dest!: exec_error)

lemma scheduler_reads:
  "reads (GetMaxPointSeqForDevice i)" "reads (GetVisitGenerationState i)" "reads (lookbackStart lb i st)"
  "reads (GetPointTimestampForDeviceSeq i w)"
  unfolding lookbackStart_def by (intro readsI keeps_intros)+

lemma GetPointTimestamp_success:
  assumes "GetPointTimestampForDeviceSeq i w d = (Inr ts, d1)" and "w \<noteq> 0"
  shows "case find (\<lambda>r. rp_device_id r = i \<and> rp_seq r = uint w) (raw_points (tables d)) of
      None \<Rightarrow> ts = None
    | Some r \<Rightarrow> \<exists>u. parseDBTime (rp_timestamp_utc r) = Inr u \<and> ts = Some u"
  using assms
  by (auto simp: GetPointTimestampForDeviceSeq_def bindE_eq_Inr split: if_splits option.splits dest!: query_tables)

text \<open>The lower end of the window: nothing on the first run, else some time before the last point seen.\<close>

definition lookback_bound :: "duration \<Rightarrow> int \<Rightarrow> tables \<Rightarrow> gotime option \<Rightarrow> bool" where
  "lookback_bound lb i t a \<longleftrightarrow>
     (case watermark i t of
        None \<Rightarrow> a = None
      | Some w \<Rightarrow>
          if w = 0 then a = None
          else case find (\<lambda>r. rp_device_id r = i \<and> rp_seq r = w) (raw_points t) of
                 None \<Rightarrow> a = None
               | Some r \<Rightarrow> \<exists>u. parseDBTime (rp_timestamp_utc r) = Inr u \<and> a = Some (u - lb))"

lemma lookbackStart_success:
  assumes "lookbackStart lb i st d = (Inr a, d1)"
    and "map_option (\<lambda>g. uint (VG_LastProcessedSeq g)) st = watermark i (tables d)"
  shows "lookback_bound lb i (tables d) a"
proof (cases st)
  case None
  with assms show ?thesis by (simp add: lookbackStart_def lookback_bound_def flip: assms(2))
next
  case (Some g)
  let ?w = "VG_LastProcessedSeq g"
  have w: "watermark i (tables d) = Some (uint ?w)" using Some by (simp flip: assms(2))
  show ?thesis
  proof (cases "?w = 0")
    case True
    with assms(1) Some w show ?thesis by (simp add: lookbackStart_def lookback_bound_def)
  next
    case False
    then have "0 < ?w" by (simp add: word_gt_0)
    with assms(1) Some obtain ts d2 where g: "GetPointTimestampForDeviceSeq i ?w d = (Inr ts, d2)"
      and a: "a = map_option (\<lambda>t. t - lb) ts"
      by (auto simp: lookbackStart_def bindE_eq_Inr)
    have "uint ?w \<noteq> 0" using False by (simp add: uint_0_iff)
    with GetPointTimestamp_success [OF g False] w a show ?thesis
      by (auto simp: lookback_bound_def split: option.splits)
  qed
qed

text \<open>No point of the device lies above its watermark.\<close>

definition settled :: "int \<Rightarrow> tables \<Rightarrow> bool" where
  "settled i t \<longleftrightarrow>
     i \<le> 0 \<or> (case max_point_seq i t of None \<Rightarrow> True
             | Some m \<Rightarrow> m \<le> 0 \<or> (\<exists>w. watermark i t = Some w \<and> m \<le> w))"

text \<open>A run that fails after the visits are rewritten has not moved the watermark.\<close>

definition only_visits :: "tables \<Rightarrow> tables \<Rightarrow> bool" where
  "only_visits t t' \<longleftrightarrow> (\<exists>vs n. t' = t\<lparr>visits := vs, last_visit_id := n\<rparr>)"

definition device_rebuilt ::
  "VisitSchedulerConfig \<Rightarrow> int \<Rightarrow> int \<Rightarrow> tables \<Rightarrow> tables \<Rightarrow> bool" where
  "device_rebuilt cfg i created t t' \<longleftrightarrow>
     (\<exists>a ps new n gs.
        lookback_bound (VC_Lookback cfg) i t a \<and>
        mapE scanDetectionPoint (select_detection_points i a None t) = Inr ps \<and>
        t' = t\<lparr>visits := filter (\<lambda>v. \<not> in_window i a None v) (visits t) @ new, last_visit_id := n,
               visit_generation_state := gs\<rparr> \<and>
        map visit_columns new = map (visit_of_device i) (Detect (map detectPoint ps) (VC_DetectConfig cfg)) \<and>
        created = int (length new) \<and>
        max_point_seq i t = watermark i t' \<and> max_point_seq i t \<noteq> None \<and>
        (\<forall>j. j \<noteq> i \<longrightarrow> watermark j t' = watermark j t) \<and>
        (\<forall>g \<in> set gs. g \<in> set (visit_generation_state t) \<or> Some (g_last_processed_seq g) = max_point_seq i t))"

lemma watermark_visits [simp]:
  "watermark j (t\<lparr>visits := vs\<rparr>) = watermark j t" "watermark j (t\<lparr>last_visit_id := n\<rparr>) = watermark j t"
  by (simp_all add: watermark_def)

lemma max_point_seq_frame [simp]:
  "max_point_seq j (t\<lparr>visits := vs\<rparr>) = max_point_seq j t" "max_point_seq j (t\<lparr>last_visit_id := n\<rparr>) = max_point_seq j t"
  "max_point_seq j (t\<lparr>visit_generation_state := gs\<rparr>) = max_point_seq j t"
  by (simp_all add: max_point_seq_def)

lemma only_visits_refl [simp]: "only_visits t t"
  unfolding only_visits_def by (intro exI [of _ "visits t"] exI [of _ "last_visit_id t"]) simp

definition device_outcome ::
  "VisitSchedulerConfig \<Rightarrow> int \<Rightarrow> tables \<Rightarrow> int \<times> bool \<times> bool \<Rightarrow> tables \<Rightarrow> bool" where
  "device_outcome cfg i t out t' \<longleftrightarrow>
     (case out of (created, updated, skipped) \<Rightarrow>
        if skipped then t' = t \<and> settled i t
        else updated \<and> \<not> settled i t \<and> device_rebuilt cfg i created t t')"

definition device_failed :: "int \<Rightarrow> tables \<Rightarrow> tables \<Rightarrow> bool" where
  "device_failed i t t' \<longleftrightarrow> only_visits t t' \<and> (settled i t \<longrightarrow> t' = t)"

text \<open>What remains once it is known that the device has points above its watermark.\<close>

lemma rebuild_and_mark:
  assumes w: "max_point_seq i t = Some (uint w)" and t: "tables d = t"
    and st: "map_option (\<lambda>g. uint (VG_LastProcessedSeq g)) st = watermark i t" and ns: "\<not> settled i t"
  shows "yields (bindE (lookbackStart (VC_Lookback cfg) i st) (\<lambda>fromUTC.
      bindE (RebuildVisitsForDeviceRange i fromUTC None (VC_DetectConfig cfg)) (\<lambda>created.
      bindE (UpsertVisitGenerationState i w) (\<lambda>_. returnE (created, True, False)))))
    (device_failed i t) (device_outcome cfg i t) d"
proof (rule yields_bindE [where R = "\<lambda>a t'. t' = t \<and> lookback_bound (VC_Lookback cfg) i t a"])
  show "yields (lookbackStart (VC_Lookback cfg) i st) (device_failed i t)
      (\<lambda>a t'. t' = t \<and> lookback_bound (VC_Lookback cfg) i t a) d"
    using lookbackStart_success st t ns by (intro yields_reads scheduler_reads) (auto simp: device_failed_def)
  fix a and d1 :: dbstate assume a: "tables d1 = t \<and> lookback_bound (VC_Lookback cfg) i t a"
  let ?rebuilt = "\<lambda>created t1. \<exists>ps new n.
     mapE scanDetectionPoint (select_detection_points i a None t) = Inr ps \<and>
     t1 = t\<lparr>visits := filter (\<lambda>v. \<not> in_window i a None v) (visits t) @ new, last_visit_id := n\<rparr> \<and>
     map visit_columns new = map (visit_of_device i) (Detect (map detectPoint ps) (VC_DetectConfig cfg)) \<and>
     created = int (length new)"
  show "yields (bindE (RebuildVisitsForDeviceRange i a None (VC_DetectConfig cfg)) (\<lambda>created.
      bindE (UpsertVisitGenerationState i w) (\<lambda>_. returnE (created, True, False))))
      (device_failed i t) (device_outcome cfg i t) d1"
  proof (rule yields_bindE [where R = ?rebuilt])
    show "yields (RebuildVisitsForDeviceRange i a None (VC_DetectConfig cfg)) (device_failed i t) ?rebuilt d1"
    proof (rule yieldsI)
      have t1: "tables d1 = t" using a by simp
      show "device_failed i t (tables d2)"
        if "RebuildVisitsForDeviceRange i a None (VC_DetectConfig cfg) d1 = (Inl e, d2)" for e d2
        unfolding Rebuild_failure [OF that] t1 by (simp add: device_failed_def)
      show "?rebuilt created (tables d2)"
        if "RebuildVisitsForDeviceRange i a None (VC_DetectConfig cfg) d1 = (Inr created, d2)" for created d2
        using Rebuild_success [OF that, unfolded t1] .
    qed
    fix created and d2 :: dbstate assume "?rebuilt created (tables d2)"
    then obtain ps new n where ps: "mapE scanDetectionPoint (select_detection_points i a None t) = Inr ps"
      and t2: "tables d2 = t\<lparr>visits := filter (\<lambda>v. \<not> in_window i a None v) (visits t) @ new, last_visit_id := n\<rparr>"
      and new: "map visit_columns new = map (visit_of_device i) (Detect (map detectPoint ps) (VC_DetectConfig cfg))"
        "created = int (length new)"
      by blast
    show "yields (bindE (UpsertVisitGenerationState i w) (\<lambda>_. returnE (created, True, False)))
        (device_failed i t) (device_outcome cfg i t) d2"
    proof (rule yields_bindE [OF yieldsI])
      show "device_failed i t (tables d3)" if "UpsertVisitGenerationState i w d2 = (Inl e, d3)" for e d3
        using Upsert_failure [OF that] t2 ns unfolding device_failed_def only_visits_def by metis
      show "device_rebuilt cfg i created t (tables d3)" if u: "UpsertVisitGenerationState i w d2 = (Inr x, d3)" for x d3
      proof -
        note up = Upsert_success [OF u]
        obtain gs where t3: "tables d3 = (tables d2)\<lparr>visit_generation_state := gs\<rparr>"
          and gs: "\<forall>g \<in> set gs. g \<in> set (visit_generation_state (tables d2)) \<or> g_last_processed_seq g = uint w"
          using up(4) by blast
        show ?thesis
          unfolding device_rebuilt_def
        proof (intro exI conjI)
          show "tables d3 = t\<lparr>visits := filter (\<lambda>v. \<not> in_window i a None v) (visits t) @ new,
              last_visit_id := n, visit_generation_state := gs\<rparr>"
            unfolding t3 t2 by simp
          show "\<forall>j. j \<noteq> i \<longrightarrow> watermark j (tables d3) = watermark j t"
            using up(3) unfolding t2 by simp
          show "\<forall>g \<in> set gs. g \<in> set (visit_generation_state t) \<or> Some (g_last_processed_seq g) = max_point_seq i t"
            using gs w unfolding t2 by auto
        qed (use a ps new w up(1) in simp_all)
      qed
    qed (use ns in \<open>auto intro!: yields_returnE simp: device_outcome_def\<close>)
  qed
qed

lemma processDevice_yields:
  assumes fit: "seqs_fit (tables d)"
  shows "yields (processDevice cfg dev) (device_failed (Device_ID dev) (tables d)) (device_outcome cfg (Device_ID dev) (tables d)) d"
proof -
  let ?i = "Device_ID dev" and ?t = "tables d"
  let ?max = "\<lambda>mx t'. t' = ?t \<and> (case mx of
       None \<Rightarrow> (case max_point_seq ?i ?t of None \<Rightarrow> True | Some m \<Rightarrow> m \<le> 0)
     | Some w \<Rightarrow> max_point_seq ?i ?t = Some (uint w) \<and> 0 < uint w)"
  let ?mark = "\<lambda>st t'. t' = ?t \<and> map_option (\<lambda>g. uint (VG_LastProcessedSeq g)) st = watermark ?i ?t"
  have skip: "settled ?i ?t"
    if c: "case st of None \<Rightarrow> False | Some g \<Rightarrow> w \<le> VG_LastProcessedSeq g" and m: "?mark st t'"
      and x: "?max (Some w) t''" for st w t' t''
  proof -
    obtain g where "st = Some g" "w \<le> VG_LastProcessedSeq g" using c by (cases st) simp_all
    then have "watermark ?i ?t = Some (uint (VG_LastProcessedSeq g))" "uint w \<le> uint (VG_LastProcessedSeq g)"
      using m by (simp_all add: word_le_def)
    with x show ?thesis by (simp add: settled_def)
  qed
  have pending: "\<not> settled ?i ?t"
    if c: "\<not> (case st of None \<Rightarrow> False | Some g \<Rightarrow> w \<le> VG_LastProcessedSeq g)" and m: "?mark st t'"
      and x: "?max (Some w) t''" and i: "\<not> ?i \<le> 0" for st w t' t''
  proof -
    have "\<not> uint w \<le> v" if "watermark ?i ?t = Some v" for v
      using c m that by (cases st) (auto simp: word_le_def)
    with x i show ?thesis by (auto simp: settled_def)
  qed
  have max: "yields (GetMaxPointSeqForDevice ?i) (device_failed ?i ?t) ?max d"
    using GetMaxPointSeq_success(2) [OF _ fit] by (intro yields_reads scheduler_reads) (auto simp: device_failed_def)
  have mark: "yields (GetVisitGenerationState ?i) (device_failed ?i ?t) ?mark d1" if "tables d1 = ?t" for d1
    using GetVisitGenerationState_success(2) fit that by (intro yields_reads scheduler_reads) (auto simp: device_failed_def)
  show ?thesis
    unfolding processDevice_def Let_def
  proof (intro yields_if yields_bindE [OF max] yields_option)
    show "yields (returnE (0, False, True)) (device_failed ?i ?t) (device_outcome cfg ?i ?t) d" if "?i \<le> 0"
      using that by (simp add: yields_returnE device_outcome_def settled_def)
    show "yields (returnE (0, False, True)) (device_failed ?i ?t) (device_outcome cfg ?i ?t) d1"
      if "?max mx (tables d1)" "mx = None" for mx d1
      using that by (auto intro!: yields_returnE simp: device_outcome_def settled_def split: option.splits)
    fix mx and d1 :: dbstate and w :: uint64 assume pos: "\<not> ?i \<le> 0" and mx: "?max mx (tables d1)" "mx = Some w"
    then have t1: "tables d1 = ?t" by simp
    show "yields (bindE (GetVisitGenerationState ?i) (\<lambda>state.
        if case state of None \<Rightarrow> False | Some g \<Rightarrow> w \<le> VG_LastProcessedSeq g then returnE (0, False, True)
        else bindE (lookbackStart (VC_Lookback cfg) ?i state) (\<lambda>fromUTC.
             bindE (RebuildVisitsForDeviceRange ?i fromUTC None (VC_DetectConfig cfg)) (\<lambda>created.
             bindE (UpsertVisitGenerationState ?i w) (\<lambda>_. returnE (created, True, False))))))
        (device_failed ?i ?t) (device_outcome cfg ?i ?t) d1"
    proof (intro yields_bindE [OF mark [OF t1]] yields_if)
      fix st :: "VisitGenerationState option" and d2 :: dbstate assume st: "?mark st (tables d2)"
      show "yields (returnE (0, False, True)) (device_failed ?i ?t) (device_outcome cfg ?i ?t) d2"
        if "case st of None \<Rightarrow> False | Some g \<Rightarrow> w \<le> VG_LastProcessedSeq g"
        using skip [OF that st] mx st by (auto intro!: yields_returnE simp: device_outcome_def)
      show "yields (bindE (lookbackStart (VC_Lookback cfg) ?i st) (\<lambda>fromUTC.
             bindE (RebuildVisitsForDeviceRange ?i fromUTC None (VC_DetectConfig cfg)) (\<lambda>created.
             bindE (UpsertVisitGenerationState ?i w) (\<lambda>_. returnE (created, True, False)))))
          (device_failed ?i ?t) (device_outcome cfg ?i ?t) d2"
        if "\<not> (case st of None \<Rightarrow> False | Some g \<Rightarrow> w \<le> VG_LastProcessedSeq g)"
        using mx st pending [OF that st] pos by (intro rebuild_and_mark) auto
    qed
  qed
qed

lemma settled_idle:
  assumes "processDevice cfg dev d = (r, d')" and "seqs_fit (tables d)" and "settled (Device_ID dev) (tables d)"
  shows "tables d' = tables d" and "(case r of Inl e \<Rightarrow> True | Inr (created, updated, skipped) \<Rightarrow> skipped)"
  using yieldsD [OF processDevice_yields [OF assms(2), of cfg dev] assms(1)] assms(3)
  by (auto simp: device_failed_def device_outcome_def split: sum.splits if_splits)


section \<open>A whole run\<close>

lemma rebuilt_settled: "device_rebuilt cfg i n t t' \<Longrightarrow> settled i t'"
  by (auto simp: device_rebuilt_def settled_def split: option.splits)

lemma rebuilt_frame:
  assumes "device_rebuilt cfg i n t t'"
  shows "devices t' = devices t" and "raw_points t' = raw_points t"
    and "max_point_seq j t' = max_point_seq j t" and "j \<noteq> i \<Longrightarrow> settled j t' = settled j t"
    and "seqs_fit t \<Longrightarrow> seqs_fit t'"
proof -
  obtain vs n gs where t': "t' = t\<lparr>visits := vs, last_visit_id := n, visit_generation_state := gs\<rparr>"
    and gs: "\<forall>g \<in> set gs. g \<in> set (visit_generation_state t) \<or> Some (g_last_processed_seq g) = max_point_seq i t"
    and wm: "\<forall>j. j \<noteq> i \<longrightarrow> watermark j t' = watermark j t"
    using assms unfolding device_rebuilt_def by blast
  show "devices t' = devices t" "raw_points t' = raw_points t" and m: "max_point_seq j t' = max_point_seq j t" for j
    unfolding t' by simp_all
  show "settled j t' = settled j t" if "j \<noteq> i"
    by (simp only: settled_def wm [rule_format, OF that] m)
  show "seqs_fit t'" if fit: "seqs_fit t"
    unfolding seqs_fit_def
  proof (intro conjI ballI)
    show "rp_seq r < 2 ^ 63" if "r \<in> set (raw_points t')" for r
      using that fit unfolding t' by (simp add: seqs_fit_def)
    show "g_last_processed_seq g < 2 ^ 63" if "g \<in> set (visit_generation_state t')" for g
    proof (cases "g \<in> set (visit_generation_state t)")
      case False
      then have "max_point_seq i t = Some (g_last_processed_seq g)" using that gs unfolding t' by auto
      from max_point_seq_in(1) [OF this] fit show ?thesis by (auto simp: seqs_fit_def)
    qed (use fit in \<open>simp add: seqs_fit_def\<close>)
  qed
qed

lemma outcome_frame:
  assumes "device_outcome cfg i t out t'"
  shows "devices t' = devices t" and "settled i t'" and "settled j t \<Longrightarrow> settled j t'" and "seqs_fit t \<Longrightarrow> seqs_fit t'"
proof -
  obtain c u k where out: "out = (c, u, k)" by (cases out)
  consider "t' = t" "settled i t" | "device_rebuilt cfg i c t t'"
    using assms unfolding device_outcome_def out by (auto split: if_splits)
  then have "devices t' = devices t \<and> settled i t' \<and> (settled j t \<longrightarrow> settled j t') \<and> (seqs_fit t \<longrightarrow> seqs_fit t')"
  proof cases
    case 2
    with rebuilt_frame [OF 2] rebuilt_settled [OF 2] show ?thesis by (cases "j = i") auto
  qed simp
  then show "devices t' = devices t" and "settled i t'" and "settled j t \<Longrightarrow> settled j t'"
    and "seqs_fit t \<Longrightarrow> seqs_fit t'"
    by blast+
qed

lemma countDevice_errors: "RunErrors (countDevice r res) = RunErrors res + (case r of Inl e \<Rightarrow> 1 | Inr x \<Rightarrow> 0)"
  by (auto simp: countDevice_def Let_def split: sum.splits)

lemma processDevices_errors: "RunErrors res \<le> RunErrors (fst (processDevices cfg devs res d))"
proof (induction devs arbitrary: res d)
  case (Cons dev devs)
  obtain r d1 where "processDevice cfg dev d = (r, d1)" by fastforce
  with Cons.IH [of "countDevice r res" d1] show ?case
    by (simp add: countDevice_errors split: sum.splits)
qed simp

lemma processDevices_settles:
  "processDevices cfg devs res d = (res', d') \<Longrightarrow> RunErrors res' = RunErrors res \<Longrightarrow> seqs_fit (tables d) \<Longrightarrow>
   devices (tables d') = devices (tables d) \<and> seqs_fit (tables d') \<and>
   (\<forall>dev \<in> set devs. settled (Device_ID dev) (tables d')) \<and> (\<forall>j. settled j (tables d) \<longrightarrow> settled j (tables d'))"
proof (induction devs arbitrary: res d)
  case (Cons dev devs)
  obtain r d1 where r: "processDevice cfg dev d = (r, d1)" by fastforce
  with Cons.prems(1) have rest: "processDevices cfg devs (countDevice r res) d1 = (res', d')" by simp
  have "RunErrors (countDevice r res) \<le> RunErrors res'"
    using processDevices_errors [of "countDevice r res" cfg devs d1] rest by simp
  then obtain out where out: "r = Inr out" and e: "RunErrors (countDevice r res) = RunErrors res"
    using Cons.prems(2) by (cases r) (auto simp: countDevice_errors)
  have "device_outcome cfg (Device_ID dev) (tables d) out (tables d1)"
    using yieldsD [OF processDevice_yields [OF Cons.prems(3), of cfg dev] r] out by simp
  note f = outcome_frame [OF this]
  from Cons.IH [OF rest] e Cons.prems(2) f(1,2) f(3) f(4) [OF Cons.prems(3)]
  show ?case by simp
qed simp

lemma processDevices_idle:
  "processDevices cfg devs res d = (res', d') \<Longrightarrow> seqs_fit (tables d) \<Longrightarrow>
   \<forall>dev \<in> set devs. settled (Device_ID dev) (tables d) \<Longrightarrow>
   tables d' = tables d \<and> UpdatedDevices res' = UpdatedDevices res \<and> CreatedVisits res' = CreatedVisits res"
proof (induction devs arbitrary: res d)
  case (Cons dev devs)
  obtain r d1 where r: "processDevice cfg dev d = (r, d1)" by fastforce
  with Cons.prems(1) have rest: "processDevices cfg devs (countDevice r res) d1 = (res', d')" by simp
  note idle = settled_idle [OF r Cons.prems(2)]
  have s: "settled (Device_ID dev) (tables d)" using Cons.prems(3) by simp
  have "UpdatedDevices (countDevice r res) = UpdatedDevices res \<and> CreatedVisits (countDevice r res) = CreatedVisits res"
    using idle(2) [OF s] by (auto simp: countDevice_def Let_def split: sum.splits)
  with Cons.IH [OF rest] Cons.prems(2,3) idle(1) [OF s] show ?case by simp
qed simp

lemma watermarkStep_tables: "watermarkStep dev acc d = (r, d') \<Longrightarrow> tables d' = tables d"
proof -
  assume run: "watermarkStep dev acc d = (r, d')"
  obtain n a b c where acc: "acc = (n, a, b, c)" by (cases acc)
  obtain r1 d1 where 1: "GetVisitGenerationState (Device_ID dev) d = (r1, d1)" by fastforce
  have t1: "tables d1 = tables d" by (rule reads_tables [OF scheduler_reads(2) 1])
  show ?thesis
  proof (cases "d' = d1")
    case False
    obtain g where "r1 = Inr (Some g)" "VG_LastProcessedSeq g \<noteq> 0"
      using run 1 acc False by (auto simp: watermarkStep_def split: sum.splits option.splits if_splits)
    moreover obtain r2 d2 where 2: "GetPointTimestampForDeviceSeq (Device_ID dev) (VG_LastProcessedSeq g) d1 = (r2, d2)"
      by fastforce
    ultimately have "d' = d2"
      using run 1 acc by (auto simp: watermarkStep_def Let_def split: sum.splits option.splits)
    moreover have "tables d2 = tables d1"
      by (rule reads_tables [OF scheduler_reads(4) 2])
    ultimately show ?thesis using t1 by simp
  qed (simp add: t1)
qed

lemma watermarkLoop_tables: "watermarkLoop devs acc d = (r, d') \<Longrightarrow> tables d' = tables d"
  by (induction devs arbitrary: acc d) (auto split: prod.splits dest: watermarkStep_tables)

lemma updateWatermarkStatus_frame [simp]:
  "tables (vs_store (updateWatermarkStatus devs s)) = tables (vs_store s)"
  "vs_cfg (updateWatermarkStatus devs s) = vs_cfg s"
  "vs_running (updateWatermarkStatus devs s) = vs_running s"
  by (auto simp: updateWatermarkStatus_def time_Now_def split: prod.splits dest: watermarkLoop_tables)

lemma setRun_frame [simp]:
  "vs_store (setRunStart t s) = vs_store s" "vs_cfg (setRunStart t s) = vs_cfg s"
  "roundRobinStart (setRunStart t s) = roundRobinStart s"
  "vs_store (setRunFinish t res e s) = vs_store s" "vs_cfg (setRunFinish t res e s) = vs_cfg s"
  by (simp_all add: setRunStart_def setRunFinish_def Let_def)

lemma selectDeviceBatch_frame:
  "selectDeviceBatch ds s = (b, s') \<Longrightarrow> vs_store s' = vs_store s \<and> vs_cfg s' = vs_cfg s"
  by (auto simp: selectDeviceBatch_def Let_def split: if_splits)

text \<open>What \<^verbatim>\<open>ListDevices\<close> answers.\<close>

definition listing :: "tables \<Rightarrow> store_error + Device list" where
  "listing t = mapE scanDevice (sort_key d_id (devices t))"

lemma ListDevices_reads: "reads ListDevices"
  unfolding ListDevices_def by (intro readsI keeps_intros)

lemma ListDevices_listing: "ListDevices d = (Inr ds, d1) \<Longrightarrow> listing (tables d) = Inr ds"
  by (auto simp: ListDevices_def listing_def bindE_eq_Inr dest!: query_tables)

lemma vs_now_frame:
  "vs_now s = (t, s') \<Longrightarrow> tables (vs_store s') = tables (vs_store s) \<and> vs_cfg s' = vs_cfg s \<and>
     vs_running s' = vs_running s \<and> roundRobinStart s' = roundRobinStart s"
  by (auto simp: vs_now_def Let_def)

lemma runOnce_tables:
  assumes run: "runOnce s = ((res, err), s')" and idle: "\<not> vs_running s"
    and small: "\<forall>ds. listing (tables (vs_store s)) = Inr ds \<longrightarrow> int (length ds) \<le> VC_DeviceBatchSize (vs_cfg s)"
  shows "\<not> vs_running s' \<and> vs_cfg s' = vs_cfg s \<and>
    (res = zeroRunResult \<and> tables (vs_store s') = tables (vs_store s) \<and> err \<noteq> None \<or>
     err = None \<and> (\<exists>ds d d'. listing (tables (vs_store s)) = Inr ds \<and> tables d = tables (vs_store s) \<and>
        processDevices (vs_cfg s) (sortedUniqueDevicesByID ds) zeroRunResult d = (res, d') \<and>
        tables (vs_store s') = tables d'))"
proof -
  obtain t0 s0 where 0: "vs_now (s\<lparr>vs_running := True\<rparr>) = (t0, s0)" by fastforce
  define s1 where "s1 = setRunStart t0 s0"
  have s1: "tables (vs_store s1) = tables (vs_store s)" "vs_cfg s1 = vs_cfg s"
    using vs_now_frame [OF 0] by (simp_all add: s1_def)
  obtain r d1 where 1: "ListDevices (vs_store s1) = (r, d1)" by fastforce
  have d1: "tables d1 = tables (vs_store s)" using reads_tables [OF ListDevices_reads 1] s1 by simp
  show ?thesis
  proof (cases r)
    case (Inl e)
    obtain t s2 where 2: "vs_now (s1\<lparr>vs_store := d1\<rparr>) = (t, s2)" by fastforce
    have "res = zeroRunResult" "err = Some e" and s': "s' = (setRunFinish t zeroRunResult (Some e) s2)\<lparr>vs_running := False\<rparr>"
      using run idle 0 1 2 Inl by (auto simp: runOnce_def s1_def)
    with vs_now_frame [OF 2] d1 s1 show ?thesis by simp
  next
    case (Inr ds)
    have ds: "listing (tables (vs_store s)) = Inr ds" using ListDevices_listing [OF 1 [unfolded Inr]] s1 by simp
    let ?b = "sortedUniqueDevicesByID ds"
    have sel: "selectDeviceBatch ?b (s1\<lparr>vs_store := d1\<rparr>) = (?b, s1\<lparr>vs_store := d1\<rparr>)"
      using small ds length_sortedUnique [of ds] s1 by (intro selectDeviceBatch_small) simp
    obtain d2 where p: "processDevices (vs_cfg s) ?b zeroRunResult d1 = (res, d2)" and e: "err = None"
      and t: "tables (vs_store s') = tables d2" and run': "\<not> vs_running s'" and c: "vs_cfg s' = vs_cfg s"
    proof (cases "?b = []")
      case True
      obtain t s2 where 2: "vs_now (s1\<lparr>vs_store := d1\<rparr>) = (t, s2)" by fastforce
      have "res = zeroRunResult" "err = None" and s': "s' = (setRunFinish t zeroRunResult None s2)\<lparr>vs_running := False\<rparr>"
        using run idle 0 1 2 Inr sel True by (auto simp: runOnce_def s1_def)
      with that [of d1] vs_now_frame [OF 2] True s1 show thesis by simp
    next
      case False
      obtain res2 d2 where 2: "processDevices (vs_cfg s) ?b zeroRunResult d1 = (res2, d2)" by fastforce
      obtain t s3 where 3: "vs_now (s1\<lparr>vs_store := d2\<rparr>) = (t, s3)" by fastforce
      have "res = res2" "err = None"
        and s': "s' = (updateWatermarkStatus ?b (setRunFinish t res2 None s3))\<lparr>vs_running := False\<rparr>"
        using run idle 0 1 2 3 Inr sel False by (auto simp: runOnce_def s1_def)
      with that [of d2] 2 vs_now_frame [OF 3] s1 show thesis by simp
    qed
    then show ?thesis using ds d1 by blast
  qed
qed

text \<open>
  Claim C18. A run brings the visits up to date. When all devices fit into one batch and a run reports no
  error, then afterwards no device that is listed has a point above its watermark; and a further run
  changes nothing in the database, updates no device and creates no visit, whatever calls of the driver
  fail in it.
\<close>

theorem second_run_idle:
  assumes "runOnce s = ((res, None), s1)" and "RunErrors res = 0" and "\<not> vs_running s"
    and "seqs_fit (tables (vs_store s))"
    and "int (length (devices (tables (vs_store s)))) \<le> VC_DeviceBatchSize (vs_cfg s)"
  shows "(\<forall>ds. listing (tables (vs_store s1)) = Inr ds \<longrightarrow>
        (\<forall>dev \<in> set ds. settled (Device_ID dev) (tables (vs_store s1)))) \<and>
    (\<forall>res' err s2. runOnce s1 = ((res', err), s2) \<longrightarrow>
        tables (vs_store s2) = tables (vs_store s1) \<and> UpdatedDevices res' = 0 \<and> CreatedVisits res' = 0)"
proof -
  have len: "length ds = length (devices t)" if "listing t = Inr ds" for t ds
    using that by (auto simp: listing_def mapE_Inr dest!: list_all2_lengthD)
  have small: "\<forall>ds. listing (tables (vs_store s)) = Inr ds \<longrightarrow> int (length ds) \<le> VC_DeviceBatchSize (vs_cfg s)"
    using assms(5) len by simp
  note first = runOnce_tables [OF assms(1,3) small]
  then obtain ds d d' where ds: "listing (tables (vs_store s)) = Inr ds" and d: "tables d = tables (vs_store s)"
    and p: "processDevices (vs_cfg s) (sortedUniqueDevicesByID ds) zeroRunResult d = (res, d')"
    and s1: "tables (vs_store s1) = tables d'" "\<not> vs_running s1" "vs_cfg s1 = vs_cfg s"
    by blast
  have "RunErrors res = RunErrors zeroRunResult" using assms(2) by (simp add: zeroRunResult_def)
  note after = processDevices_settles [OF p this] 
  have dev: "devices (tables (vs_store s1)) = devices (tables (vs_store s))"
    and fit: "seqs_fit (tables (vs_store s1))"
    and set: "\<forall>dev \<in> set (sortedUniqueDevicesByID ds). settled (Device_ID dev) (tables (vs_store s1))"
    using after assms(4) d s1(1) by simp_all
  have list1: "listing (tables (vs_store s1)) = Inr ds" using ds dev by (simp add: listing_def)
  have all: "settled (Device_ID dev) (tables (vs_store s1))" if "dev \<in> set ds" for dev
  proof (cases "Device_ID dev \<le> 0")
    case False
    then have "Device_ID dev \<in> Device_ID ` set (sortedUniqueDevicesByID ds)"
      using that by (simp add: sortedUniqueDevicesByID_ids(3))
    with set show ?thesis by auto
  qed (simp add: settled_def)
  have "tables (vs_store s2) = tables (vs_store s1) \<and> UpdatedDevices res' = 0 \<and> CreatedVisits res' = 0"
    if run: "runOnce s1 = ((res', err), s2)" for res' err s2
  proof -
    have small1: "\<forall>es. listing (tables (vs_store s1)) = Inr es \<longrightarrow> int (length es) \<le> VC_DeviceBatchSize (vs_cfg s1)"
      using small ds list1 s1(3) by simp
    from conjunct2 [OF conjunct2 [OF runOnce_tables [OF run s1(2) small1]]] show ?thesis
    proof (elim disjE exE conjE)
      assume "res' = zeroRunResult" "tables (vs_store s2) = tables (vs_store s1)"
      then show ?thesis by (simp add: zeroRunResult_def)
    next
      fix es e e'
      assume es: "listing (tables (vs_store s1)) = Inr es" and e: "tables e = tables (vs_store s1)"
        and p': "processDevices (vs_cfg s1) (sortedUniqueDevicesByID es) zeroRunResult e = (res', e')"
        and e': "tables (vs_store s2) = tables e'"
      have "\<forall>dev \<in> set (sortedUniqueDevicesByID es). settled (Device_ID dev) (tables e)"
        using set es list1 e by simp
      from processDevices_idle [OF p' _ this] fit e e' show ?thesis by (simp add: zeroRunResult_def)
    qed
  qed
  note idle = this
  show ?thesis
  proof (intro conjI allI impI ballI)
    show "settled (Device_ID dev) (tables (vs_store s1))"
      if "listing (tables (vs_store s1)) = Inr es" "dev \<in> set es" for es dev
      using that list1 by (intro all) simp
  qed (use idle in blast)+
qed

section \<open>A healthy database\<close>

text \<open>Every stored text and number is one the scheduler can read.\<close>

definition readable :: "tables \<Rightarrow> bool" where
  "readable t \<longleftrightarrow> seqs_fit t \<and> (\<forall>r \<in> set (raw_points t). \<exists>p. scanPoint r = Inr p) \<and>
     (\<forall>g \<in> set (visit_generation_state t). 0 \<le> g_last_processed_seq g \<and> (\<exists>u. parseDBTime (g_updated_at g) = Inr u))"

lemma runs_reads: "reads m \<Longrightarrow> runs m P d \<Longrightarrow> runs m (\<lambda>x t. P x t \<and> t = tables d) d"
  unfolding runs_def using reads_tables by blast

lemma GetMaxPointSeq_runs:
  assumes "calm d" and "0 < i" and "seqs_fit (tables d)"
  shows "runs (GetMaxPointSeqForDevice i) (\<lambda>mx t. \<forall>w. mx = Some w \<longrightarrow> uint w < 2 ^ 63) d"
proof -
  have pos: "\<not> i \<le> 0" using assms(2) by simp
  let ?f = "\<lambda>raw. case raw of None \<Rightarrow> None | Some n \<Rightarrow> if n \<le> 0 then None else Some (word_of_int n :: uint64)"
  have small: "uint w < 2 ^ 63" if f: "?f (max_point_seq i (tables d)) = Some w" for w
  proof -
    obtain n where n: "max_point_seq i (tables d) = Some n" "0 < n" "w = word_of_int n"
      using f by (auto split: option.splits if_splits)
    have "n < 2 ^ 63" using max_point_seq_in(1) [OF n(1)] assms(3) by (auto simp: seqs_fit_def)
    with n uint_word_of_int_small [of n] show ?thesis by simp
  qed
  show ?thesis
    unfolding GetMaxPointSeqForDevice_def if_not_P [OF pos]
    by (rule runs_bindE [where R = "\<lambda>raw t. raw = max_point_seq i (tables d)"])
      (use assms small in \<open>auto intro!: runs_query runs_returnE\<close>)
qed

lemma GetVisitGenerationState_runs:
  assumes "calm d" and "0 < i" and "readable (tables d)"
  shows "runs (GetVisitGenerationState i) (\<lambda>st t. \<forall>g. st = Some g \<longrightarrow> uint (VG_LastProcessedSeq g) < 2 ^ 63) d"
proof -
  have pos: "\<not> i \<le> 0" using assms(2) by simp
  let ?row = "find (\<lambda>r. g_device_id r = i) (visit_generation_state (tables d))"
  show ?thesis
    unfolding GetVisitGenerationState_def if_not_P [OF pos]
  proof (rule runs_bindE [where R = "\<lambda>row t. row = ?row"])
    show "runs (query (\<lambda>t. Inr (find (\<lambda>r. g_device_id r = i) (visit_generation_state t)))) (\<lambda>row t. row = ?row) d"
      by (rule runs_query [OF assms(1)]) simp_all
    fix row and d1 :: dbstate assume row: "row = ?row" and c: "calm d1"
    show "runs (case row of None \<Rightarrow> returnE None
        | Some r \<Rightarrow> if g_last_processed_seq r < 0 then throwE ErrScanNull
            else bindE (fromE (parseDBTime (g_updated_at r))) (\<lambda>u.
              returnE (Some \<lparr>VG_DeviceID = g_device_id r, VG_LastProcessedSeq = word_of_int (g_last_processed_seq r),
                             VG_UpdatedAt = u\<rparr>)))
        (\<lambda>st t. \<forall>g. st = Some g \<longrightarrow> uint (VG_LastProcessedSeq g) < 2 ^ 63) d1"
    proof (cases row)
      case None
      with c show ?thesis by (simp add: runs_returnE)
    next
      case (Some r)
      then have "r \<in> set (visit_generation_state (tables d))" using row by (auto simp: find_Some_iff)
      then obtain u where r: "0 \<le> g_last_processed_seq r" "g_last_processed_seq r < 2 ^ 63"
        "parseDBTime (g_updated_at r) = Inr u"
        using assms(3) unfolding readable_def seqs_fit_def by blast
      have neg: "\<not> g_last_processed_seq r < 0" using r(1) by simp
      show ?thesis
        unfolding Some option.case if_not_P [OF neg] r(3)
        by (rule runs_bindE [where R = "\<lambda>x t. True"])
          (use c uint_word_of_int_small [OF r(1,2)] r(2) in \<open>auto intro!: runs_fromE runs_returnE\<close>)
    qed
  qed
qed

lemma GetPointTimestamp_runs:
  assumes "calm d" and "0 < i" and "readable (tables d)" and "uint w < 2 ^ 63"
  shows "runs (GetPointTimestampForDeviceSeq i w) (\<lambda>_ _. True) d"
proof (cases "w = 0")
  case True
  then show ?thesis using assms by (simp add: GetPointTimestampForDeviceSeq_def runs_returnE)
next
  case False
  have pos: "\<not> i \<le> 0" using assms(2) by simp
  let ?row = "find (\<lambda>r. rp_device_id r = i \<and> rp_seq r = uint w) (raw_points (tables d))"
  have parse: "\<exists>u. parseDBTime (rp_timestamp_utc r) = Inr u" if "?row = Some r" for r
  proof -
    have "r \<in> set (raw_points (tables d))" using that by (auto simp: find_Some_iff)
    then obtain p where "scanPoint r = Inr p" using assms(3) unfolding readable_def by blast
    then show ?thesis by (auto simp: scanPoint_def split: if_splits sum.splits)
  qed
  have bind: "bindUint64 w = Inr (uint w)" using assms(4) by (simp add: bindUint64_def)
  show ?thesis
    unfolding GetPointTimestampForDeviceSeq_def if_not_P [OF pos] if_not_P [OF False] bind
  proof (rule runs_bindE [where R = "\<lambda>n t. n = uint w \<and> t = tables d"])
    show "runs (fromE (Inr (uint w))) (\<lambda>n t. n = uint w \<and> t = tables d) d"
      by (rule runs_fromE [OF assms(1)]) simp
    fix n and d1 :: dbstate assume n: "n = uint w \<and> tables d1 = tables d" and c: "calm d1"
    show "runs (bindE (query (\<lambda>t. Inr (find (\<lambda>r. rp_device_id r = i \<and> rp_seq r = n) (raw_points t)))) (\<lambda>row.
        case row of None \<Rightarrow> returnE None
        | Some r \<Rightarrow> bindE (fromE (parseDBTime (rp_timestamp_utc r))) (\<lambda>t. returnE (Some t)))) (\<lambda>_ _. True) d1"
    proof (rule runs_bindE [where R = "\<lambda>row t. row = ?row"])
      show "runs (query (\<lambda>t. Inr (find (\<lambda>r. rp_device_id r = i \<and> rp_seq r = n) (raw_points t)))) (\<lambda>row t. row = ?row) d1"
        by (rule runs_query [OF c]) (use n in simp_all)
      fix row and d2 :: dbstate assume row: "row = ?row" and c: "calm d2"
      show "runs (case row of None \<Rightarrow> returnE None
        | Some r \<Rightarrow> bindE (fromE (parseDBTime (rp_timestamp_utc r))) (\<lambda>t. returnE (Some t))) (\<lambda>_ _. True) d2"
      proof (cases row)
        case None
        with c show ?thesis by (simp add: runs_returnE)
      next
        case (Some r)
        then obtain u where u: "parseDBTime (rp_timestamp_utc r) = Inr u" using parse row by metis
        show ?thesis unfolding Some option.case u
          by (rule runs_bindE [where R = "\<lambda>x t. True"]) (use c in \<open>auto intro!: runs_fromE runs_returnE\<close>)
      qed
    qed
  qed
qed

lemma lookbackStart_runs:
  assumes "calm d" and "0 < i" and "readable (tables d)"
    and "\<forall>g. st = Some g \<longrightarrow> uint (VG_LastProcessedSeq g) < 2 ^ 63"
  shows "runs (lookbackStart lb i st) (\<lambda>_ _. True) d"
proof (cases "\<exists>g. st = Some g \<and> VG_LastProcessedSeq g > 0")
  case True
  then obtain g where g: "st = Some g" "VG_LastProcessedSeq g > 0" by blast
  have "runs (bindE (GetPointTimestampForDeviceSeq i (VG_LastProcessedSeq g))
      (\<lambda>ts. returnE (map_option (\<lambda>t. t - lb) ts))) (\<lambda>_ _. True) d"
    by (rule runs_bindE [OF GetPointTimestamp_runs [OF assms(1-3)]])
      (use assms(4) g in \<open>auto intro: runs_returnE\<close>)
  with g show ?thesis by (simp add: lookbackStart_def)
next
  case False
  then have "lookbackStart lb i st = returnE None"
    by (auto simp: lookbackStart_def split: option.splits)
  then show ?thesis using assms(1) by (simp add: runs_returnE)
qed

lemma Upsert_runs:
  assumes "calm d" and "0 < i" and "device_exists i (tables d)" and "uint w < 2 ^ 63"
  shows "runs (UpsertVisitGenerationState i w) (\<lambda>_ _. True) d"
proof -
  have pos: "\<not> i \<le> 0" using assms(2) by simp
  have bind: "bindUint64 w = Inr (uint w)" using assms(4) by (simp add: bindUint64_def)
  show ?thesis
    unfolding UpsertVisitGenerationState_def if_not_P [OF pos] bind
  proof (rule runs_bindE [where R = "\<lambda>_ t. device_exists i t"])
    show "runs time_Now (\<lambda>_ t. device_exists i t) d" using assms by (intro runs_time_Now)
    fix now and d1 :: dbstate assume dev: "device_exists i (tables d1)" and c: "calm d1"
    show "runs (bindE (fromE (Inr (uint w))) (\<lambda>seq. exec (upsert_gen_state
        \<lparr>g_device_id = i, g_last_processed_seq = seq, g_updated_at = fmt_RFC3339Nano now\<rparr>))) (\<lambda>_ _. True) d1"
    proof (rule runs_bindE [where R = "\<lambda>_ t. device_exists i t"])
      show "runs (fromE (Inr (uint w))) (\<lambda>_ t. device_exists i t) d1" using dev c by (intro runs_fromE)
      show "runs (exec (upsert_gen_state
        \<lparr>g_device_id = i, g_last_processed_seq = seq, g_updated_at = fmt_RFC3339Nano now\<rparr>)) (\<lambda>_ _. True) d2"
        if "device_exists i (tables d2)" "calm d2" for seq and d2 :: dbstate
        by (rule runs_exec [OF that(2)]) (use that(1) in \<open>simp add: upsert_gen_state_def\<close>)
    qed
  qed
qed

lemma scanDetectionPoint_total: "readable t \<Longrightarrow> \<exists>ps. mapE scanDetectionPoint (select_detection_points i a b t) = Inr ps"
proof -
  assume r: "readable t"
  have "\<exists>p. scanDetectionPoint x = Inr p" if "x \<in> set (select_detection_points i a b t)" for x
  proof -
    have "x \<in> set (raw_points t)" using that by (simp add: select_detection_points_def by_time_def)
    with r show ?thesis unfolding readable_def scanDetectionPoint_def by force
  qed
  then have "\<not> (\<exists>e. mapE scanDetectionPoint (select_detection_points i a b t) = Inl e)"
    unfolding mapE_fails by force
  then show ?thesis by (metis sum.exhaust)
qed

lemma Rebuild_devices:
  "RebuildVisitsForDeviceRange i a b cfg d = (Inr n, d') \<Longrightarrow> device_exists i (tables d) \<Longrightarrow> device_exists i (tables d')"
  using Rebuild_success by (fastforce simp: device_exists_def)

text \<open>A device that exists is processed without an error when no call of the driver fails.\<close>

lemma processDevice_runs:
  assumes "calm d" and "0 < Device_ID dev" and "readable (tables d)" and "device_exists (Device_ID dev) (tables d)"
  shows "runs (processDevice cfg dev) (\<lambda>_ _. True) d"
proof -
  let ?i = "Device_ID dev" and ?t = "tables d"
  have pos: "\<not> ?i \<le> 0" using assms(2) by simp
  have fit: "seqs_fit ?t" using assms(3) by (simp add: readable_def)
  have mark: "runs (bindE (lookbackStart (VC_Lookback cfg) ?i st) (\<lambda>fromUTC.
      bindE (RebuildVisitsForDeviceRange ?i fromUTC None (VC_DetectConfig cfg)) (\<lambda>created.
      bindE (UpsertVisitGenerationState ?i w) (\<lambda>_. returnE (created, True, False))))) (\<lambda>_ _. True) d2"
    if d2: "tables d2 = ?t" "calm d2" and st: "\<forall>g. st = Some g \<longrightarrow> uint (VG_LastProcessedSeq g) < 2 ^ 63"
      and w: "uint w < 2 ^ 63" for d2 and st :: "VisitGenerationState option" and w
  proof (rule runs_bindE [OF runs_reads [OF scheduler_reads(3) lookbackStart_runs [OF d2(2) assms(2) _ st]]])
    show "readable (tables d2)" using assms(3) d2 by simp
    fix a and d3 :: dbstate assume "True \<and> tables d3 = tables d2" and c: "calm d3"
    then have t3: "tables d3 = ?t" using d2 by simp
    obtain ps where ps: "mapE scanDetectionPoint (select_detection_points ?i a None (tables d3)) = Inr ps"
      using scanDetectionPoint_total assms(3) t3 by metis
    have "runs (RebuildVisitsForDeviceRange ?i a None (VC_DetectConfig cfg)) (\<lambda>_ t. device_exists ?i t) d3"
      using Rebuild_runs [OF c assms(2) _ ps, of "VC_DetectConfig cfg"] assms(4) t3 Rebuild_devices
      unfolding runs_def by metis
    then show "runs (bindE (RebuildVisitsForDeviceRange ?i a None (VC_DetectConfig cfg)) (\<lambda>created.
        bindE (UpsertVisitGenerationState ?i w) (\<lambda>_. returnE (created, True, False)))) (\<lambda>_ _. True) d3"
    proof (rule runs_bindE)
      fix n and d4 :: dbstate assume "device_exists ?i (tables d4)" and "calm d4"
      then show "runs (bindE (UpsertVisitGenerationState ?i w) (\<lambda>_. returnE (n, True, False))) (\<lambda>_ _. True) d4"
        by (intro runs_bindE [OF Upsert_runs [OF _ assms(2) _ w]]) (auto intro: runs_returnE)
    qed
  qed
  show ?thesis
    unfolding processDevice_def Let_def if_not_P [OF pos]
  proof (rule runs_bindE [OF runs_reads [OF scheduler_reads(1) GetMaxPointSeq_runs [OF assms(1,2) fit]]])
    fix mx :: "uint64 option" and d1 :: dbstate assume mx: "(\<forall>w. mx = Some w \<longrightarrow> uint w < 2 ^ 63) \<and> tables d1 = ?t" and c: "calm d1"
    have r1: "readable (tables d1)" using mx assms(3) by simp
    show "runs (case mx of None \<Rightarrow> returnE (0, False, True) | Some w \<Rightarrow>
        bindE (GetVisitGenerationState ?i) (\<lambda>state.
        if case state of None \<Rightarrow> False | Some g \<Rightarrow> w \<le> VG_LastProcessedSeq g then returnE (0, False, True)
        else bindE (lookbackStart (VC_Lookback cfg) ?i state) (\<lambda>fromUTC.
             bindE (RebuildVisitsForDeviceRange ?i fromUTC None (VC_DetectConfig cfg)) (\<lambda>created.
             bindE (UpsertVisitGenerationState ?i w) (\<lambda>_. returnE (created, True, False)))))) (\<lambda>_ _. True) d1"
    proof (cases mx)
      case None
      with c show ?thesis by (simp add: runs_returnE)
    next
      case (Some w)
      show ?thesis unfolding Some option.case
      proof (rule runs_bindE [OF runs_reads [OF scheduler_reads(2) GetVisitGenerationState_runs [OF c assms(2) r1]]])
        fix st :: "VisitGenerationState option" and d2 :: dbstate
        assume st: "(\<forall>g. st = Some g \<longrightarrow> uint (VG_LastProcessedSeq g) < 2 ^ 63) \<and> tables d2 = tables d1" and c2: "calm d2"
        show "runs (if case st of None \<Rightarrow> False | Some g \<Rightarrow> w \<le> VG_LastProcessedSeq g then returnE (0, False, True)
          else bindE (lookbackStart (VC_Lookback cfg) ?i st) (\<lambda>fromUTC.
             bindE (RebuildVisitsForDeviceRange ?i fromUTC None (VC_DetectConfig cfg)) (\<lambda>created.
             bindE (UpsertVisitGenerationState ?i w) (\<lambda>_. returnE (created, True, False))))) (\<lambda>_ _. True) d2"
        proof (cases "case st of None \<Rightarrow> False | Some g \<Rightarrow> w \<le> VG_LastProcessedSeq g")
          case True
          with c2 show ?thesis by (simp add: runs_returnE)
        next
          case False
          have t2: "tables d2 = ?t" using st mx by simp
          have w: "uint w < 2 ^ 63" using mx Some by blast
          show ?thesis unfolding if_not_P [OF False] by (rule mark [OF t2 c2 conjunct1 [OF st] w])
        qed
      qed
    qed
  qed
qed

section \<open>Witnesses\<close>

definition watched_row :: device_row where
  "watched_row =
     \<lparr>d_id = 1, d_user_id = 1, d_name = ''phone'', d_source_type = ''owntracks'', d_api_key = ''k'',
      d_api_key_hash = Some ''h'', d_api_key_preview = Some ''p'', d_last_seen_at = None, d_last_seq_received = 0,
      d_created_at = fmt_RFC3339Nano second, d_updated_at = Some (fmt_RFC3339Nano second)\<rparr>"

definition watched_db :: dbstate where
  "watched_db = points_db\<lparr>tables := empty_tables\<lparr>devices := [watched_row], raw_points := [sample_row 1 1 (5 * second)]\<rparr>\<rparr>"

definition sample_scheduler :: VisitScheduler where
  "sample_scheduler = NewVisitScheduler watched_db
     \<lparr>VC_Enabled = True, VC_Interval = 0, VC_DeviceBatchSize = 2, VC_Lookback = 0,
      VC_DetectConfig = \<lparr>MinDwell = 0, MaxRadiusMeters = 0\<rparr>\<rparr>"

definition watched_device :: Device where
  "watched_device =
     \<lparr>Device_ID = 1, Device_UserID = 1, Device_Name = ''phone'', Device_SourceType = ''owntracks'',
      Device_APIKeyHash = ''h'', Device_APIKeyPreview = ''p'', Device_CreatedAt = second, Device_UpdatedAt = second,
      Device_LastSeenAt = None\<rparr>"

lemma watched_db_facts:
  "calm watched_db" "readable (tables watched_db)" "device_exists 1 (tables watched_db)" "\<not> settled 1 (tables watched_db)"
  "devices (tables watched_db) = [watched_row]"
  by (simp_all add: watched_db_def points_db_def calm_def readable_def seqs_fit_def sample_row_def scanPoint_def
      empty_tables_def valid_time_def device_exists_def watched_row_def settled_def max_point_seq_def watermark_def)

lemma watched_listing: "listing (tables watched_db) = Inr [watched_device]"
  by (simp add: listing_def watched_db_facts(5) watched_row_def scanDevice_def parseLastSeen_def watched_device_def
      valid_time_def)


lemma ListDevices_runs:
  assumes "calm d" and "listing (tables d) = Inr ds"
  shows "runs ListDevices (\<lambda>x t. x = ds \<and> t = tables d) d"
  unfolding ListDevices_def
proof (rule runs_bindE [where R = "\<lambda>rows t. rows = sort_key d_id (devices (tables d)) \<and> t = tables d"])
  show "runs (query (\<lambda>t. Inr (sort_key d_id (devices t))))
      (\<lambda>rows t. rows = sort_key d_id (devices (tables d)) \<and> t = tables d) d"
    by (rule runs_query [OF assms(1)]) simp_all
  fix rows and d1 :: dbstate
  assume rows: "rows = sort_key d_id (devices (tables d)) \<and> tables d1 = tables d" and c: "calm d1"
  have "mapE scanDevice rows = Inr ds" using assms(2) rows by (simp add: listing_def)
  with rows c show "runs (fromE (mapE scanDevice rows)) (\<lambda>x t. x = ds \<and> t = tables d) d1"
    by (simp add: runs_fromE)
qed

lemma runOnce_watched: "\<exists>res s1. runOnce sample_scheduler = ((res, None), s1) \<and> RunErrors res = 0"
proof -
  let ?cfg = "vs_cfg sample_scheduler"
  have idle: "\<not> vs_running sample_scheduler" and size: "VC_DeviceBatchSize ?cfg = 2"
    and st: "vs_store sample_scheduler = watched_db"
    by (simp_all add: sample_scheduler_def NewVisitScheduler_def Let_def)
  obtain t0 s0 where 0: "vs_now (sample_scheduler\<lparr>vs_running := True\<rparr>) = (t0, s0)" by fastforce
  let ?s1 = "setRunStart t0 s0"
  have s0: "vs_store s0 = watched_db\<lparr>dbticks := Suc (dbticks watched_db)\<rparr>" "vs_cfg s0 = ?cfg"
    using 0 st by (auto simp: vs_now_def Let_def)
  then have c0: "calm (vs_store s0)" "tables (vs_store s0) = tables watched_db"
    using watched_db_facts(1) by (simp_all add: calm_def)
  obtain d1 where 1: "ListDevices (vs_store ?s1) = (Inr [watched_device], d1)" and c1: "calm d1"
    "tables d1 = tables watched_db"
    using ListDevices_runs [OF c0(1), unfolded c0(2), OF watched_listing] by (auto simp: runs_def)
  have i: "Device_ID watched_device = 1" by (simp add: watched_device_def)
  have b: "sortedUniqueDevicesByID [watched_device] = [watched_device]"
    by (simp add: sortedUniqueDevicesByID_def i)
  have sel: "selectDeviceBatch [watched_device] (?s1\<lparr>vs_store := d1\<rparr>) = ([watched_device], ?s1\<lparr>vs_store := d1\<rparr>)"
    by (rule selectDeviceBatch_small) (simp add: s0(2) size)
  have "runs (processDevice ?cfg watched_device) (\<lambda>_ _. True) d1"
    using watched_db_facts c1 by (intro processDevice_runs) (simp_all add: i)
  then obtain out d2 where 2: "processDevice ?cfg watched_device d1 = (Inr out, d2)" by (auto simp: runs_def)
  let ?res = "countDevice (Inr out) zeroRunResult"
  obtain t s3 where 3: "vs_now (?s1\<lparr>vs_store := d2\<rparr>) = (t, s3)" by fastforce
  have "runOnce sample_scheduler = ((?res, None),
      (updateWatermarkStatus [watched_device] (setRunFinish t ?res None s3))\<lparr>vs_running := False\<rparr>)"
    using idle 0 1 2 3 b sel by (simp add: runOnce_def Let_def)
  moreover have "RunErrors ?res = 0" by (simp add: countDevice_errors zeroRunResult_def)
  ultimately show ?thesis by blast
qed

theorem second_run_idle_witness:
  "\<exists>res s1. runOnce sample_scheduler = ((res, None), s1) \<and>
     tables (vs_store (snd (runOnce s1))) = tables (vs_store s1)"
proof -
  obtain res s1 where run: "runOnce sample_scheduler = ((res, None), s1)" "RunErrors res = 0"
    using runOnce_watched by blast
  have "\<not> vs_running sample_scheduler" "seqs_fit (tables (vs_store sample_scheduler))"
    "int (length (devices (tables (vs_store sample_scheduler)))) \<le> VC_DeviceBatchSize (vs_cfg sample_scheduler)"
    using watched_db_facts(2,5)
    by (simp_all add: sample_scheduler_def NewVisitScheduler_def Let_def readable_def)
  from second_run_idle [OF run this]
  have "\<forall>res' err s2. runOnce s1 = ((res', err), s2) \<longrightarrow> tables (vs_store s2) = tables (vs_store s1)" by blast
  then show ?thesis using run(1) by (metis prod.collapse)
qed

theorem round_robin_fair_witness:
  "count_list (concat (batches 5 [watched_device, watched_device\<lparr>Device_ID := 2\<rparr>, watched_device\<lparr>Device_ID := 3\<rparr>]
      sample_scheduler)) watched_device \<le>
   count_list (concat (batches 5 [watched_device, watched_device\<lparr>Device_ID := 2\<rparr>, watched_device\<lparr>Device_ID := 3\<rparr>]
      sample_scheduler)) (watched_device\<lparr>Device_ID := 3\<rparr>) + 1"
proof -
  let ?ds = "[watched_device, watched_device\<lparr>Device_ID := 2\<rparr>, watched_device\<lparr>Device_ID := 3\<rparr>]"
  have "distinct ?ds" by (simp add: watched_device_def)
  moreover have "0 < VC_DeviceBatchSize (vs_cfg sample_scheduler)"
    by (simp add: sample_scheduler_def NewVisitScheduler_def Let_def)
  ultimately show ?thesis
    using round_robin_fair [of ?ds sample_scheduler watched_device "watched_device\<lparr>Device_ID := 3\<rparr>" 5] by simp
qed

end
