(* ===== verification/StoreHistory.thy ===== *)
theory StoreHistory
  imports StoreAccounts Scheduler
begin

text \<open>
  The store over its whole life: any sequence of calls of its operations, whatever they return and
  whatever calls of the driver fail, keeps the database consistent and never loses a stored point.
\<close>

section \<open>What a statement may do\<close>

text \<open>
  \<open>kept rps ks\<close>: the tables are consistent, still begin with the raw points \<open>rps\<close>, and still have the
  devices \<open>ks\<close> (row id, owner and name).
\<close>

definition kept :: "raw_point_row list \<Rightarrow> (int \<times> int \<times> string) set \<Rightarrow> tables \<Rightarrow> bool" where
  "kept rps ks t \<longleftrightarrow>
     db_inv t \<and> (\<exists>new. raw_points t = rps @ new) \<and> ks \<subseteq> device_key ` set (devices t)"

definition frame :: "tables \<Rightarrow> tables \<Rightarrow> bool" where
  "frame t t' \<longleftrightarrow> raw_points t' = raw_points t \<and> device_key ` set (devices t) \<subseteq> device_key ` set (devices t')"

lemma keeps_kept:
  assumes "\<And>fk now t x t'. stmt fk now t = Inr (x, t') \<Longrightarrow> db_inv t \<Longrightarrow> db_inv t'"
    and "\<And>fk now t x t'. stmt fk now t = Inr (x, t') \<Longrightarrow> frame t t'"
  shows "keeps (kept rps ks) (exec stmt)"
  by (rule keeps_exec) (use assms in \<open>fastforce simp: kept_def frame_def\<close>)

lemma statement_frames:
  "insert_default_user fk now t = Inr (u, t') \<Longrightarrow> frame t t'"
  "insert_user email nm hash adm upd fk now t = Inr (i, t') \<Longrightarrow> frame t t'"
  "insert_session row fk now t = Inr (u, t') \<Longrightarrow> frame t t'"
  "delete_session tok fk now t = Inr (u, t') \<Longrightarrow> frame t t'"
  "insert_device user nm src key h preview upd fk now t = Inr (i, t') \<Longrightarrow> frame t t'"
  "delete_visits dev a b fk now t = Inr (u, t') \<Longrightarrow> frame t t'"
  "insert_visit dev v fk now t = Inr (u, t') \<Longrightarrow> frame t t'"
  "upsert_gen_state g fk now t = Inr (u, t') \<Longrightarrow> frame t t'"
  "upsert_place pl fk now t = Inr (u, t') \<Longrightarrow> frame t t'"
  by (auto simp: frame_def insert_default_user_def insert_user_def insert_session_def delete_session_def
      insert_device_def delete_visits_def insert_visit_def upsert_gen_state_def upsert_place_def Let_def
      split: if_splits)

lemma update_key_frame:
  assumes "update_key sentinel h f i fk now t = Inr (n, t')" and "\<And>r. device_key (f r) = device_key r"
  shows "frame t t'"
proof -
  have "device_key ` set (map (\<lambda>r. if d_id r = i then f r else r) ds) = device_key ` set ds" for ds
  proof -
    have "device_key (if d_id r = i then f r else r) = device_key r" for r using assms(2) by simp
    then show ?thesis unfolding set_map image_image by simp
  qed
  with assms(1) show ?thesis
    by (auto simp: frame_def update_key_def update_devices_def Let_def split: if_splits)
qed

section \<open>What an operation may do\<close>

lemma kept_InsertSpoolBatch: "keeps (kept rps ks) (InsertSpoolBatch rs)"
  unfolding keeps_def
proof (intro allI impI)
  fix d r d' assume k: "kept rps ks (tables d)" and run: "InsertSpoolBatch rs d = (r, d')"
  show "kept rps ks (tables d')"
  proof (cases r)
    case (Inl e)
    with InsertSpoolBatch_failure run k show ?thesis by metis
  next
    case (Inr m)
    have "db_inv (tables d)" using k by (simp add: kept_def)
    from InsertSpoolBatch_success [OF run [unfolded Inr] this] k show ?thesis
      by (fastforce simp: kept_def grew_def devices_kept_def)
  qed
qed

lemma kept_CreateUser: "keeps (kept rps ks) (CreateUser params)"
  unfolding CreateUser_def Let_def
  by (intro keeps_intros keeps_kept) (erule insert_user_inv statement_frames(2); simp)+

lemma kept_CreateSession: "keeps (kept rps ks) (CreateSession user)"
  unfolding CreateSession_def Let_def generateSessionToken_def
  by (intro keeps_intros keeps_kept) (erule insert_session_inv statement_frames(3); simp?)+

lemma kept_DeleteSession: "keeps (kept rps ks) (DeleteSession token)"
  unfolding DeleteSession_def Let_def
  by (intro keeps_intros keeps_kept) (erule delete_session_inv statement_frames(4); simp?)+

lemma kept_GetSession: "keeps (kept rps ks) (GetSession token)"
proof -
  have "keeps (kept rps ks) (expireSession t)" for t
    unfolding keeps_def expireSession_def by (auto split: prod.splits dest: keepsD [OF kept_DeleteSession])
  note expire = this
  show ?thesis unfolding GetSession_def Let_def by (intro keeps_intros expire)
qed

lemma kept_CreateDevice: "keeps (kept rps ks) (CreateDevice params)"
  unfolding CreateDevice_def Let_def
  by (intro keeps_intros keeps_kept)
    (erule insert_default_user_inv insert_device_inv statement_frames(1,5); assumption?)+

lemma kept_update_key:
  assumes "key_setter a h f" and "\<And>r. device_key (f r) = device_key r"
  shows "keeps (kept rps ks) (exec (update_key a h f i))"
proof (rule keeps_kept)
  show "db_inv t'" if "update_key a h f i fk now t = Inr (x, t')" "db_inv t" for fk now t x t'
    using update_key_inv [OF that assms(1)] .
  show "frame t t'" if "update_key a h f i fk now t = Inr (x, t')" for fk now t x t'
    using update_key_frame [OF that assms(2)] .
qed

lemma kept_RotateDeviceAPIKey: "keeps (kept rps ks) (RotateDeviceAPIKey i k)"
  unfolding RotateDeviceAPIKey_def Let_def
  by (intro keeps_intros kept_update_key set_key_setter) (simp_all add: device_key_def set_key_def)

lemma kept_OpenSQLiteStore: "keeps (kept rps ks) OpenSQLiteStore"
proof -
  have "keeps (kept rps ks) (applyUpdates us)" for us
  proof (induction us)
    case (Cons u us)
    show ?case unfolding applyUpdates.simps
      by (intro keeps_intros kept_update_key set_key_setter Cons.IH) (simp_all add: device_key_def set_key_def)
  next
    case Nil
    show ?case unfolding applyUpdates.simps by (intro keeps_intros)
  qed
  note updates = this
  show ?thesis
    unfolding OpenSQLiteStore_def backfillDeviceAPIKeyHashes_def
    by (intro keeps_intros updates) (auto simp: keeps_def)
qed

lemma kept_Rebuild: "keeps (kept rps ks) (RebuildVisitsForDeviceRange dev a b cfg)"
proof -
  have "keeps (kept rps ks) (insertVisits i vs)" for i vs
  proof (induction vs)
    case (Cons v vs)
    have "keeps (kept rps ks) (exec (insert_visit i v))"
      by (rule keeps_kept) (erule insert_visit_inv statement_frames(7); assumption?)+
    note insert = this
    show ?case unfolding insertVisits.simps by (intro keeps_intros insert Cons.IH)
  next
    case Nil
    show ?case unfolding insertVisits.simps by (intro keeps_intros)
  qed
  note insert = this
  have "keeps (kept rps ks) (exec (delete_visits dev a b))"
    by (rule keeps_kept) (erule delete_visits_inv statement_frames(6); assumption?)+
  note delete = this
  show ?thesis
    unfolding RebuildVisitsForDeviceRange_def Let_def by (intro keeps_intros insert delete)
qed

lemma kept_upserts:
  "keeps (kept rps ks) (UpsertVisitGenerationState i n)" "keeps (kept rps ks) (UpsertVisitPlaceLabel a b c l)"
proof -
  have "keeps (kept rps ks) (exec (upsert_gen_state g))" for g
    by (rule keeps_kept) (erule upsert_gen_state_inv statement_frames(8); assumption?)+
  note gen = this
  show "keeps (kept rps ks) (UpsertVisitGenerationState i n)"
    unfolding UpsertVisitGenerationState_def by (intro keeps_intros gen)
  have "keeps (kept rps ks) (exec (upsert_place g))" for g
    by (rule keeps_kept) (erule upsert_place_inv statement_frames(9); assumption?)+
  note place = this
  show "keeps (kept rps ks) (UpsertVisitPlaceLabel a b c l)"
    unfolding UpsertVisitPlaceLabel_def Let_def by (intro keeps_intros place)
qed

section \<open>Histories\<close>

text \<open>
  One step: a call of an operation, or anything that leaves the tables alone (a read, another connection,
  a change of the streams of faults, times and random bytes).
\<close>

inductive store_step :: "dbstate \<Rightarrow> dbstate \<Rightarrow> bool" where
  insert_batch: "InsertSpoolBatch rs d = (r, d') \<Longrightarrow> store_step d d'"
| create_user: "CreateUser p d = (r, d') \<Longrightarrow> store_step d d'"
| create_session: "CreateSession user d = (r, d') \<Longrightarrow> store_step d d'"
| get_session: "GetSession token d = (r, d') \<Longrightarrow> store_step d d'"
| delete_session: "DeleteSession token d = (r, d') \<Longrightarrow> store_step d d'"
| create_device: "CreateDevice p d = (r, d') \<Longrightarrow> store_step d d'"
| rotate_key: "RotateDeviceAPIKey i k d = (r, d') \<Longrightarrow> store_step d d'"
| open_store: "OpenSQLiteStore d = (r, d') \<Longrightarrow> store_step d d'"
| rebuild_visits: "RebuildVisitsForDeviceRange i a b cfg d = (r, d') \<Longrightarrow> store_step d d'"
| upsert_watermark: "UpsertVisitGenerationState i w d = (r, d') \<Longrightarrow> store_step d d'"
| upsert_label: "UpsertVisitPlaceLabel a b c l d = (r, d') \<Longrightarrow> store_step d d'"
| untouched: "tables d' = tables d \<Longrightarrow> store_step d d'"

inductive store_reach :: "dbstate \<Rightarrow> dbstate \<Rightarrow> bool" for d0 where
  at_start: "store_reach d0 d0"
| later: "store_reach d0 d \<Longrightarrow> store_step d d' \<Longrightarrow> store_reach d0 d'"

lemma store_step_kept: "store_step d d' \<Longrightarrow> kept rps ks (tables d) \<Longrightarrow> kept rps ks (tables d')"
proof (induction rule: store_step.induct)
  case (untouched d' d)
  then show ?case by simp
qed (blast intro: keepsD [OF kept_InsertSpoolBatch] keepsD [OF kept_CreateUser] keepsD [OF kept_CreateSession]
      keepsD [OF kept_GetSession] keepsD [OF kept_DeleteSession] keepsD [OF kept_CreateDevice]
      keepsD [OF kept_RotateDeviceAPIKey] keepsD [OF kept_OpenSQLiteStore] keepsD [OF kept_Rebuild]
      keepsD [OF kept_upserts(1)] keepsD [OF kept_upserts(2)])+

text \<open>
  Claim C7. The database stays well-formed and points are never lost. Along any sequence of calls of
  the operations of the store, each with any result and any pattern of failing calls, the tables keep the
  schema's keys and unique indexes; every raw point belongs to a device of its own user and is projected
  into the points table; a device's last sequence number covers its points. And what was there stays: the
  raw points at the start are still the first ones, unchanged, and every device keeps its row id, its
  owner and its name.
\<close>

theorem store_history_wellformed:
  assumes "store_reach d0 d" and "db_inv (tables d0)"
  shows "db_inv (tables d) \<and> (\<exists>new. raw_points (tables d) = raw_points (tables d0) @ new) \<and>
    (\<forall>r \<in> set (devices (tables d0)). \<exists>r' \<in> set (devices (tables d)).
       d_id r' = d_id r \<and> d_user_id r' = d_user_id r \<and> d_name r' = d_name r)"
proof -
  let ?t = "tables d0"
  have "kept (raw_points ?t) (device_key ` set (devices ?t)) (tables d)"
    using assms
  proof (induction rule: store_reach.induct)
    case at_start
    then show ?case by (simp add: kept_def)
  next
    case (later d d')
    with store_step_kept show ?case by blast
  qed
  then have k: "db_inv (tables d)" "\<exists>new. raw_points (tables d) = raw_points ?t @ new"
    "device_key ` set (devices ?t) \<subseteq> device_key ` set (devices (tables d))"
    by (simp_all add: kept_def)
  have "\<exists>r' \<in> set (devices (tables d)). d_id r' = d_id r \<and> d_user_id r' = d_user_id r \<and> d_name r' = d_name r"
    if "r \<in> set (devices ?t)" for r
  proof -
    have "device_key r \<in> device_key ` set (devices (tables d))" using k(3) that by blast
    then show ?thesis by (fastforce simp: device_key_def)
  qed
  with k show ?thesis by blast
qed

theorem store_history_wellformed_witness:
  "\<exists>d. store_reach sample_db d \<and> raw_points (tables d) \<noteq> [] \<and> db_inv (tables d)"
proof -
  obtain d where run: "InsertSpoolBatch sample_batch sample_db = (Inr 3, d)"
    using sample_batch_result by (metis prod.collapse)
  have "store_reach sample_db d" by (rule store_reach.later [OF store_reach.at_start]) (rule store_step.insert_batch [OF run])
  moreover have "raw_points (tables d) \<noteq> []" using sample_batch_rows run by auto
  ultimately show ?thesis using store_history_wellformed [of sample_db d] sample_db_inv(1) by blast
qed

end
