(* ===== verification/RateLimit.thy ===== *)
theory RateLimit
  imports Prelude
begin

text \<open>
  \<^verbatim>\<open>FixedWindowLimiter\<close> of \<^verbatim>\<open>internal/api/rate_limit.go\<close>: a counter per key that restarts with the first
  request after its window has passed, and the clean-up of old counters. \<^verbatim>\<open>nowFn\<close> is the stream
  \<open>rl_clock\<close>, of which \<open>rl_ticks\<close> readings have been used; the Go map is an association list.
\<close>

record fixedWindowEntry =
  windowStart :: gotime
  win_count :: int

record FixedWindowLimiter =
  rl_limit :: int
  rl_window :: duration
  rl_entries :: "(string \<times> fixedWindowEntry) list"
  rl_clock :: "nat \<Rightarrow> gotime"
  rl_ticks :: nat

definition NewFixedWindowLimiter :: "(nat \<Rightarrow> gotime) \<Rightarrow> int \<Rightarrow> duration \<Rightarrow> FixedWindowLimiter" where
  "NewFixedWindowLimiter clk lmt win =
     \<lparr>rl_limit = lmt, rl_window = win, rl_entries = [], rl_clock = clk, rl_ticks = 0\<rparr>"

definition maybeCleanup :: "gotime \<Rightarrow> FixedWindowLimiter \<Rightarrow> FixedWindowLimiter" where
  "maybeCleanup now l =
     (if length (rl_entries l) < 2048 then l
      else l\<lparr>rl_entries :=
             filter (\<lambda>(k, e). \<not> time_Sub now (windowStart e) \<ge> wrap_int64 (rl_window l * 2)) (rl_entries l)\<rparr>)"

definition normalizedKey :: "string \<Rightarrow> string" where
  "normalizedKey key = (let k = trimSpace key in if k = [] then ''unknown'' else k)"

definition Allow :: "string \<Rightarrow> FixedWindowLimiter \<Rightarrow> (bool \<times> duration) \<times> FixedWindowLimiter" where
  "Allow key l =
     (if rl_limit l \<le> 0 \<or> rl_window l \<le> 0 then ((True, 0), l)
      else let k = normalizedKey key; now = rl_clock l (rl_ticks l);
               l1 = l\<lparr>rl_ticks := Suc (rl_ticks l)\<rparr>;
               fresh = ((True, 0), maybeCleanup now
                 (l1\<lparr>rl_entries := AList.update k \<lparr>windowStart = now, win_count = 1\<rparr> (rl_entries l1)\<rparr>))
           in case map_of (rl_entries l1) k of
                None \<Rightarrow> fresh
              | Some e \<Rightarrow>
                  if time_Sub now (windowStart e) \<ge> rl_window l then fresh
                  else if win_count e \<ge> rl_limit l then
                    (let retryAfter = rl_window l - time_Sub now (windowStart e) in
                     ((False, if retryAfter < 0 then 0 else retryAfter), l1))
                  else ((True, 0), l1\<lparr>rl_entries :=
                          AList.update k (e\<lparr>win_count := win_count e + 1\<rparr>) (rl_entries l1)\<rparr>))"

section \<open>Runs\<close>

text \<open>
  The requests of a run, each with its key; the result lists key, time and verdict. The time
  of a call is the reading it takes.
\<close>

fun allow_run :: "string list \<Rightarrow> FixedWindowLimiter \<Rightarrow> (string \<times> gotime \<times> bool) list \<times> FixedWindowLimiter" where
  "allow_run [] l = ([], l)"
| "allow_run (key # ks) l =
     (case Allow key l of ((ok, _), l1) \<Rightarrow>
      case allow_run ks l1 of (out, l2) \<Rightarrow>
        ((normalizedKey key, rl_clock l (rl_ticks l), ok) # out, l2))"

definition allowed_times :: "string \<Rightarrow> (string \<times> gotime \<times> bool) list \<Rightarrow> gotime list" where
  "allowed_times k out = map (\<lambda>(_, t, _). t) (filter (\<lambda>(k', _, ok). k' = k \<and> ok) out)"

section \<open>How many requests get through\<close>

definition in_span :: "gotime \<Rightarrow> gotime \<Rightarrow> gotime list \<Rightarrow> nat" where
  "in_span a b ts = length (filter (\<lambda>t. a \<le> t \<and> t < b) ts)"

lemma in_span_simps [simp]:
  "in_span a b [] = 0"
  "in_span a b (ts @ us) = in_span a b ts + in_span a b us"
  "in_span a b (t # ts) = (if a \<le> t \<and> t < b then Suc (in_span a b ts) else in_span a b ts)"
  by (simp_all add: in_span_def)

lemma in_span_mono: "a' \<le> a \<Longrightarrow> b \<le> b' \<Longrightarrow> in_span a b ts \<le> in_span a' b' ts"
  by (induction ts) auto

lemma in_span_split: "a \<le> m \<Longrightarrow> m \<le> b \<Longrightarrow> in_span a b ts = in_span a m ts + in_span m b ts"
  by (induction ts) auto

lemma in_span_zero: "\<forall>t \<in> set ts. t < a \<Longrightarrow> in_span a b ts = 0"
  by (induction ts) auto

text \<open>
  The counter of one key against the times \<open>ts\<close> it has let through so far, at time \<open>now\<close>: it
  counts the times since its window began, a span that ends inside the window sees at most
  \<open>L\<close> earlier ones, and no span of the window's length sees more than \<open>2 * L\<close>.
\<close>

definition key_inv :: "nat \<Rightarrow> duration \<Rightarrow> gotime \<Rightarrow> fixedWindowEntry option \<Rightarrow> gotime list \<Rightarrow> bool" where
  "key_inv L W now e ts \<longleftrightarrow>
     (\<forall>t \<in> set ts. t \<le> now) \<and> (\<forall>x. in_span x (x + W) ts \<le> 2 * L) \<and>
     (case e of
        None \<Rightarrow> \<forall>t \<in> set ts. t + W \<le> now
      | Some w \<Rightarrow>
          windowStart w \<le> now \<and> int (in_span (windowStart w) (now + 1) ts) = win_count w \<and>
          0 < win_count w \<and> win_count w \<le> int L \<and> (\<forall>t \<in> set ts. t < windowStart w + W) \<and>
          (\<forall>x. windowStart w - W < x \<longrightarrow> in_span x (windowStart w) ts \<le> L))"

lemma key_inv_later:
  assumes "key_inv L W now e ts" and "now \<le> now'"
  shows "key_inv L W now' e ts"
proof -
  have "in_span a (now' + 1) ts = in_span a (now + 1) ts" if "\<forall>t \<in> set ts. t \<le> now" for a
    using that assms(2) by (induction ts) auto
  with assms show ?thesis by (fastforce simp: key_inv_def split: option.splits)
qed

text \<open>A new window.\<close>

lemma key_inv_fresh:
  assumes "key_inv L W now e ts" and "now \<le> t" and "1 \<le> L" and "0 < W"
    and "e \<noteq> None \<Longrightarrow> windowStart (the e) + W \<le> t"
  shows "key_inv L W t (Some \<lparr>windowStart = t, win_count = 1\<rparr>) (ts @ [t])"
proof -
  have bound: "\<forall>s \<in> set ts. s \<le> now" and all: "\<forall>x. in_span x (x + W) ts \<le> 2 * L"
    using assms(1) by (simp_all add: key_inv_def)
  have before: "\<forall>s \<in> set ts. s < t"
    using assms bound by (cases e) (fastforce simp: key_inv_def)+
  have few: "in_span x t ts \<le> L" if "t - W < x" for x
  proof (cases e)
    case None
    then have "\<forall>s \<in> set ts. s < x" using assms(1,2) that by (fastforce simp: key_inv_def)
    then show ?thesis by (simp add: in_span_zero)
  next
    case (Some w)
    have "windowStart w < x" using assms(5) Some that by simp
    then have "in_span x t ts \<le> in_span (windowStart w) t ts" by (intro in_span_mono) auto
    also have "\<dots> \<le> in_span (windowStart w) (now + 1) ts"
      using bound by (induction ts) auto
    finally show ?thesis using assms(1) Some by (simp add: key_inv_def)
  qed
  have "in_span x (x + W) (ts @ [t]) \<le> 2 * L" for x
  proof (cases "x \<le> t \<and> t < x + W")
    case True
    then have "in_span x (x + W) ts = in_span x t ts + in_span t (x + W) ts" by (intro in_span_split) auto
    moreover have "in_span t (x + W) ts = 0" using before by (rule in_span_zero)
    ultimately show ?thesis using few [of x] True assms(3) by simp
  qed (use all in auto)
  moreover have "in_span t (t + 1) ts = 0" using before by (rule in_span_zero)
  moreover have "in_span x t (ts @ [t]) \<le> L" if "t - W < x" for x using few [OF that] by simp
  ultimately show ?thesis
    using assms(3,4) before by (auto simp: key_inv_def less_imp_le)
qed

text \<open>One more in the same window.\<close>

lemma key_inv_count:
  assumes "key_inv L W now (Some w) ts" and "now \<le> t" and "t < windowStart w + W"
    and "win_count w < int L"
  shows "key_inv L W t (Some (w\<lparr>win_count := win_count w + 1\<rparr>)) (ts @ [t])"
proof -
  have inv: "key_inv L W t (Some w) ts" using key_inv_later [OF assms(1,2)] .
  then have cur: "int (in_span (windowStart w) (t + 1) ts) = win_count w" and start: "windowStart w \<le> t"
    and old: "\<forall>x. windowStart w - W < x \<longrightarrow> in_span x (windowStart w) ts \<le> L"
    and all: "\<forall>x. in_span x (x + W) ts \<le> 2 * L" and bound: "\<forall>s \<in> set ts. s \<le> t"
    by (simp_all add: key_inv_def)
  have "in_span x (x + W) (ts @ [t]) \<le> 2 * L" for x
  proof (cases "x \<le> t \<and> t < x + W")
    case True
    have "in_span x (x + W) ts \<le> in_span (min x (windowStart w)) (x + W) ts" by (intro in_span_mono) auto
    also have "\<dots> = in_span (min x (windowStart w)) (windowStart w) ts + in_span (windowStart w) (x + W) ts"
      using True start by (intro in_span_split) auto
    also have "in_span (windowStart w) (x + W) ts \<le> in_span (windowStart w) (t + 1) ts"
      using bound by (induction ts) auto
    also have "in_span (min x (windowStart w)) (windowStart w) ts \<le> L"
      using old True start assms(3) by (cases "x \<le> windowStart w") (auto simp: min_def in_span_def)
    finally show ?thesis using cur assms(4) True by simp
  qed (use all in auto)
  then show ?thesis
    using inv assms(3,4) by (auto simp: key_inv_def)
qed


section \<open>The limiter keeps the invariant of every key\<close>

definition limiter_inv ::
  "nat \<Rightarrow> duration \<Rightarrow> gotime \<Rightarrow> FixedWindowLimiter \<Rightarrow> (string \<times> gotime \<times> bool) list \<Rightarrow> bool" where
  "limiter_inv L W now l out \<longleftrightarrow>
     rl_limit l = int L \<and> rl_window l = W \<and> distinct (map fst (rl_entries l)) \<and>
     (\<forall>k. key_inv L W now (map_of (rl_entries l) k) (allowed_times k out))"

lemma map_of_filter_values:
  "distinct (map fst xs) \<Longrightarrow>
   map_of (filter (\<lambda>(k, e). P e) xs) k =
     (case map_of xs k of None \<Rightarrow> None | Some e \<Rightarrow> if P e then Some e else None)"
  by (induction xs) (force split: option.splits simp: map_of_eq_None_iff image_iff)+

lemma time_Sub_ge: "min_int64 < d \<Longrightarrow> d \<le> max_int64 \<Longrightarrow> d \<le> time_Sub t u \<longleftrightarrow> d \<le> t - u"
  by (auto simp: time_Sub_def)

lemma key_inv_forget:
  assumes "key_inv L W now (Some w) ts" and "2 * W \<le> now - windowStart w" and "0 < W"
  shows "key_inv L W now None ts"
  using assms by (fastforce simp: key_inv_def)

lemma cleanup_inv:
  assumes "limiter_inv L W now l out" and "0 < W" and "2 * W \<le> max_int64"
  shows "limiter_inv L W now (maybeCleanup now l) out"
proof (cases "length (rl_entries l) < 2048")
  case False
  let ?P = "\<lambda>e. \<not> wrap_int64 (W * 2) \<le> time_Sub now (windowStart e)"
  have w: "wrap_int64 (W * 2) = 2 * W" using assms by (subst wrap_int64_id) (auto simp: min_int64_def)
  have sub: "\<not> ?P e \<longleftrightarrow> 2 * W \<le> now - windowStart e" for e
    using time_Sub_ge [of "2 * W" now "windowStart e"] assms w by (simp add: min_int64_def)
  have "key_inv L W now (map_of (filter (\<lambda>(k, e). ?P e) (rl_entries l)) k) (allowed_times k out)" for k
  proof -
    have inv: "key_inv L W now (map_of (rl_entries l) k) (allowed_times k out)"
      using assms(1) by (simp add: limiter_inv_def)
    have "distinct (map fst (rl_entries l))" using assms(1) by (simp add: limiter_inv_def)
    note M = map_of_filter_values [OF this, of ?P k]
    show ?thesis
    proof (cases "map_of (rl_entries l) k")
      case (Some e)
      then show ?thesis
        using M inv sub [of e] key_inv_forget [OF _ _ assms(2), of L now e "allowed_times k out"] by auto
    qed (use M inv in simp)
  qed
  with False assms(1) show ?thesis
    by (auto simp: limiter_inv_def maybeCleanup_def distinct_map_filter [of _ fst])
      (metis (no_types, lifting) distinct_map distinct_filter inj_on_subset filter_is_subset)
qed (use assms in \<open>simp add: maybeCleanup_def\<close>)

lemma allowed_times_snoc:
  "allowed_times k (out @ [(k', t, ok)]) = allowed_times k out @ (if k' = k \<and> ok then [t] else [])"
  by (simp add: allowed_times_def)

lemma Allow_inv:
  assumes inv: "limiter_inv L W now l out" and "1 \<le> L" "0 < W" "2 * W \<le> max_int64"
    and t: "t = rl_clock l (rl_ticks l)" "now \<le> t"
    and run: "Allow key l = ((ok, ra), l')"
  shows "limiter_inv L W t l' (out @ [(normalizedKey key, t, ok)])"
proof -
  let ?k = "normalizedKey key" and ?l1 = "l\<lparr>rl_ticks := Suc (rl_ticks l)\<rparr>"
  have L: "rl_limit l = int L" "rl_window l = W" "distinct (map fst (rl_entries l))"
    using inv by (simp_all add: limiter_inv_def)
  have later: "key_inv L W t (map_of (rl_entries l) k) (allowed_times k out)" for k
    using inv key_inv_later [OF _ t(2)] by (simp add: limiter_inv_def)
  have put: "limiter_inv L W t (?l1\<lparr>rl_entries := AList.update ?k e (rl_entries l)\<rparr>)
      (out @ [(?k, t, True)])" if "key_inv L W t (Some e) (allowed_times ?k out @ [t])" for e
    using that later L by (auto simp: limiter_inv_def allowed_times_snoc update_conv' distinct_update)
  have sub: "W \<le> time_Sub t s \<longleftrightarrow> W \<le> t - s" for s
    using assms(3,4) by (intro time_Sub_ge) (auto simp: min_int64_def)
  show ?thesis
  proof (cases "map_of (rl_entries l) ?k")
    case None
    have "key_inv L W t (Some \<lparr>windowStart = t, win_count = 1\<rparr>) (allowed_times ?k out @ [t])"
      using key_inv_fresh [OF later [of ?k], of t] assms(2,3) None by simp
    from cleanup_inv [OF put [OF this] assms(3,4)] run None L t(1) assms(2,3) show ?thesis
      by (auto simp: Allow_def Let_def)
  next
    case (Some e)
    consider "W \<le> t - windowStart e" | "t - windowStart e < W" "int L \<le> win_count e"
      | "t - windowStart e < W" "win_count e < int L" by linarith
    then show ?thesis
    proof cases
      case 1
      then have "key_inv L W t (Some \<lparr>windowStart = t, win_count = 1\<rparr>) (allowed_times ?k out @ [t])"
        using key_inv_fresh [OF later [of ?k], of t] assms(2,3) Some by simp
      from cleanup_inv [OF put [OF this] assms(3,4)] run Some L t(1) assms(2,3) 1 sub show ?thesis
        by (auto simp: Allow_def Let_def)
    next
      case 2
      with run Some L t(1) assms(2,3) sub [of "windowStart e"] have "l' = ?l1" "\<not> ok"
        by (auto simp: Allow_def Let_def)
      then show ?thesis using later L by (simp add: limiter_inv_def allowed_times_snoc)
    next
      case 3
      have "key_inv L W t (Some (e\<lparr>win_count := win_count e + 1\<rparr>)) (allowed_times ?k out @ [t])"
        using key_inv_count [OF later [of ?k, unfolded Some], of t] 3 by simp
      from put [OF this] run Some L t(1) assms(2,3) 3 sub [of "windowStart e"] show ?thesis
        by (auto simp: Allow_def Let_def)
    qed
  qed
qed

lemma Allow_clock: "Allow key l = (r, l') \<Longrightarrow> 0 < rl_limit l \<Longrightarrow> 0 < rl_window l \<Longrightarrow>
   rl_clock l' = rl_clock l \<and> rl_ticks l' = Suc (rl_ticks l)"
  by (auto simp: Allow_def Let_def maybeCleanup_def split: option.splits if_splits)

lemma allow_run_inv:
  assumes "limiter_inv L W now l out0" and "1 \<le> L" "0 < W" "2 * W \<le> max_int64"
    and "mono (rl_clock l)" and "now \<le> rl_clock l (rl_ticks l)" and "allow_run ks l = (out, l')"
  shows "\<exists>t. limiter_inv L W t l' (out0 @ out)"
  using assms
proof (induction ks arbitrary: now l out0 out)
  case (Cons key ks)
  obtain ok ra l1 where one: "Allow key l = ((ok, ra), l1)" by (metis surj_pair)
  let ?t = "rl_clock l (rl_ticks l)"
  have L: "0 < rl_limit l" "0 < rl_window l" using Cons.prems(1-3) by (simp_all add: limiter_inv_def)
  note C = Allow_clock [OF one L]
  note I = Allow_inv [OF Cons.prems(1-4) refl Cons.prems(6) one]
  obtain out1 where more: "allow_run ks l1 = (out1, l')" and out: "out = (normalizedKey key, ?t, ok) # out1"
    using Cons.prems(7) one by (auto split: prod.splits)
  have "?t \<le> rl_clock l1 (rl_ticks l1)" and "mono (rl_clock l1)"
    using C Cons.prems(5) by (simp_all add: monoD)
  from Cons.IH [OF I Cons.prems(2-4) this(2,1) more] show ?case by (simp add: out)
qed auto

section \<open>Property\<close>

text \<open>
  Claim C22. A fixed-window limiter lets at most twice its limit of requests with the same key through
  in any span of time as long as its window, whatever the other requests and the clean-ups in
  between are, as long as the clock does not run backwards.
\<close>

theorem rate_limit_bound:
  assumes "mono clk" and "0 < lmt" and "0 < W" and "2 * W \<le> max_int64"
    and "allow_run ks (NewFixedWindowLimiter clk lmt W) = (out, l)"
  shows "int (in_span x (x + W) (allowed_times k out)) \<le> 2 * lmt"
proof -
  let ?l = "NewFixedWindowLimiter clk lmt W" and ?L = "nat lmt"
  have start: "limiter_inv ?L W (clk 0) ?l []"
    using assms(2) by (simp add: limiter_inv_def NewFixedWindowLimiter_def key_inv_def allowed_times_def)
  have "1 \<le> ?L" using assms(2) by simp
  then obtain t where "limiter_inv ?L W t l out"
    using allow_run_inv [OF start _ assms(3,4) _ _ assms(5)] assms(1)
    by (auto simp: NewFixedWindowLimiter_def)
  then have "in_span x (x + W) (allowed_times k out) \<le> 2 * ?L"
    by (simp add: limiter_inv_def key_inv_def)
  then show ?thesis using assms(2) by linarith
qed

theorem rate_limit_bound_witness:
  "\<exists>out l. allow_run [''a'', ''a'', ''a''] (NewFixedWindowLimiter (\<lambda>n. int n) 1 10) = (out, l) \<and>
     int (in_span 0 10 (allowed_times ''a'' out)) \<le> 2"
proof -
  obtain out l where run: "allow_run [''a'', ''a'', ''a''] (NewFixedWindowLimiter (\<lambda>n. int n) 1 10) = (out, l)"
    by fastforce
  have "mono (\<lambda>n. int n)" by (simp add: mono_def)
  from rate_limit_bound [OF this _ _ _ run, of 0] run show ?thesis by (auto simp: max_int64_def)
qed

end
