(* ===== verification/Http.thy ===== *)
theory Http
  imports Pipeline StoreAccounts StoreVisits StoreDevices RateLimit Outcomes
begin

text \<open>
  Requests, responses and the guards of \<^verbatim>\<open>internal/api\<close>: device keys (\<^verbatim>\<open>auth.go\<close>), sessions
  (\<^verbatim>\<open>session_auth.go\<close>), CSRF tokens (\<^verbatim>\<open>csrf.go\<close>), cookies (\<^verbatim>\<open>cookie_security.go\<close>), rate limits
  (\<^verbatim>\<open>rate_limit.go\<close>), passwords (\<^verbatim>\<open>password.go\<close>), signing in and out (\<^verbatim>\<open>login.go\<close>).

  A handler is a function of the request and the state of the server. What \<^verbatim>\<open>net/http\<close> has parsed (header
  fields, query and form values, cookies, path values) is part of the request; the values a middleware
  puts into the context are its last two fields. \<^verbatim>\<open>encoding/json\<close> and \<^verbatim>\<open>bcrypt\<close> are arguments. A
  response is its status, its cookies, the redirect target and its body; the constant security headers are
  left out.
\<close>

section \<open>Requests and responses\<close>

record Request =
  rq_header :: "string \<Rightarrow> string"
  rq_cookies :: "(string \<times> string) list"
  rq_query :: "string \<Rightarrow> string"
  rq_form :: "string \<Rightarrow> string"
  rq_form_ok :: bool
  rq_path :: string
  rq_rawquery :: string
  rq_pathvalue :: "string \<Rightarrow> string"
  rq_remote :: string
  rq_tls :: bool
  rq_body :: "string option"
  rq_user :: "User option"
  rq_device :: "Device option"

record Cookie =
  ck_name :: string
  ck_value :: string
  ck_httponly :: bool
  ck_secure :: bool
  ck_expires :: "gotime option"
  ck_maxage :: int

text \<open>\<^verbatim>\<open>points.go\<close>, \<^verbatim>\<open>visits.go\<close>, \<^verbatim>\<open>devices.go\<close>, \<^verbatim>\<open>users.go\<close>: the bodies of the answers.\<close>

record recentPointResponse =
  pr_seq :: uint64
  pr_device_id :: int
  pr_source_type :: string
  pr_timestamp_utc :: string
  pr_lat :: float64
  pr_lon :: float64

record pointsPageResponse =
  pp_points :: "recentPointResponse list"
  pp_next_cursor :: "uint64 option"
  pp_sampled :: bool
  pp_sampled_from :: int

record generateVisitsResponse =
  gv_device_id :: int
  gv_from_utc :: string
  gv_to_utc :: string
  gv_created_visits :: int

record visitResponse =
  vr_id :: int
  vr_device_id :: int
  vr_device_name :: string
  vr_start_at :: string
  vr_end_at :: string
  vr_centroid_lat :: float64
  vr_centroid_lon :: float64
  vr_point_count :: int
  vr_place_label :: string

record devicePublicResponse =
  dr_id :: int
  dr_user_id :: int
  dr_name :: string
  dr_source_type :: string
  dr_api_key_preview :: string
  dr_created_at :: string
  dr_updated_at :: string
  dr_last_seen_at :: string

record userResponse =
  ur_id :: int
  ur_name :: string
  ur_email :: string
  ur_is_admin :: bool
  ur_created_at :: string
  ur_updated_at :: string

datatype password_error = ErrEmptyPassword | ErrPasswordTooShort | ErrBcrypt

datatype message =
    Msg string
  | MsgStore store_error
  | MsgOwnTracks owntracks_error
  | MsgOverland overland_error
  | MsgIngest ingest_error
  | MsgPassword password_error
  | MsgBodyRead

text \<open>The text of an export, in the pieces it is written in.\<close>

datatype chunk = Raw string | Feature RecentPoint | TrackPoint RecentPoint | EmptyGPX

datatype body =
    NoBody
  | ErrorBody message
  | LoginPage string string string string
  | IngestBody ingestSuccessResponse
  | RecentPointsBody "recentPointResponse list"
  | PointsPageBody pointsPageResponse
  | GenerateVisitsBody generateVisitsResponse
  | VisitsBody "visitResponse list"
  | DeviceSecretBody devicePublicResponse string
  | DeviceBody devicePublicResponse
  | DevicesBody "devicePublicResponse list"
  | UserBody userResponse
  | UsersBody "userResponse list"
  | ExportBody "chunk list" bool

record Response =
  rs_status :: int
  rs_cookies :: "Cookie list"
  rs_location :: "string option"
  rs_retry_after :: "int option"
  rs_body :: body

record app =
  ap_server :: server
  ap_login :: "FixedWindowLimiter option"
  ap_admin :: "FixedWindowLimiter option"

type_synonym handler = "Request \<Rightarrow> app \<Rightarrow> Response \<times> app"

definition ap_store :: "app \<Rightarrow> dbstate" where
  "ap_store a = store (world (ap_server a))"

definition set_store :: "dbstate \<Rightarrow> app \<Rightarrow> app" where
  "set_store d a = a\<lparr>ap_server := (ap_server a)\<lparr>world := (world (ap_server a))\<lparr>store := d\<rparr>\<rparr>\<rparr>"

text \<open>A call of a store method.\<close>

definition on_store :: "(dbstate, 'e, 'a) gomethod \<Rightarrow> app \<Rightarrow> ('e + 'a) \<times> app" where
  "on_store m a = (case m (ap_store a) of (r, d) \<Rightarrow> (r, set_store d a))"

lemma ap_store_set [simp]: "ap_store (set_store d a) = d" "ap_store (a\<lparr>ap_login := l\<rparr>) = ap_store a"
  "ap_store (a\<lparr>ap_admin := l\<rparr>) = ap_store a" "set_store d (set_store e a) = set_store d a"
  by (simp_all add: ap_store_def set_store_def)

definition writeJSON :: "int \<Rightarrow> body \<Rightarrow> Response" where
  "writeJSON code b =
     \<lparr>rs_status = code, rs_cookies = [], rs_location = None, rs_retry_after = None, rs_body = b\<rparr>"

definition writeJSONError :: "int \<Rightarrow> message \<Rightarrow> Response" where
  "writeJSONError code m = writeJSON code (ErrorBody m)"

text \<open>\<^verbatim>\<open>http.Redirect(w, r, url, StatusSeeOther)\<close>; what it does to a relative path is left out.\<close>

definition http_Redirect :: "string \<Rightarrow> Response" where
  "http_Redirect url = (writeJSON 303 NoBody)\<lparr>rs_location := Some url\<rparr>"

definition request_Cookie :: "Request \<Rightarrow> string \<Rightarrow> string option" where
  "request_Cookie r nm = map_of (rq_cookies r) nm"

section \<open>Library functions\<close>

text \<open>The position of the first and of the last occurrence of a byte.\<close>

definition index_byte :: "string \<Rightarrow> char \<Rightarrow> nat option" where
  "index_byte s c = (if c \<in> set s then Some (length (takeWhile (\<lambda>x. x \<noteq> c) s)) else None)"

definition last_index_byte :: "string \<Rightarrow> char \<Rightarrow> nat option" where
  "last_index_byte s c = map_option (\<lambda>k. length s - 1 - k) (index_byte (rev s) c)"

text \<open>\<^verbatim>\<open>net.SplitHostPort\<close>, the host only; \<^const>\<open>None\<close> is an error.\<close>

definition net_SplitHostPort :: "string \<Rightarrow> string option" where
  "net_SplitHostPort s =
     (case last_index_byte s (CHR '':'') of
        None \<Rightarrow> None
      | Some i \<Rightarrow>
          if hd s = CHR ''['' then
            (case index_byte s (CHR '']'') of
               None \<Rightarrow> None
             | Some e \<Rightarrow>
                 if e + 1 \<noteq> i then None
                 else if CHR ''['' \<in> set (drop 1 s) \<or> CHR '']'' \<in> set (drop (e + 1) s) then None
                 else Some (take (e - 1) (drop 1 s)))
          else
            let host = take i s in
            if CHR '':'' \<in> set host then None
            else if CHR ''['' \<in> set s \<or> CHR '']'' \<in> set s then None
            else Some host)"

definition hex_upper :: "nat \<Rightarrow> char" where
  "hex_upper n = (if n < 10 then char_of (48 + n) else char_of (55 + n))"

text \<open>\<^verbatim>\<open>url.QueryEscape\<close>.\<close>

definition url_unreserved :: "char \<Rightarrow> bool" where
  "url_unreserved c \<longleftrightarrow>
     (let n = (of_char c :: nat) in
      65 \<le> n \<and> n \<le> 90 \<or> 97 \<le> n \<and> n \<le> 122 \<or> 48 \<le> n \<and> n \<le> 57 \<or> c \<in> set ''-_.~'')"

definition url_QueryEscape :: "string \<Rightarrow> string" where
  "url_QueryEscape s =
     concat (map (\<lambda>c. if c = CHR '' '' then ''+''
                      else if url_unreserved c then [c]
                      else [CHR ''%'', hex_upper (of_char c div 16), hex_upper (of_char c mod 16)]) s)"

text \<open>\<^verbatim>\<open>html.EscapeString\<close>.\<close>

definition html_EscapeString :: "string \<Rightarrow> string" where
  "html_EscapeString s =
     concat (map (\<lambda>c. if c = CHR ''&'' then ''&amp;''
                      else if c = CHR 0x27 then ''&#39;''
                      else if c = CHR ''<'' then ''&lt;''
                      else if c = CHR ''>'' then ''&gt;''
                      else if c = CHR 0x22 then ''&#34;'' else [c]) s)"

definition strings_Contains :: "string \<Rightarrow> string \<Rightarrow> bool" where
  "strings_Contains s t \<longleftrightarrow> sublist t s"

section \<open>Device keys (auth.go)\<close>

definition extractAPIKey :: "Request \<Rightarrow> string" where
  "extractAPIKey r =
     (let apiKey = trimSpace (rq_header r ''X-API-Key'') in
      if apiKey \<noteq> [] then apiKey
      else let authHeader = trimSpace (rq_header r ''Authorization''); bearerPrefix = ''Bearer '' in
        if Sublist.prefix bearerPrefix authHeader then trimSpace (trimPrefix authHeader bearerPrefix)
        else [])"

definition RequireDeviceAPIKeyAuth :: "handler \<Rightarrow> handler" where
  "RequireDeviceAPIKeyAuth next r a =
     (let apiKey = extractAPIKey r in
      if apiKey = [] then (writeJSONError 401 (Msg ''missing API key''), a)
      else case on_store (GetDeviceByAPIKey apiKey) a of
        (Inl e, a1) \<Rightarrow>
          if e = ErrDeviceNotFound then (writeJSONError 401 (Msg ''invalid API key''), a1)
          else (writeJSONError 500 (Msg ''device lookup failed''), a1)
      | (Inr device, a1) \<Rightarrow> next (r\<lparr>rq_device := Some device\<rparr>) a1)"

section \<open>Sessions (session\_auth.go)\<close>

definition sessionCookieName :: string where "sessionCookieName = ''exploripi_session''"

definition LoadCurrentUserFromSession :: "handler \<Rightarrow> handler" where
  "LoadCurrentUserFromSession next r a =
     (case request_Cookie r sessionCookieName of
        None \<Rightarrow> next r a
      | Some v \<Rightarrow>
          if trimSpace v = [] then next r a
          else let token = trimSpace v in
            case on_store (GetSession token) a of
              (Inl e, a1) \<Rightarrow> next r a1
            | (Inr session, a1) \<Rightarrow>
                (case on_store (GetUserByID (Session_UserID session)) a1 of
                   (Inl e, a2) \<Rightarrow> next r (snd (on_store (DeleteSession token) a2))
                 | (Inr user, a2) \<Rightarrow> next (r\<lparr>rq_user := Some user\<rparr>) a2))"

definition RequireUserSessionAuth :: "handler \<Rightarrow> handler" where
  "RequireUserSessionAuth next r a =
     (case rq_user r of
        None \<Rightarrow> (writeJSONError 401 (Msg ''authentication required''), a)
      | Some u \<Rightarrow> next r a)"

definition RequireUserSessionAuthHTML :: "handler \<Rightarrow> handler" where
  "RequireUserSessionAuthHTML next r a =
     (case rq_user r of
        None \<Rightarrow>
          let currentPath = trimSpace (rq_path r);
              nextValue = (if trimSpace (rq_rawquery r) \<noteq> [] then currentPath @ ''?'' @ rq_rawquery r else currentPath)
          in (http_Redirect (if currentPath \<noteq> [] then ''/login?next='' @ url_QueryEscape nextValue else ''/login''), a)
      | Some u \<Rightarrow> next r a)"

definition RequireAdmin :: "handler \<Rightarrow> handler" where
  "RequireAdmin next r a =
     (case rq_user r of
        None \<Rightarrow> (writeJSONError 401 (Msg ''authentication required''), a)
      | Some u \<Rightarrow> if \<not> User_IsAdmin u then (writeJSONError 403 (Msg ''admin required''), a) else next r a)"

section \<open>Cookies and CSRF tokens (cookie\_security.go, csrf.go)\<close>

record CookieSecurityPolicy =
  SecureMode :: string
  TrustProxyHeaders :: bool

definition requestLooksHTTPS :: "Request \<Rightarrow> bool \<Rightarrow> bool" where
  "requestLooksHTTPS r trustProxyHeaders =
     (if rq_tls r then True
      else if \<not> trustProxyHeaders then False
      else trimSpace (toLower (hd (splitOn (CHR '','') (rq_header r ''X-Forwarded-Proto'')))) = ''https'')"

definition CookieSecure :: "CookieSecurityPolicy \<Rightarrow> Request \<Rightarrow> bool" where
  "CookieSecure p r =
     (let mode = toLower (trimSpace (SecureMode p)) in
      if mode = ''always'' then True
      else if mode = ''never'' then False
      else requestLooksHTTPS r (TrustProxyHeaders p))"

definition csrfCookieName :: string where "csrfCookieName = ''exploripi_csrf''"

text \<open>The token, and the cookie that is set when the request had none.\<close>

definition ensureCSRFCookie ::
  "CookieSecurityPolicy \<Rightarrow> Request \<Rightarrow> app \<Rightarrow> (string \<times> Cookie list) \<times> app" where
  "ensureCSRFCookie p r a =
     (let token = (case request_Cookie r csrfCookieName of None \<Rightarrow> [] | Some v \<Rightarrow> trimSpace v) in
      if token \<noteq> [] then ((token, []), a)
      else case on_store (rand_Read 16) a of
        (Inl e, a1) \<Rightarrow> (([], []), a1)
      | (Inr tokenBytes, a1) \<Rightarrow>
          let token = hex_EncodeToString tokenBytes in
          ((token, [\<lparr>ck_name = csrfCookieName, ck_value = token, ck_httponly = False, ck_secure = CookieSecure p r,
                     ck_expires = None, ck_maxage = 0\<rparr>]), a1))"

definition csrfTokenFromRequest :: "Request \<Rightarrow> string" where
  "csrfTokenFromRequest r =
     (let headerToken = trimSpace (rq_header r ''X-CSRF-Token'') in
      if headerToken \<noteq> [] then headerToken else trimSpace (rq_form r ''csrf_token''))"

definition validateCSRF :: "Request \<Rightarrow> bool" where
  "validateCSRF r =
     (case request_Cookie r csrfCookieName of
        None \<Rightarrow> False
      | Some v \<Rightarrow>
          let cookieToken = trimSpace v; requestToken = csrfTokenFromRequest r in
          cookieToken \<noteq> [] \<and> requestToken \<noteq> [] \<and> cookieToken = requestToken)"

section \<open>Rate limits (rate\_limit.go)\<close>

definition clientIPForRateLimit :: "Request \<Rightarrow> bool \<Rightarrow> string" where
  "clientIPForRateLimit r trustProxyHeaders =
     (let xff = trimSpace (rq_header r ''X-Forwarded-For'');
          first = trimSpace (hd (splitOn (CHR '','') xff))
      in if trustProxyHeaders \<and> xff \<noteq> [] \<and> first \<noteq> [] then first
      else let remote = trimSpace (rq_remote r) in
        if remote = [] then ''unknown''
        else case net_SplitHostPort remote of
          None \<Rightarrow> remote
        | Some host \<Rightarrow> if trimSpace host \<noteq> [] then trimSpace host else remote)"

definition rateLimitKeyForRequest :: "Request \<Rightarrow> bool \<Rightarrow> string \<Rightarrow> string" where
  "rateLimitKeyForRequest r trustProxyHeaders scope =
     trimSpace scope @ ''|'' @ clientIPForRateLimit r trustProxyHeaders"

text \<open>\<^verbatim>\<open>int(d.Seconds())\<close> of a duration that is not negative, at least one.\<close>

definition retrySeconds :: "duration \<Rightarrow> int" where
  "retrySeconds d = (let s = d div second in if s < 1 then 1 else s)"

definition writeRateLimitedJSON :: "duration \<Rightarrow> string \<Rightarrow> Response" where
  "writeRateLimitedJSON retryAfter m =
     (writeJSONError 429 (Msg m))\<lparr>rs_retry_after := Some (retrySeconds retryAfter)\<rparr>"

section \<open>Passwords (password.go)\<close>

text \<open>\<^verbatim>\<open>golang.org/x/crypto/bcrypt\<close>: a hash from a salt and a password, and the comparison.\<close>

record bcrypt_lib =
  bcrypt_Generate :: "string \<Rightarrow> string \<Rightarrow> string option"
  bcrypt_Compare :: "string \<Rightarrow> string \<Rightarrow> bool"

definition MinPasswordLength :: nat where "MinPasswordLength = 12"

definition HashPassword :: "bcrypt_lib \<Rightarrow> string \<Rightarrow> (dbstate, password_error, string) gomethod" where
  "HashPassword B plain d =
     (let normalized = trimSpace plain in
      if normalized = [] then (Inl ErrEmptyPassword, d)
      else if length normalized < MinPasswordLength then (Inl ErrPasswordTooShort, d)
      else case rand_Read 16 d of
        (Inl e, d1) \<Rightarrow> (Inl ErrBcrypt, d1)
      | (Inr salt, d1) \<Rightarrow>
          (case bcrypt_Generate B salt normalized of None \<Rightarrow> (Inl ErrBcrypt, d1) | Some h \<Rightarrow> (Inr h, d1)))"

definition VerifyPassword :: "bcrypt_lib \<Rightarrow> string \<Rightarrow> string \<Rightarrow> bool" where
  "VerifyPassword B hash plain =
     (if trimSpace hash = [] \<or> trimSpace plain = [] then False else bcrypt_Compare B hash (trimSpace plain))"

section \<open>A server for the examples\<close>

definition sample_app :: "dbstate \<Rightarrow> app" where
  "sample_app d = set_store d \<lparr>ap_server = sample_server, ap_login = None, ap_admin = None\<rparr>"

end
