(* ===== verification/ApiIngest.thy ===== *)
theory ApiIngest
  imports Http
begin

text \<open>
  The two ingest endpoints of \<^verbatim>\<open>internal/api/ingest.go\<close>, from the device key to the buffer. The points of
  a request are attributed to the device whose key it carries, whatever the payload says; the ingest hash
  is the one the parsers computed, from the payload alone.
\<close>

section \<open>Model\<close>

definition maxIngestBodyBytes :: nat where "maxIngestBodyBytes = 1024 * 1024"

text \<open>\<^verbatim>\<open>io.ReadAll(io.LimitReader(r.Body, max))\<close>: what is beyond the limit is left unread, silently.\<close>

definition readBoundedBody :: "Request \<Rightarrow> string option" where
  "readBoundedBody r = map_option (take maxIngestBodyBytes) (rq_body r)"

definition normalizeForAuthenticatedDevice :: "CanonicalPoint list \<Rightarrow> Device \<Rightarrow> CanonicalPoint list" where
  "normalizeForAuthenticatedDevice ps device =
     (let userID = fmt_int (Device_UserID device) in
      map (\<lambda>p. p\<lparr>UserID := userID, DeviceID := Device_Name device\<rparr>) ps)"

definition ensureIngestHashes :: "CanonicalPoint list \<Rightarrow> CanonicalPoint list" where
  "ensureIngestHashes ps =
     map (\<lambda>p. if IngestHash p = [] then p\<lparr>IngestHash := GenerateDeterministicIngestHash p\<rparr> else p) ps"

definition mapIngestErrorStatus :: "ingest_error \<Rightarrow> int" where
  "mapIngestErrorStatus e =
     (if e = IngestBuffer ErrMaxBytesExceeded \<or> e = IngestBuffer ErrMaxPointsExceeded then 503 else 500)"

text \<open>\<open>draining\<close> is the value of \<^verbatim>\<open>IsDraining()\<close>, false when there is no such function.\<close>

definition ownTracksIngestHandler :: "json_lib \<Rightarrow> codec \<Rightarrow> Dependencies \<Rightarrow> bool \<Rightarrow> handler" where
  "ownTracksIngestHandler JS J deps draining r a =
     (if draining then (writeJSONError 503 (Msg ''service is shutting down''), a)
      else case readBoundedBody r of
        None \<Rightarrow> (writeJSONError 400 MsgBodyRead, a)
      | Some raw \<Rightarrow>
      case ParseOwnTracksLocation JS raw of
        Inl e \<Rightarrow> (writeJSONError 400 (MsgOwnTracks e), a)
      | Inr point \<Rightarrow>
      case rq_device r of
        None \<Rightarrow> (writeJSONError 401 (Msg ''missing authenticated device''), a)
      | Some device \<Rightarrow>
          let pts = ensureIngestHashes (normalizeForAuthenticatedDevice [point] device) in
          case appendAndEnqueue J deps pts ''owntracks'' (ap_server a) of
            (Inl e, f) \<Rightarrow> (writeJSONError (mapIngestErrorStatus e) (MsgIngest e), a\<lparr>ap_server := f\<rparr>)
          | (Inr response, f) \<Rightarrow> (writeJSON 200 (IngestBody response), a\<lparr>ap_server := f\<rparr>))"

definition overlandIngestHandler :: "json_lib \<Rightarrow> codec \<Rightarrow> Dependencies \<Rightarrow> bool \<Rightarrow> handler" where
  "overlandIngestHandler JS J deps draining r a =
     (if draining then (writeJSONError 503 (Msg ''service is shutting down''), a)
      else case readBoundedBody r of
        None \<Rightarrow> (writeJSONError 400 MsgBodyRead, a)
      | Some raw \<Rightarrow>
      case ParseOverlandBatch JS raw of
        Inl e \<Rightarrow> (writeJSONError 400 (MsgOverland e), a)
      | Inr parsed \<Rightarrow>
      case rq_device r of
        None \<Rightarrow> (writeJSONError 401 (Msg ''missing authenticated device''), a)
      | Some device \<Rightarrow>
          let pts = ensureIngestHashes (normalizeForAuthenticatedDevice parsed device) in
          case appendAndEnqueue J deps pts ''overland'' (ap_server a) of
            (Inl e, f) \<Rightarrow> (writeJSONError (mapIngestErrorStatus e) (MsgIngest e), a\<lparr>ap_server := f\<rparr>)
          | (Inr response, f) \<Rightarrow> (writeJSON 200 (IngestBody response), a\<lparr>ap_server := f\<rparr>))"

section \<open>From a point to the records of the buffer\<close>

lemma appendLoop_records:
  "appendLoop J acc ps m = (Inr recs, m') \<Longrightarrow>
   \<exists>new. recs = acc @ new \<and> list_all2 (\<lambda>r p. \<exists>n t. r = newRecord n t p) new ps"
proof (induction ps arbitrary: acc m)
  case (Cons p ps)
  from Cons.prems obtain r m1 where 1: "appendPoint J p m = (Inr r, m1)"
    and 2: "appendLoop J (acc @ [r]) ps m1 = (Inr recs, m')" by (auto simp: bindE_eq_Inr)
  have r: "\<exists>n t. r = newRecord n t p"
    using 1 by (auto simp: appendPoint_def bindE_eq_Inr Let_def returnE_def nowFn_def)
  from Cons.IH [OF 2] obtain new where "recs = (acc @ [r]) @ new"
    "list_all2 (\<lambda>r p. \<exists>n t. r = newRecord n t p) new ps" by blast
  then show ?case using r by (intro exI [of _ "r # new"]) simp
qed simp

lemma Append_records:
  assumes "AppendCanonicalPoints J ps m = (Inr recs, m')"
  shows "list_all2 (\<lambda>r p. \<exists>n t. r = newRecord n t p) recs ps"
  using assms appendLoop_records [of J "[]" ps _ recs m']
  by (auto simp: AppendCanonicalPoints_def bindE_eq_Inr split: if_splits)

text \<open>The device and the user of a record; the near-duplicate filter keeps them.\<close>

definition attribution :: "SpoolRecord \<Rightarrow> string \<times> string \<times> float64 \<times> float64" where
  "attribution q = (RecDeviceID q, UserID (Point q), Lat (Point q), Lon (Point q))"

lemma attribution_newRecord: "attribution (newRecord n t p) = (DeviceID p, UserID p, Lat p, Lon p)"
  by (simp add: attribution_def newRecord_def)

lemma filterLoop_attribution: "map attribution (fst (filterLoop dt dm c u rs)) = map attribution rs"
  by (induction dt dm c u rs rule: filterLoop.induct)
    (simp_all add: case_prod_beta suppress_def attribution_def del: fun_upd_apply)

lemma filter_attribution: "map attribution (fst (filterNearDuplicates m rs)) = map attribution rs"
  by (simp add: filterNearDuplicates_def filterLoop_attribution)

lemma contents_ticks: "contents (b\<lparr>ticks := t\<rparr>) = contents b"
  by (simp add: contents_def)

lemma appendAndEnqueue_success:
  assumes "appendAndEnqueue J deps ps src f = (Inr resp, f')"
  shows "Accepted resp = int (length ps)"
    and "\<exists>new. contents (buffer (world f')) = contents (buffer (world f)) @ new \<and>
      map attribution new = map (\<lambda>p. (DeviceID p, UserID p, Lat p, Lon p)) ps"
proof -
  obtain recs c b where 1: "AppendCanonicalPoints J ps (checkpoint (world f)) = (Inr recs, c)"
    and 2: "Enqueue J recs (buffer (world f)) = (Inr (), b)"
    and resp: "Accepted resp = int (length ps)"
    and f': "f' = maybeTriggerPressureFlush deps (set_buffer b (set_spool c f))"
    using assms by (auto simp: appendAndEnqueue_def Let_def set_spool_def split: prod.splits sum.splits)
  show "Accepted resp = int (length ps)" by (rule resp)
  have "map attribution recs = map (\<lambda>p. (DeviceID p, UserID p, Lat p, Lon p)) ps"
    using Append_records [OF 1] by (induction rule: list_all2_induct) (auto simp: attribution_newRecord)
  moreover obtain t where "buffer (world f') = b\<lparr>ticks := t\<rparr>"
    using pressure_buffer [of deps "set_buffer b (set_spool c f)"] by (auto simp: f' set_buffer_def)
  ultimately show "\<exists>new. contents (buffer (world f')) = contents (buffer (world f)) @ new \<and>
      map attribution new = map (\<lambda>p. (DeviceID p, UserID p, Lat p, Lon p)) ps"
    using Enqueue_contents [OF 2] filter_attribution [of "buffer (world f)" recs] by (auto simp: contents_ticks)
qed

lemma appendAndEnqueue_refused:
  assumes "appendAndEnqueue J deps ps src f = (Inl e, f')"
  shows "contents (buffer (world f')) = contents (buffer (world f))"
  using assms Enqueue_error_unchanged
  by (fastforce simp: appendAndEnqueue_def Let_def set_spool_def set_buffer_def TriggerFlush_def
      split: prod.splits sum.splits)

lemma appendAndEnqueue_store:
  assumes "appendAndEnqueue J deps ps src f = (res, f')"
  shows "store (world f') = store (world f)"
proof -
  have p: "store (world (maybeTriggerPressureFlush deps g)) = store (world g)" for g
    by (simp add: maybeTriggerPressureFlush_def Let_def set_buffer_def TriggerFlush_def split: prod.splits)
  show ?thesis
    using assms
    by (auto simp: appendAndEnqueue_def Let_def set_spool_def set_buffer_def TriggerFlush_def p
        split: prod.splits sum.splits)
qed

text \<open>The user id travels through the text of the spool record.\<close>

lemma trimSpace_dec: "trimSpace (dec n) = dec n"
  using dec_digits [of n] digit_graphic by (intro trimSpace_graphic(1)) simp_all

lemma parsePointUserID_fmt_int:
  assumes "0 < n" and "n < 2 ^ 63"
  shows "parsePointUserID (fmt_int n) = Some n"
proof -
  have "is_digit (hd (dec (nat n)))" using dec_digits [of "nat n"] by simp
  then have "hd (dec (nat n)) \<noteq> CHR ''-''" "hd (dec (nat n)) \<noteq> CHR ''+''"
    by (auto simp: is_digit_def)
  then have "parseInt64 (dec (nat n)) = Some n"
    using assms dec_digits [of "nat n"] by (simp add: parseInt64_def Let_def list_all_iff)
  then show ?thesis using assms by (simp add: parsePointUserID_def Let_def fmt_int_def trimSpace_dec)
qed

lemma ensured_hashes:
  "\<forall>p \<in> set ps. IngestHash p \<noteq> [] \<Longrightarrow> ensureIngestHashes ps = ps"
  by (induction ps) (simp_all add: ensureIngestHashes_def)

section \<open>Attribution\<close>

text \<open>What either parser makes of a body.\<close>

definition accepted_points :: "json_lib \<Rightarrow> string \<Rightarrow> CanonicalPoint list \<Rightarrow> bool" where
  "accepted_points JS raw ps \<longleftrightarrow>
     (\<exists>p. ParseOwnTracksLocation JS raw = Inr p \<and> ps = [p]) \<or> ParseOverlandBatch JS raw = Inr ps"

text \<open>An answer of 200 put these points, as the device's, at the end of the buffer; any other put none there.\<close>

definition ingest_outcome :: "json_lib \<Rightarrow> Request \<Rightarrow> app \<Rightarrow> Response \<times> app \<Rightarrow> bool" where
  "ingest_outcome JS r a out \<longleftrightarrow>
     (rs_status (fst out) \<noteq> 200 \<and>
      contents (buffer (world (ap_server (snd out)))) = contents (buffer (world (ap_server a)))) \<or>
     (rs_status (fst out) = 200 \<and>
      (\<exists>device raw ps new. rq_device r = Some device \<and> readBoundedBody r = Some raw \<and> accepted_points JS raw ps \<and>
         contents (buffer (world (ap_server (snd out)))) = contents (buffer (world (ap_server a))) @ new \<and>
         map attribution new =
           map (\<lambda>p. (Device_Name device, fmt_int (Device_UserID device), Lat p, Lon p)) ps))"

lemma refused_outcome:
  "code \<noteq> 200 \<Longrightarrow> contents (buffer (world (ap_server b))) = contents (buffer (world (ap_server a))) \<Longrightarrow>
   ingest_outcome JS r a (writeJSONError code m, b)"
  by (simp add: ingest_outcome_def writeJSONError_def writeJSON_def)

lemma normalized_points:
  "map (\<lambda>p. (DeviceID p, UserID p, Lat p, Lon p)) (ensureIngestHashes (normalizeForAuthenticatedDevice ps device)) =
   map (\<lambda>p. (Device_Name device, fmt_int (Device_UserID device), Lat p, Lon p)) ps"
  by (simp add: ensureIngestHashes_def normalizeForAuthenticatedDevice_def Let_def)

lemma append_outcome:
  assumes "rq_device r = Some device" and "readBoundedBody r = Some raw" and "accepted_points JS raw ps"
  shows "ingest_outcome JS r a
    (case appendAndEnqueue J deps (ensureIngestHashes (normalizeForAuthenticatedDevice ps device)) src (ap_server a) of
       (Inl e, f) \<Rightarrow> (writeJSONError (mapIngestErrorStatus e) (MsgIngest e), a\<lparr>ap_server := f\<rparr>)
     | (Inr response, f) \<Rightarrow> (writeJSON 200 (IngestBody response), a\<lparr>ap_server := f\<rparr>))"
proof -
  obtain res f where run: "appendAndEnqueue J deps (ensureIngestHashes (normalizeForAuthenticatedDevice ps device)) src
      (ap_server a) = (res, f)" by fastforce
  show ?thesis
  proof (cases res)
    case (Inl e)
    with appendAndEnqueue_refused [OF run [unfolded Inl]] run show ?thesis
      by (simp add: refused_outcome mapIngestErrorStatus_def)
  next
    case (Inr response)
    obtain new where new: "contents (buffer (world f)) = contents (buffer (world (ap_server a))) @ new"
      "map attribution new = map (\<lambda>p. (Device_Name device, fmt_int (Device_UserID device), Lat p, Lon p)) ps"
      using appendAndEnqueue_success(2) [OF run [unfolded Inr]] unfolding normalized_points by blast
    have "ingest_outcome JS r a (writeJSON 200 (IngestBody response), a\<lparr>ap_server := f\<rparr>)"
      unfolding ingest_outcome_def using new assms by (simp add: writeJSON_def) blast
    with run Inr show ?thesis by simp
  qed
qed

lemma ingest_handlers_outcome:
  "ingest_outcome JS r a (ownTracksIngestHandler JS J deps draining r a)"
  "ingest_outcome JS r a (overlandIngestHandler JS J deps draining r a)"
proof -
  show "ingest_outcome JS r a (ownTracksIngestHandler JS J deps draining r a)"
    unfolding ownTracksIngestHandler_def Let_def
    using append_outcome [of r _ _ JS "[_]" a J deps "''owntracks''"]
    by (auto simp: refused_outcome accepted_points_def split: option.split sum.split)
  show "ingest_outcome JS r a (overlandIngestHandler JS J deps draining r a)"
    unfolding overlandIngestHandler_def Let_def
    using append_outcome [of r _ _ JS _ a J deps "''overland''"]
    by (auto simp: refused_outcome accepted_points_def split: option.split sum.split)
qed

lemma set_store_buffer [simp]:
  "buffer (world (ap_server (set_store d a))) = buffer (world (ap_server a))"
  "checkpoint (world (ap_server (set_store d a))) = checkpoint (world (ap_server a))"
  by (simp_all add: set_store_def)

lemma on_store_buffer:
  "on_store m a = (x, b) \<Longrightarrow> buffer (world (ap_server b)) = buffer (world (ap_server a))"
  by (auto simp: on_store_def split: prod.splits)

lemma key_owner:
  assumes "GetDeviceByAPIKey k d = (Inr device, d')" and "db_inv (tables d)"
  obtains row where "row \<in> set (devices (tables d))" and "d_api_key_hash row = Some (hashDeviceAPIKey k)"
    and "Device_Name device = d_name row" and "Device_UserID device = d_user_id row" and "Device_ID device = d_id row"
proof -
  obtain row row' where row: "row \<in> set (devices (tables d))" "d_api_key_hash row = Some (hashDeviceAPIKey k)"
    "row' \<in> set (devices (tables d))" "d_id row' = d_id row" "scanDevice row' = Inr device"
    using GetDeviceByAPIKey_success [OF assms(1)] by metis
  have "distinct (map d_id (devices (tables d)))" using assms(2) by (simp add: db_inv_def devices_ok_def)
  then have "row' = row" using row(1,3,4) by (auto simp: distinct_map inj_on_def)
  with row scanDevice_fields [of row device] that show thesis by metis
qed

text \<open>
  Claim C5. Points are attributed to the device whose key the request carries, not to what the payload says.
  An answer of 200 means that the key is that of a device row, that the body was accepted by a parser,
  and that the buffer has grown by one record for each parsed point, in order, with the point's
  coordinates, the name of that device, and a user column from which the batch insert reads the
  device's owner. With any other answer the buffer has not grown.
\<close>

theorem ingest_attributed_to_device:
  assumes "h = ownTracksIngestHandler JS J deps draining \<or> h = overlandIngestHandler JS J deps draining"
    and "RequireDeviceAPIKeyAuth h r a = (resp, a')" and "db_inv (tables (ap_store a))"
    and "\<forall>row \<in> set (devices (tables (ap_store a))). 0 < d_user_id row \<and> d_user_id row < 2 ^ 63"
  shows "(rs_status resp \<noteq> 200 \<and>
      contents (buffer (world (ap_server a'))) = contents (buffer (world (ap_server a)))) \<or>
    (rs_status resp = 200 \<and>
      (\<exists>row raw ps new. row \<in> set (devices (tables (ap_store a))) \<and>
         d_api_key_hash row = Some (hashDeviceAPIKey (extractAPIKey r)) \<and>
         readBoundedBody r = Some raw \<and> accepted_points JS raw ps \<and>
         contents (buffer (world (ap_server a'))) = contents (buffer (world (ap_server a))) @ new \<and>
         map (\<lambda>q. (Lat (Point q), Lon (Point q))) new = map (\<lambda>p. (Lat p, Lon p)) ps \<and>
         (\<forall>q \<in> set new. RecDeviceID q = d_name row \<and> record_user 1 q = d_user_id row)))"
proof (cases "extractAPIKey r = []")
  case True
  with assms(2) show ?thesis by (auto simp: RequireDeviceAPIKeyAuth_def Let_def writeJSONError_def writeJSON_def)
next
  case key: False
  obtain x a1 where look: "on_store (GetDeviceByAPIKey (extractAPIKey r)) a = (x, a1)" by fastforce
  note b1 = on_store_buffer [OF look]
  show ?thesis
  proof (cases x)
    case (Inl e)
    with assms(2) key look b1 show ?thesis
      by (auto simp: RequireDeviceAPIKeyAuth_def Let_def writeJSONError_def writeJSON_def split: if_splits)
  next
    case (Inr device)
    let ?r = "r\<lparr>rq_device := Some device\<rparr>"
    have "h ?r a1 = (resp, a')" using assms(2) key look Inr by (simp add: RequireDeviceAPIKeyAuth_def Let_def)
    then have out: "ingest_outcome JS ?r a1 (resp, a')"
      using assms(1) ingest_handlers_outcome [of JS ?r a1 J deps draining] by auto
    obtain d1 where "GetDeviceByAPIKey (extractAPIKey r) (ap_store a) = (Inr device, d1)"
      using look Inr by (auto simp: on_store_def split: prod.splits)
    then obtain row where row: "row \<in> set (devices (tables (ap_store a)))"
      "d_api_key_hash row = Some (hashDeviceAPIKey (extractAPIKey r))"
      "Device_Name device = d_name row" "Device_UserID device = d_user_id row"
      using key_owner assms(3) by metis
    have user: "parsePointUserID (fmt_int (d_user_id row)) = Some (d_user_id row)"
      using parsePointUserID_fmt_int assms(4) row(1) by blast
    show ?thesis
    proof (cases "rs_status resp = 200")
      case False
      with out b1 show ?thesis by (simp add: ingest_outcome_def)
    next
      case True
      then obtain raw ps new where new: "readBoundedBody r = Some raw" "accepted_points JS raw ps"
        "contents (buffer (world (ap_server a'))) = contents (buffer (world (ap_server a))) @ new"
        "map attribution new = map (\<lambda>p. (d_name row, fmt_int (d_user_id row), Lat p, Lon p)) ps"
        using out b1 row(3,4) by (auto simp: ingest_outcome_def readBoundedBody_def)
      have "map (\<lambda>q. (Lat (Point q), Lon (Point q))) new = map (\<lambda>p. (Lat p, Lon p)) ps"
        using arg_cong [OF new(4), of "map (\<lambda>(d, u, x, y). (x, y))"] by (simp add: comp_def attribution_def)
      moreover have "RecDeviceID q = d_name row \<and> record_user 1 q = d_user_id row" if "q \<in> set new" for q
      proof -
        have "attribution q \<in> set (map attribution new)" using that by simp
        then show ?thesis unfolding new(4) by (auto simp: attribution_def record_user_def user)
      qed
      ultimately show ?thesis using True row(1,2) new(1-3) by blast
    qed
  qed
qed

text \<open>A codec that writes one fixed line is enough for the example; the device is the one of \<^const>\<open>phone_db\<close>.\<close>

definition plain_codec :: codec where
  "plain_codec =
     \<lparr>marshalRecord = (\<lambda>_. Some ''r''), unmarshalRecord = (\<lambda>_. None),
      marshalCheckpoint = (\<lambda>_. None), unmarshalCheckpoint = (\<lambda>_. None)\<rparr>"

definition key_request :: Request where
  "key_request =
     \<lparr>rq_header = (\<lambda>h. if h = ''X-API-Key'' then ''abc'' else []), rq_cookies = [], rq_query = (\<lambda>_. []),
      rq_form = (\<lambda>_. []), rq_form_ok = True, rq_path = ''/api/v1/owntracks'', rq_rawquery = [],
      rq_pathvalue = (\<lambda>_. []), rq_remote = ''10.0.0.1:5'', rq_tls = True, rq_body = Some ''{}'',
      rq_user = None, rq_device = None\<rparr>"

lemma sample_accepts:
  "fst (appendAndEnqueue plain_codec sample_deps [p] ''owntracks'' (sample_server\<lparr>world := (world sample_server)\<lparr>store := d\<rparr>\<rparr>)) =
     Inr \<lparr>Source = ''owntracks'', Accepted = 1, Spooled = 1, Enqueued = 1, MaxSeq = 1\<rparr>"
  by code_simp

theorem ingest_attributed_to_device_witness:
  "\<exists>resp a' q. RequireDeviceAPIKeyAuth (ownTracksIngestHandler demo_json plain_codec sample_deps False) key_request
       (sample_app phone_db) = (resp, a') \<and>
     rs_status resp = 200 \<and> contents (buffer (world (ap_server a'))) = [q] \<and>
     RecDeviceID q = ''phone'' \<and> record_user 1 q = 1"
proof -
  let ?h = "ownTracksIngestHandler demo_json plain_codec sample_deps False"
  let ?a = "sample_app phone_db"
  obtain resp a' where run: "RequireDeviceAPIKeyAuth ?h key_request ?a = (resp, a')" by fastforce
  have st: "ap_store ?a = phone_db" by (simp add: sample_app_def)
  have key: "extractAPIKey key_request = ''abc''" by (simp add: extractAPIKey_def key_request_def trim_keys)
  have row: "phone_row \<in> set (devices (tables phone_db))" using phone_db_ok(3) by simp
  have "d_api_key_hash phone_row = Some (hashDeviceAPIKey ''abc'')" "trimSpace ''abc'' \<noteq> []" "0 < d_id phone_row"
    by (simp_all add: phone_row_def trim_keys)
  then obtain d where d: "GetDeviceByAPIKey ''abc'' phone_db = (Inr phone_device, d)"
    using GetDeviceByAPIKey_runs [OF phone_db_ok(2,1) row _ _ phone_scan] by blast
  obtain p where p: "ParseOwnTracksLocation demo_json ''{}'' = Inr p"
    by (simp add: ParseOwnTracksLocation_def demo_json_def demo_owntracks_def demo_numbers
        demo_braces Let_def parseTopic_Nil)
  have body: "readBoundedBody (key_request\<lparr>rq_device := Some phone_device\<rparr>) = Some ''{}''"
    by (simp add: readBoundedBody_def key_request_def maxIngestBodyBytes_def)
  let ?pts = "ensureIngestHashes (normalizeForAuthenticatedDevice [p] phone_device)"
  let ?f = "sample_server\<lparr>world := (world sample_server)\<lparr>store := d\<rparr>\<rparr>"
  obtain p' where p': "?pts = [p']" by (simp add: ensureIngestHashes_def normalizeForAuthenticatedDevice_def Let_def)
  obtain f where f: "appendAndEnqueue plain_codec sample_deps [p'] ''owntracks'' ?f =
      (Inr \<lparr>Source = ''owntracks'', Accepted = 1, Spooled = 1, Enqueued = 1, MaxSeq = 1\<rparr>, f)"
    using sample_accepts [of p' d] by (metis prod.collapse)
  have "on_store (GetDeviceByAPIKey ''abc'') ?a = (Inr phone_device, set_store d ?a)"
    unfolding on_store_def st by (simp add: d)
  then have "RequireDeviceAPIKeyAuth ?h key_request ?a = ?h (key_request\<lparr>rq_device := Some phone_device\<rparr>) (set_store d ?a)"
    by (simp add: RequireDeviceAPIKeyAuth_def Let_def key)
  moreover have "ap_server (set_store d ?a) = ?f" by (simp add: set_store_def sample_app_def)
  ultimately have ok: "rs_status resp = 200"
    using run body p p' f by (simp add: ownTracksIngestHandler_def Let_def writeJSON_def)
  have devs: "\<forall>row \<in> set (devices (tables (ap_store ?a))). 0 < d_user_id row \<and> d_user_id row < 2 ^ 63"
    by (simp add: st phone_db_ok(3) phone_row_def)
  have inv: "db_inv (tables (ap_store ?a))" using phone_db_ok(1) st by simp
  have empty: "contents (buffer (world (ap_server ?a))) = []"
    using sample_request(2) by (simp add: sample_app_def)
  obtain raw ps new where new: "readBoundedBody key_request = Some raw" "accepted_points demo_json raw ps"
    "contents (buffer (world (ap_server a'))) = new"
    "map (\<lambda>q. (Lat (Point q), Lon (Point q))) new = map (\<lambda>p. (Lat p, Lon p)) ps"
    "\<forall>q \<in> set new. RecDeviceID q = d_name phone_row \<and> record_user 1 q = d_user_id phone_row"
    using ingest_attributed_to_device [OF disjI1 [OF refl] run inv devs] ok empty
    by (auto simp: st phone_db_ok(3))
  have "raw = ''{}''" using new(1) body by (simp add: readBoundedBody_def key_request_def)
  moreover have "ParseOverlandBatch demo_json ''{}'' = Inl ErrOverlandInvalidJSON"
    by (simp add: ParseOverlandBatch_def Let_def demo_json_def demo_braces)
  ultimately have "ps = [p]" using new(2) p by (auto simp: accepted_points_def)
  then have "length new = 1" using arg_cong [OF new(4), of length] by simp
  then obtain q where "new = [q]" by (cases new) auto
  with new run ok show ?thesis by (auto simp: phone_row_def)
qed

section \<open>The ingest hash does not depend on the device\<close>

text \<open>The records an append makes of the points of a request by this device.\<close>

definition records_of :: "CanonicalPoint list \<Rightarrow> Device \<Rightarrow> SpoolRecord list \<Rightarrow> bool" where
  "records_of ps device rs \<longleftrightarrow>
     list_all2 (\<lambda>r p. \<exists>n t. r = newRecord n t p) rs (ensureIngestHashes (normalizeForAuthenticatedDevice ps device))"

lemma accepted_hashes: "accepted_points JS raw ps \<Longrightarrow> \<forall>p \<in> set ps. IngestHash p \<noteq> []"
proof -
  assume "accepted_points JS raw ps"
  then consider (own) p where "ParseOwnTracksLocation JS raw = Inr p" "ps = [p]" | (over) "ParseOverlandBatch JS raw = Inr ps"
    by (auto simp: accepted_points_def)
  then show ?thesis
  proof cases
    case own
    then show ?thesis
      by (auto simp: ParseOwnTracksLocation_def Let_def hashPayload_def
          simp del: firstNonEmpty.simps split: if_splits option.splits prod.splits)
  next
    case over
    then obtain d sg ls where "overlandPoints JS (trimSpace raw) d sg 0 ls = Inr ps"
      by (auto simp: ParseOverlandBatch_def Let_def split: if_splits option.splits)
    note n = overlandPoints_nth [OF this]
    have "IngestHash (ps ! k) \<noteq> []" if "k < length ps" for k
      using n that overlandPoint_shape(6) [of JS "trimSpace raw" d sg k "ls ! k" "ps ! k"] by auto
    then show ?thesis by (metis in_set_conv_nth)
  qed
qed

lemma records_hashes:
  assumes "\<forall>p \<in> set ps. IngestHash p \<noteq> []" and "records_of ps device rs"
  shows "map (\<lambda>r. IngestHash (Point r)) rs = map IngestHash ps"
proof -
  have n: "\<forall>p \<in> set (normalizeForAuthenticatedDevice ps device). IngestHash p \<noteq> []"
    using assms(1) by (auto simp: normalizeForAuthenticatedDevice_def Let_def)
  then have "list_all2 (\<lambda>r p. \<exists>n t. r = newRecord n t p) rs (normalizeForAuthenticatedDevice ps device)"
    using assms(2) ensured_hashes by (simp add: records_of_def)
  then have "map (\<lambda>r. IngestHash (Point r)) rs = map IngestHash (normalizeForAuthenticatedDevice ps device)"
    using n by (induction rule: list_all2_induct) (auto simp: newRecord_def)
  then show ?thesis by (simp add: normalizeForAuthenticatedDevice_def Let_def comp_def)
qed

text \<open>
  Claim C40. The deduplication runs over the payload alone, across devices and users. When two devices
  send the same body, the second device's points are lost: once the first device's records are stored,
  a batch with the second device's records is committed, so the checkpoint moves on, but adds no raw
  point, whoever the second device belongs to.
\<close>

theorem same_body_stored_once:
  assumes "accepted_points JS raw ps" and "db_inv (tables d)"
    and "records_of ps device1 rs1" and "InsertSpoolBatch rs1 d = (Inr m1, d1)"
    and "records_of ps device2 rs2" and "tables e = tables d1" and "InsertSpoolBatch rs2 e = (Inr m2, e1)"
  shows "raw_points (tables e1) = raw_points (tables d1)"
proof -
  have h: "map (\<lambda>r. IngestHash (Point r)) rs2 = map (\<lambda>r. IngestHash (Point r)) rs1"
    using records_hashes [OF accepted_hashes [OF assms(1)]] assms(3,5) by metis
  note one = InsertSpoolBatch_success [OF assms(4,2)]
  note two = InsertSpoolBatch_success [OF assms(7) one [THEN conjunct1, folded assms(6)]]
  have "set (map (\<lambda>r. IngestHash (Point r)) rs1) \<subseteq> set (hashes (tables d1))"
    using grew_persisted(1) [of rs1 d d1] one by (auto simp: persisted_in_def)
  then have "set (map (\<lambda>r. IngestHash (Point r)) rs2) \<subseteq> set (hashes (tables e))"
    unfolding h assms(6) .
  then have "\<forall>r \<in> set rs2. IngestHash (Point r) \<in> set (hashes (tables e))" by auto
  then have "fresh_records (hashes (tables e)) rs2 = []" by (rule fresh_records_none)
  then show ?thesis using two assms(6) by (auto simp: grew_def)
qed

text \<open>Two devices of two users in one database.\<close>

definition watch_device :: Device where
  "watch_device = phone_device\<lparr>Device_ID := 2, Device_UserID := 2, Device_Name := ''watch''\<rparr>"

definition two_users_db :: dbstate where
  "two_users_db = sample_db\<lparr>tables := empty_tables\<lparr>users :=
     [\<lparr>u_id = 1, u_name = ''a'', u_email = None, u_password_hash = [], u_is_admin = 0, u_created_at = [], u_updated_at = []\<rparr>,
      \<lparr>u_id = 2, u_name = ''b'', u_email = None, u_password_hash = [], u_is_admin = 0, u_created_at = [], u_updated_at = []\<rparr>],
     last_user_id := 2,
     devices := [\<lparr>d_id = 1, d_user_id = 2, d_name = ''watch'', d_source_type = ''watch'', d_api_key = ''k'',
       d_api_key_hash = None, d_api_key_preview = None, d_last_seen_at = None, d_last_seq_received = 0,
       d_created_at = [], d_updated_at = None\<rparr>],
     last_device_id := 1\<rparr>\<rparr>"

definition first_second_json :: json_lib where
  "first_second_json =
     demo_json\<lparr>js_overland := (\<lambda>_. Some \<lparr>ob_DeviceID = [],
       ob_Locations = [demo_location\<lparr>ol_Timestamp := ''0001-01-01T00:00:01Z''\<rparr>]\<rparr>)\<rparr>"

definition demo_point :: "string \<Rightarrow> CanonicalPoint" where
  "demo_point h =
     \<lparr>UserID = [], DeviceID = ''unknown-device'', SourceType = ''overland'', TimestampUTC = second, Lat = 41, Lon = - 87,
      Altitude = None, Accuracy = None, Speed = None, Heading = None, Battery = None, MotionType = None,
      RawPayload = Some ''{}'', IngestHash = h\<rparr>"

definition point_for :: "string \<Rightarrow> Device \<Rightarrow> CanonicalPoint" where
  "point_for h device = (demo_point h)\<lparr>UserID := fmt_int (Device_UserID device), DeviceID := Device_Name device\<rparr>"

lemma point_for_phone: "point_for h phone_device = (demo_point h)\<lparr>UserID := ''1'', DeviceID := ''phone''\<rparr>"
proof -
  have "fmt_int 1 = ''1''" by code_simp
  then show ?thesis by (simp add: point_for_def phone_device_def)
qed

lemma demo_parsed: "\<exists>c h. ParseOverlandBatch first_second_json ''{}'' = Inr [demo_point (c # h)]"
proof -
  obtain c h where h: "sha256_hex (''{}'' @ ''#'' @ dec 0) = c # h" using sha256_hex_nonempty by (meson list.exhaust)
  have ts: "parse_RFC3339Nano ''0001-01-01T00:00:01Z'' = Some second" by code_simp
  have blank: "trimSpace ''0001-01-01T00:00:01Z'' = ''0001-01-01T00:00:01Z''" "trimSpace ''unknown-device'' = ''unknown-device''"
    by (rule trimSpace_graphic(1); simp_all add: graphic_def)+
  have "overlandPoint first_second_json ''{}'' ''unknown-device'' True 0
      (demo_location\<lparr>ol_Timestamp := ''0001-01-01T00:00:01Z''\<rparr>) = Inr (demo_point (c # h))"
    unfolding overlandPoint_def hashPayload_def h
    by (simp add: demo_location_def ts blank demo_point_def parseOverlandMotionType_def parseMotionString_def
        parseActivityString_def)
  moreover have "firstNonEmpty [[], ''unknown-device''] = ''unknown-device''" by (simp add: blank)
  ultimately have "ParseOverlandBatch first_second_json ''{}'' = Inr [demo_point (c # h)]"
    by (simp add: ParseOverlandBatch_def Let_def demo_braces first_second_json_def del: firstNonEmpty.simps)
  then show ?thesis by blast
qed

lemma first_inserted: "fst (InsertSpoolBatch [newRecord 1 0 (point_for (c # h) phone_device)] two_users_db) = Inr 1"
  unfolding point_for_phone by code_simp

theorem same_body_stored_once_witness:
  "\<exists>ps rs1 rs2 d1 e m d2. accepted_points first_second_json ''{}'' ps \<and>
     records_of ps phone_device rs1 \<and> InsertSpoolBatch rs1 two_users_db = (Inr 1, d1) \<and>
     records_of ps watch_device rs2 \<and> rs2 \<noteq> [] \<and> tables e = tables d1 \<and> InsertSpoolBatch rs2 e = (Inr m, d2) \<and>
     raw_points (tables d2) = raw_points (tables d1)"
proof -
  obtain c h where p: "ParseOverlandBatch first_second_json ''{}'' = Inr [demo_point (c # h)]"
    using demo_parsed by blast
  let ?r1 = "newRecord 1 0 (point_for (c # h) phone_device)" and ?r2 = "newRecord 2 0 (point_for (c # h) watch_device)"
  have acc: "accepted_points first_second_json ''{}'' [demo_point (c # h)]"
    using p by (simp add: accepted_points_def)
  have rec: "records_of [demo_point (c # h)] phone_device [?r1]" "records_of [demo_point (c # h)] watch_device [?r2]"
    by (auto simp: records_of_def ensureIngestHashes_def normalizeForAuthenticatedDevice_def Let_def point_for_def demo_point_def)
  obtain d1 where d1: "InsertSpoolBatch [?r1] two_users_db = (Inr 1, d1)"
    using first_inserted [of c h] by (metis prod.collapse)
  have inv: "db_inv (tables two_users_db)"
    by (simp add: two_users_db_def db_inv_def db_inv_defs empty_tables_def indexed_emails_def
        indexed_hashes_def indexed_email_def indexed_hash_def phone_row_def List.map_filter_simps)
  note ok = InsertSpoolBatch_success [OF d1 inv]
  let ?e = "sample_db\<lparr>tables := tables d1\<rparr>"
  have calm: "calm ?e" by (simp add: sample_db_def calm_def)
  have "(1, 2, ''watch'') \<in> device_key ` set (devices (tables two_users_db))"
    by (simp add: two_users_db_def device_key_def phone_row_def)
  then have "(1, 2, ''watch'') \<in> device_key ` set (devices (tables d1))"
    using ok by (auto simp: grew_def devices_kept_def)
  moreover have "normalizedDeviceName ''watch'' = ''watch''"
    unfolding normalizedDeviceName_def by (subst trimSpace_graphic(1)) (simp_all add: graphic_def)
  moreover have "parsePointUserID (fmt_int 2) = Some 2" by (rule parsePointUserID_fmt_int) simp_all
  ultimately have "known_record (tables ?e) ?r2"
    by (auto simp: known_record_def record_user_def newRecord_def point_for_def watch_device_def)
  moreover have "persisted_in d1 ?r1" using grew_persisted(1) [of "[?r1]" two_users_db d1] ok by simp
  then have "persisted_in ?e ?r2" by (simp add: persisted_in_def newRecord_def point_for_def demo_point_def)
  ultimately obtain m d2 where d2: "InsertSpoolBatch [?r2] ?e = (Inr m, d2)"
    using InsertSpoolBatch_again [OF calm, of "[?r2]"] by (auto simp: runs_def)
  have "tables ?e = tables d1" by simp
  from same_body_stored_once [OF acc inv rec(1) d1 rec(2) this d2] acc rec d1 d2 this show ?thesis by blast
qed

end
