(* ===== verification/Login.thy ===== *)
theory Login
  imports Http
begin

text \<open>
  Signing in and out (\<^verbatim>\<open>internal/api/login.go\<close>) and the guards around the other handlers: who gets a
  session, what a session or a device key lets through, and where a sign-in leads.
\<close>

section \<open>Model\<close>

text \<open>\<^verbatim>\<open>Decode\<close> of the body of a JSON sign-in: address and password.\<close>

type_synonym login_json = "string \<Rightarrow> (string \<times> string) option"

definition isJSONLoginRequest :: "Request \<Rightarrow> bool" where
  "isJSONLoginRequest r =
     (let contentType = toLower (trimSpace (rq_header r ''Content-Type''));
          accept = toLower (trimSpace (rq_header r ''Accept''))
      in strings_Contains contentType ''application/json'' \<or> strings_Contains accept ''application/json'')"

text \<open>Address, password and the path to go on to; \<^const>\<open>None\<close> is an error.\<close>

definition parseLoginCredentials :: "login_json \<Rightarrow> Request \<Rightarrow> bool \<Rightarrow> (string \<times> string \<times> string) option" where
  "parseLoginCredentials J r jsonRequest =
     (if jsonRequest then
        (case rq_body r of
           None \<Rightarrow> None
         | Some b \<Rightarrow>
             (case J b of
                None \<Rightarrow> None
              | Some (email, password) \<Rightarrow>
                  Some (trimSpace email, trimSpace password, trimSpace (rq_query r ''next''))))
      else if \<not> rq_form_ok r then None
      else Some (trimSpace (rq_form r ''email''), trimSpace (rq_form r ''password''), trimSpace (rq_form r ''next'')))"

definition resolvePostLoginRedirect :: "string \<Rightarrow> string" where
  "resolvePostLoginRedirect nextPath =
     (let candidate = trimSpace nextPath in
      if candidate = [] then ''/ui/map''
      else if \<not> Sublist.prefix ''/'' candidate \<or> Sublist.prefix ''//'' candidate then ''/ui/map''
      else if Sublist.prefix ''/login'' candidate then ''/ui/map''
      else candidate)"

definition writeLoginPage ::
  "CookieSecurityPolicy \<Rightarrow> Request \<Rightarrow> int \<Rightarrow> string \<Rightarrow> string \<Rightarrow> string \<Rightarrow> app \<Rightarrow> Response \<times> app" where
  "writeLoginPage p r code email errorMessage nextPath a =
     (case ensureCSRFCookie p r a of ((csrfToken, cookies), a1) \<Rightarrow>
        ((writeJSON code (LoginPage (html_EscapeString (trimSpace email))
            (if trimSpace errorMessage \<noteq> [] then html_EscapeString errorMessage else [])
            (html_EscapeString (trimSpace nextPath)) (html_EscapeString csrfToken)))\<lparr>rs_cookies := cookies\<rparr>, a1))"

definition loginPageHandler :: "CookieSecurityPolicy \<Rightarrow> handler" where
  "loginPageHandler p r a = writeLoginPage p r 200 [] [] (trimSpace (rq_query r ''next'')) a"

definition limit_request :: "FixedWindowLimiter option \<Rightarrow> string \<Rightarrow> (bool \<times> duration) \<times> FixedWindowLimiter option" where
  "limit_request l key =
     (case l of None \<Rightarrow> ((True, 0), None) | Some l \<Rightarrow> (case Allow key l of (v, l1) \<Rightarrow> (v, Some l1)))"

definition sessionCookie :: "CookieSecurityPolicy \<Rightarrow> Request \<Rightarrow> Session \<Rightarrow> Cookie" where
  "sessionCookie p r s =
     \<lparr>ck_name = sessionCookieName, ck_value = Session_Token s, ck_httponly = True, ck_secure = CookieSecure p r,
      ck_expires = Some (Session_ExpiresAt s), ck_maxage = 0\<rparr>"

text \<open>What follows the checks of the request: the user is looked up and the password compared.\<close>

definition signIn :: "bcrypt_lib \<Rightarrow> CookieSecurityPolicy \<Rightarrow> Request \<Rightarrow> bool \<Rightarrow> string \<Rightarrow> string \<Rightarrow> string \<Rightarrow> app \<Rightarrow> Response \<times> app"
where
  "signIn B p r jsonRequest email password nextPath a =
     (let refuse = (\<lambda>code m page a. if jsonRequest then (writeJSONError code (Msg m), a)
                                    else writeLoginPage p r code email page nextPath a)
      in case on_store (GetUserByEmail email) a of
        (Inl e, a1) \<Rightarrow>
          if e = ErrUserNotFound then refuse 401 ''invalid credentials'' ''Invalid email or password'' a1
          else refuse 500 ''user lookup failed'' ''Login failed. Please try again.'' a1
      | (Inr user, a1) \<Rightarrow>
          if \<not> VerifyPassword B (User_PasswordHash user) password
          then refuse 401 ''invalid credentials'' ''Invalid email or password'' a1
          else case on_store (CreateSession (User_ID user)) a1 of
            (Inl e, a2) \<Rightarrow> refuse 500 ''session creation failed'' ''Login failed. Please try again.'' a2
          | (Inr session, a2) \<Rightarrow>
              ((http_Redirect (resolvePostLoginRedirect nextPath))\<lparr>rs_cookies := [sessionCookie p r session]\<rparr>, a2))"

definition loginHandler ::
  "login_json \<Rightarrow> bcrypt_lib \<Rightarrow> CookieSecurityPolicy \<Rightarrow> bool \<Rightarrow> handler" where
  "loginHandler J B p trustProxyHeaders r a =
     (let jsonRequest = isJSONLoginRequest r in
      case limit_request (ap_login a) (rateLimitKeyForRequest r trustProxyHeaders ''login'') of
        ((allowed, retryAfter), l) \<Rightarrow>
      let a0 = a\<lparr>ap_login := l\<rparr> in
      if \<not> allowed then
        if jsonRequest then (writeRateLimitedJSON retryAfter ''too many login attempts'', a0)
        else (case writeLoginPage p r 429 (trimSpace (rq_form r ''email''))
                ''Too many login attempts. Please try again shortly.'' (trimSpace (rq_form r ''next'')) a0 of
                (resp, a1) \<Rightarrow> (resp\<lparr>rs_retry_after := Some (retrySeconds retryAfter)\<rparr>, a1))
      else if \<not> validateCSRF r then
        if jsonRequest then (writeJSONError 403 (Msg ''csrf token invalid''), a0)
        else writeLoginPage p r 403 [] ''Session expired. Please try again.'' (trimSpace (rq_form r ''next'')) a0
      else case parseLoginCredentials J r jsonRequest of
        None \<Rightarrow>
          if jsonRequest then (writeJSONError 400 (Msg ''invalid login form''), a0)
          else writeLoginPage p r 400 [] ''Invalid login request.'' (trimSpace (rq_query r ''next'')) a0
      | Some (email, password, nextPath) \<Rightarrow>
          if email = [] \<or> password = [] then
            if jsonRequest then (writeJSONError 400 (Msg ''email and password are required''), a0)
            else writeLoginPage p r 400 email ''Email and password are required.'' nextPath a0
          else signIn B p r jsonRequest email password nextPath a0)"

definition logoutHandler :: "CookieSecurityPolicy \<Rightarrow> handler" where
  "logoutHandler p r a =
     (if \<not> rq_form_ok r then (writeJSONError 400 (Msg ''invalid logout form''), a)
      else if \<not> validateCSRF r then (writeJSONError 403 (Msg ''csrf token invalid''), a)
      else
        let a1 = (case request_Cookie r sessionCookieName of
                    None \<Rightarrow> a | Some v \<Rightarrow> snd (on_store (DeleteSession v) a))
        in ((http_Redirect ''/login'')\<lparr>rs_cookies :=
              [\<lparr>ck_name = sessionCookieName, ck_value = [], ck_httponly = True, ck_secure = CookieSecure p r,
                ck_expires = None, ck_maxage = -1\<rparr>]\<rparr>, a1))"

section \<open>Where a sign-in leads\<close>

text \<open>
  After signing in the browser is only ever sent to a path of this server: whatever the
  request names, the target starts with one slash and not with two, and is not the sign-in page
  itself; a target of that kind is followed as it is, everything else leads to the map.
\<close>

theorem login_redirect_is_local:
  "Sublist.prefix ''/'' (resolvePostLoginRedirect p) \<and> \<not> Sublist.prefix ''//'' (resolvePostLoginRedirect p) \<and>
   \<not> Sublist.prefix ''/login'' (resolvePostLoginRedirect p) \<and>
   (resolvePostLoginRedirect p = trimSpace p \<or> resolvePostLoginRedirect p = ''/ui/map'') \<and>
   (Sublist.prefix ''/'' (trimSpace p) \<and> \<not> Sublist.prefix ''//'' (trimSpace p) \<and> \<not> Sublist.prefix ''/login'' (trimSpace p) \<longrightarrow>
      resolvePostLoginRedirect p = trimSpace p)"
  by (auto simp: resolvePostLoginRedirect_def Let_def)

theorem login_redirect_is_local_witness:
  "resolvePostLoginRedirect ''/ui/status'' = ''/ui/status''"
proof -
  have "trimSpace ''/ui/status'' = ''/ui/status''" by (rule trimSpace_graphic) (simp_all add: graphic_def)
  then show ?thesis using login_redirect_is_local [of "''/ui/status''"] by simp
qed

text \<open>
  A backslash after the slash is let through as well; browsers read it as a second slash and leave
  the server.
\<close>

lemma backslash_redirect: "resolvePostLoginRedirect (''/'' @ [CHR 0x5C] @ ''evil.example'') = ''/'' @ [CHR 0x5C] @ ''evil.example''"
proof -
  have "trimSpace (''/'' @ [CHR 0x5C] @ ''evil.example'') = ''/'' @ [CHR 0x5C] @ ''evil.example''"
    by (rule trimSpace_graphic) (simp_all add: graphic_def)
  then show ?thesis by (simp add: resolvePostLoginRedirect_def Let_def)
qed

section \<open>What a sign-in does\<close>

lemma on_store_reads: "reads m \<Longrightarrow> on_store m a = (r, a') \<Longrightarrow> tables (ap_store a') = tables (ap_store a)"
  by (auto simp: on_store_def split: prod.splits dest: reads_tables)

lemma account_reads: "reads (GetUserByID i)" "reads (GetUserByEmail e)" "reads ListUsers" "reads (rand_Read n)"
  by (intro readsI keeps_intros)+

lemma GetUserByID_success:
  assumes "GetUserByID i d = (Inr u, d')"
  shows "\<exists>row \<in> set (users (tables d)). u_id row = i \<and> scanUser row = Inr u"
  using assms
  by (auto simp: GetUserByID_def bindE_eq_Inr find_Some_iff split: if_splits option.splits dest!: query_tables)
    (metis nth_mem)

lemma select_user_by_email_Some:
  assumes "select_user_by_email e t = Some i"
  shows "\<exists>row \<in> set (users t). map_option toLower (u_email row) = Some e \<and> u_id row = i"
proof -
  let ?xs = "sort_key u_id (filter (\<lambda>r. map_option toLower (u_email r) = Some e) (users t))"
  obtain r rs where xs: "?xs = r # rs" and i: "i = u_id r"
    using assms by (auto simp: select_user_by_email_def split: list.splits)
  have "r \<in> set ?xs" unfolding xs by simp
  then show ?thesis using i by auto
qed

lemma GetUserByEmail_success:
  assumes "GetUserByEmail e d = (Inr u, d')" and "db_inv (tables d)"
  shows "\<exists>row \<in> set (users (tables d)). map_option toLower (u_email row) = Some (toLower (trimSpace e)) \<and> scanUser row = Inr u"
proof -
  from assms(1) obtain i d1 where i: "select_user_by_email (toLower (trimSpace e)) (tables d) = Some i"
    and t: "tables d1 = tables d" and u: "GetUserByID i d1 = (Inr u, d')"
    by (auto simp: GetUserByEmail_def Let_def bindE_eq_Inr split: if_splits option.splits dest!: query_tables)
  obtain row where row: "row \<in> set (users (tables d))" "map_option toLower (u_email row) = Some (toLower (trimSpace e))"
    "u_id row = i"
    using select_user_by_email_Some [OF i] by blast
  obtain row' where row': "row' \<in> set (users (tables d))" "u_id row' = i" "scanUser row' = Inr u"
    using GetUserByID_success [OF u] t by auto
  have "distinct (map u_id (users (tables d)))" using assms(2) by (simp add: db_inv_def users_ok_def)
  then have "row = row'" using row(1,3) row'(1,2) by (auto simp: distinct_map inj_on_def)
  with row row' show ?thesis by blast
qed

text \<open>A page or an error never signs anyone in.\<close>

definition not_signed_in :: "app \<Rightarrow> Response \<times> app \<Rightarrow> bool" where
  "not_signed_in a out \<longleftrightarrow>
     tables (ap_store (snd out)) = tables (ap_store a) \<and> rs_status (fst out) \<noteq> 303 \<and>
     (\<forall>c \<in> set (rs_cookies (fst out)). ck_name c \<noteq> sessionCookieName)"

lemma writeJSONError_not_signed_in:
  "code \<noteq> 303 \<Longrightarrow> tables (ap_store b) = tables (ap_store a) \<Longrightarrow> not_signed_in a (writeJSONError code m, b)"
  by (simp add: not_signed_in_def writeJSONError_def writeJSON_def)

lemma writeLoginPage_not_signed_in:
  assumes "code \<noteq> 303" and "tables (ap_store b) = tables (ap_store a)"
  shows "not_signed_in a (writeLoginPage p r code email m nx b)"
proof -
  obtain tok cs b' where e: "ensureCSRFCookie p r b = ((tok, cs), b')" by (metis surj_pair)
  have "tables (ap_store b') = tables (ap_store b)"
    using e on_store_reads [OF account_reads(4) [of 16], of b]
    by (auto simp: ensureCSRFCookie_def Let_def split: if_splits prod.splits sum.splits)
  moreover have "\<forall>c \<in> set cs. ck_name c = csrfCookieName"
    using e by (auto simp: ensureCSRFCookie_def Let_def split: if_splits prod.splits sum.splits)
  ultimately show ?thesis
    using assms e by (auto simp: not_signed_in_def writeLoginPage_def writeJSON_def csrfCookieName_def sessionCookieName_def)
qed

lemma not_signed_in_retry:
  "not_signed_in a (resp, b) \<Longrightarrow> not_signed_in a (resp\<lparr>rs_retry_after := x\<rparr>, b)"
  by (simp add: not_signed_in_def)

definition signed_in :: "bcrypt_lib \<Rightarrow> CookieSecurityPolicy \<Rightarrow> Request \<Rightarrow> string \<Rightarrow> string \<Rightarrow> app \<Rightarrow> Response \<times> app \<Rightarrow> bool" where
  "signed_in B p r email password a out \<longleftrightarrow>
     (\<exists>row u s.
        row \<in> set (users (tables (ap_store a))) \<and> map_option toLower (u_email row) = Some (toLower (trimSpace email)) \<and>
        scanUser row = Inr u \<and> VerifyPassword B (User_PasswordHash u) password \<and> Session_UserID s = User_ID u \<and>
        tables (ap_store (snd out)) = (tables (ap_store a))\<lparr>sessions := sessions (tables (ap_store a)) @
          [\<lparr>s_token = Session_Token s, s_user_id = User_ID u, s_expires_at = fmt_RFC3339Nano (Session_ExpiresAt s),
            s_created_at = fmt_RFC3339Nano (Session_CreatedAt s)\<rparr>]\<rparr> \<and>
        rs_status (fst out) = 303 \<and> rs_cookies (fst out) = [sessionCookie p r s])"

lemma signIn_outcome:
  assumes "db_inv (tables (ap_store a))"
  shows "not_signed_in a (signIn B p r json email password nx a) \<or>
    signed_in B p r email password a (signIn B p r json email password nx a)"
proof -
  obtain r1 a1 where 1: "on_store (GetUserByEmail email) a = (r1, a1)" by fastforce
  have t1: "tables (ap_store a1) = tables (ap_store a)" by (rule on_store_reads [OF account_reads(2) 1])
  note refuse = writeJSONError_not_signed_in [of _ _ a] writeLoginPage_not_signed_in [of _ _ a]
  show ?thesis
  proof (cases r1)
    case (Inl e)
    with 1 t1 show ?thesis by (simp add: signIn_def Let_def refuse)
  next
    case (Inr u)
    show ?thesis
    proof (cases "VerifyPassword B (User_PasswordHash u) password")
      case False
      with 1 Inr t1 show ?thesis by (simp add: signIn_def Let_def refuse)
    next
      case ok: True
      obtain r2 a2 where 2: "on_store (CreateSession (User_ID u)) a1 = (r2, a2)" by fastforce
      obtain d2 where d2: "CreateSession (User_ID u) (ap_store a1) = (r2, d2)" and a2: "ap_store a2 = d2"
        using 2 by (auto simp: on_store_def split: prod.splits)
      show ?thesis
      proof (cases r2)
        case (Inl e)
        have "tables d2 = tables (ap_store a1)"
          using d2 Inl by (auto simp: CreateSession_def Let_def bindE_def generateSessionToken_def rand_Read_def time_Now_def
              returnE_def throwE_def split: if_splits option.splits sum.splits prod.splits dest!: exec_error)
        with 1 2 Inl \<open>r1 = Inr u\<close> ok t1 a2 show ?thesis by (simp add: signIn_def Let_def refuse)
      next
        case (Inr s)
        obtain d1 where d1: "GetUserByEmail email (ap_store a) = (Inr u, d1)" and "ap_store a1 = d1"
          using 1 \<open>r1 = Inr u\<close> by (auto simp: on_store_def split: prod.splits)
        obtain row where row: "row \<in> set (users (tables (ap_store a)))"
          "map_option toLower (u_email row) = Some (toLower (trimSpace email))" "scanUser row = Inr u"
          using GetUserByEmail_success [OF d1 assms] by blast
        obtain fk now where s: "Session_UserID s = User_ID u" and
          ins: "insert_session \<lparr>s_token = Session_Token s, s_user_id = User_ID u,
             s_expires_at = fmt_RFC3339Nano (Session_ExpiresAt s),
             s_created_at = fmt_RFC3339Nano (Session_CreatedAt s)\<rparr> fk now (tables (ap_store a1)) = Inr ((), tables d2)"
          using CreateSession_success [OF d2 [unfolded Inr]] by metis
        have "signed_in B p r email password a
            ((http_Redirect (resolvePostLoginRedirect nx))\<lparr>rs_cookies := [sessionCookie p r s]\<rparr>, a2)"
          unfolding signed_in_def
          by (rule exI [of _ row], rule exI [of _ u], rule exI [of _ s])
            (use row ok s insert_session_row [OF ins] t1 a2 in \<open>simp add: http_Redirect_def writeJSON_def\<close>)
        with 1 2 Inr \<open>r1 = Inr u\<close> ok show ?thesis by (simp add: signIn_def Let_def)
      qed
    qed
  qed
qed

text \<open>
  Claim C6. A session comes only from the right password. Either the answer to a sign-in signs nobody
  in (no session cookie, no redirect, and the database is as it was), or all of this holds: the rate
  limiter let the request through, its CSRF token matched the cookie, the address is that of an account, the
  password compares to the account's hash, exactly one session row was added, for that account, and the
  only cookie of the answer carries its token.
\<close>

theorem sign_in_needs_password:
  assumes "db_inv (tables (ap_store a))" and "loginHandler J B p trust r a = (resp, a')"
  shows "not_signed_in a (resp, a') \<or>
    (\<exists>email password nx. fst (fst (limit_request (ap_login a) (rateLimitKeyForRequest r trust ''login''))) \<and>
       validateCSRF r \<and> parseLoginCredentials J r (isJSONLoginRequest r) = Some (email, password, nx) \<and>
       signed_in B p r email password a (resp, a'))"
proof -
  let ?json = "isJSONLoginRequest r"
  obtain allowed retryAfter l where l: "limit_request (ap_login a) (rateLimitKeyForRequest r trust ''login'') = ((allowed, retryAfter), l)"
    by (metis surj_pair)
  let ?a = "a\<lparr>ap_login := l\<rparr>"
  note refuse = writeJSONError_not_signed_in [of _ _ a] writeLoginPage_not_signed_in [of _ _ a]
  show ?thesis
  proof (cases "allowed \<and> validateCSRF r")
    case False
    have "not_signed_in a (case writeLoginPage p r 429 e m n ?a of (resp, a1) \<Rightarrow> (resp\<lparr>rs_retry_after := x\<rparr>, a1))" for e m n x
    proof -
      obtain resp1 a1 where w: "writeLoginPage p r 429 e m n ?a = (resp1, a1)" by fastforce
      have "not_signed_in a (resp1, a1)" using refuse(2) [of 429 ?a p r e m n] w by simp
      from not_signed_in_retry [OF this] w show ?thesis by simp
    qed
    moreover have "not_signed_in a (writeRateLimitedJSON retryAfter m, ?a)" for m
      unfolding writeRateLimitedJSON_def by (intro not_signed_in_retry refuse) simp_all
    ultimately have "not_signed_in a (loginHandler J B p trust r a)"
      using l False by (auto simp: loginHandler_def Let_def refuse)
    with assms(2) show ?thesis by simp
  next
    case True
    show ?thesis
    proof (cases "\<exists>email password nx. parseLoginCredentials J r ?json = Some (email, password, nx) \<and> email \<noteq> [] \<and> password \<noteq> []")
      case False
      then have "not_signed_in a (loginHandler J B p trust r a)"
        using l True by (auto simp: loginHandler_def Let_def refuse split: option.splits)
      with assms(2) show ?thesis by simp
    next
      case ok: True
      then obtain email password nx where c: "parseLoginCredentials J r ?json = Some (email, password, nx)" "email \<noteq> []" "password \<noteq> []"
        by blast
      have eq: "signIn B p r ?json email password nx ?a = (resp, a')"
        using assms(2) l True c by (simp add: loginHandler_def Let_def)
      have "db_inv (tables (ap_store ?a))" using assms(1) by simp
      from signIn_outcome [OF this, of B p r ?json email password nx]
      have "not_signed_in ?a (resp, a') \<or> signed_in B p r email password ?a (resp, a')"
        unfolding eq .
      then have "not_signed_in a (resp, a') \<or> signed_in B p r email password a (resp, a')"
        by (simp only: not_signed_in_def signed_in_def ap_store_set)
      with l True c(1) show ?thesis by (simp only: fst_conv) blast
    qed
  qed
qed

definition sign_in_request :: Request where
  "sign_in_request =
     \<lparr>rq_header = (\<lambda>h. if h = ''X-CSRF-Token'' then ''t'' else []), rq_cookies = [(csrfCookieName, ''t'')],
      rq_query = (\<lambda>_. []), rq_form = (\<lambda>f. if f = ''email'' then ''a@b'' else ''secret''), rq_form_ok = True,
      rq_path = ''/login'', rq_rawquery = [], rq_pathvalue = (\<lambda>_. []), rq_remote = ''10.0.0.1:5'', rq_tls = True,
      rq_body = None, rq_user = None, rq_device = None\<rparr>"

definition sample_bcrypt :: bcrypt_lib where
  "sample_bcrypt = \<lparr>bcrypt_Generate = (\<lambda>salt pw. Some (''h'' @ pw)), bcrypt_Compare = (\<lambda>h pw. h = ''h'' @ pw)\<rparr>"

definition sample_policy :: CookieSecurityPolicy where
  "sample_policy = \<lparr>SecureMode = ''auto'', TrustProxyHeaders = False\<rparr>"

definition account_db :: dbstate where
  "account_db = accounts_db\<lparr>tables := empty_tables\<lparr>users :=
     [\<lparr>u_id = 1, u_name = ''a'', u_email = Some ''a@b'', u_password_hash = ''hsecret'', u_is_admin = 0,
       u_created_at = fmt_RFC3339Nano second, u_updated_at = fmt_RFC3339Nano second\<rparr>], last_user_id := 1\<rparr>\<rparr>"

lemma account_db_inv: "db_inv (tables (ap_store (sample_app account_db)))"
  by (simp add: sample_app_def account_db_def db_inv_def db_inv_defs empty_tables_def indexed_emails_def
      indexed_hashes_def indexed_email_def List.map_filter_simps) code_simp

lemma sample_sign_in_status:
  "rs_status (fst (loginHandler (\<lambda>_. None) sample_bcrypt sample_policy False sign_in_request (sample_app account_db))) = 303"
  by code_simp

theorem sign_in_needs_password_witness:
  "\<exists>email password. signed_in sample_bcrypt sample_policy sign_in_request email password (sample_app account_db)
     (loginHandler (\<lambda>_. None) sample_bcrypt sample_policy False sign_in_request (sample_app account_db))"
proof -
  let ?out = "loginHandler (\<lambda>_. None) sample_bcrypt sample_policy False sign_in_request (sample_app account_db)"
  have "?out = (fst ?out, snd ?out)" by simp
  from sign_in_needs_password [OF account_db_inv this] sample_sign_in_status
  show ?thesis unfolding not_signed_in_def by auto
qed

section \<open>What a session lets through\<close>

lemma GetSession_success:
  assumes "GetSession tok d = (Inr s, d')"
  shows "tables d' = tables d \<and>
    (\<exists>row \<in> set (sessions (tables d)). s_token row = trimSpace tok \<and> scanSession row = Inr s \<and>
       dbclock d (dbticks d) < Session_ExpiresAt s)"
proof -
  let ?q = "query (\<lambda>t. case find (\<lambda>r. s_token r = trimSpace tok) (sessions t) of
                            None \<Rightarrow> Inl ErrSessionNotFound | Some r \<Rightarrow> Inr r)"
  obtain row d1 where q: "?q d = (Inr row, d1)" and s: "scanSession row = Inr s"
    and live: "dbclock d1 (dbticks d1) < Session_ExpiresAt s" and d': "tables d' = tables d1"
    using assms
    by (auto simp: GetSession_def Let_def bindE_eq_Inr fromE_def time_Now_def expireSession_def split: if_splits prod.splits)
  have "dbclock d1 = dbclock d" "dbticks d1 = dbticks d"
    using q by (auto simp: query_def exec_def Let_def split: if_splits sum.splits option.splits)
  moreover from query_tables [OF q] have "find (\<lambda>r. s_token r = trimSpace tok) (sessions (tables d)) = Some row" "tables d1 = tables d"
    by (auto split: option.splits)
  ultimately show ?thesis using s live d' by (auto simp: find_Some_iff intro!: bexI [of _ row])
qed

text \<open>Removing sessions is the only thing a lookup may do to the tables.\<close>

definition sessions_dropped :: "tables \<Rightarrow> tables \<Rightarrow> bool" where
  "sessions_dropped t t' \<longleftrightarrow> (\<exists>P. t' = t\<lparr>sessions := filter P (sessions t)\<rparr>)"

lemma sessions_dropped_refl: "sessions_dropped t t"
  unfolding sessions_dropped_def by (rule exI [of _ "\<lambda>_. True"]) simp

lemma sessions_dropped_trans:
  assumes "sessions_dropped t u" and "sessions_dropped u v"
  shows "sessions_dropped t v"
proof -
  obtain P where u: "u = t\<lparr>sessions := filter P (sessions t)\<rparr>" using assms(1) by (auto simp: sessions_dropped_def)
  obtain Q where v: "v = u\<lparr>sessions := filter Q (sessions u)\<rparr>" using assms(2) by (auto simp: sessions_dropped_def)
  show ?thesis unfolding sessions_dropped_def
    by (rule exI [of _ "\<lambda>x. P x \<and> Q x"]) (simp add: v u)
qed

lemma keeps_sessions_dropped:
  "keeps (sessions_dropped t) (DeleteSession tok)" "keeps (sessions_dropped t) (GetSession tok)"
proof -
  show del: "keeps (sessions_dropped t) (DeleteSession tok)" for tok
    unfolding DeleteSession_def Let_def
  proof (intro keeps_intros keeps_exec)
    fix fk now u x u' assume "delete_session (trimSpace tok) fk now u = Inr (x, u')" and "sessions_dropped t u"
    moreover from this have "sessions_dropped u u'" by (auto simp: delete_session_def sessions_dropped_def)
    ultimately show "sessions_dropped t u'" using sessions_dropped_trans by blast
  qed
  have "keeps (sessions_dropped t) (expireSession k)" for k
    using del [of k] by (auto simp: keeps_def expireSession_def split: prod.splits)
  then show "keeps (sessions_dropped t) (GetSession tok)"
    unfolding GetSession_def Let_def by (intro keeps_intros)
qed

lemma on_store_keeps:
  "keeps P m \<Longrightarrow> P (tables (ap_store a)) \<Longrightarrow> on_store m a = (x, b) \<Longrightarrow> P (tables (ap_store b)) \<and> b = set_store (ap_store b) a"
  by (auto simp: on_store_def split: prod.splits dest: keepsD)

lemma session_guard:
  assumes "rq_user r = None" and "LoadCurrentUserFromSession (RequireUserSessionAuth h) r a = (resp, a')"
  shows "(resp = writeJSONError 401 (Msg ''authentication required'') \<and> a' = set_store (ap_store a') a \<and>
      sessions_dropped (tables (ap_store a)) (tables (ap_store a'))) \<or>
    (\<exists>v row s u d. request_Cookie r sessionCookieName = Some v \<and> row \<in> set (sessions (tables (ap_store a))) \<and>
       s_token row = trimSpace v \<and> scanSession row = Inr s \<and>
       dbclock (ap_store a) (dbticks (ap_store a)) < Session_ExpiresAt s \<and> 0 < User_ID u \<and> User_ID u = s_user_id row \<and>
       (\<exists>urow \<in> set (users (tables (ap_store a))). u_id urow = s_user_id row \<and> scanUser urow = Inr u) \<and>
       tables d = tables (ap_store a) \<and> h (r\<lparr>rq_user := Some u\<rparr>) (set_store d a) = (resp, a'))"
proof -
  have stop: "?thesis" if "(resp, a') = RequireUserSessionAuth h r b" and "b = set_store (ap_store b) a"
    and "sessions_dropped (tables (ap_store a)) (tables (ap_store b))" for b
    using that assms(1) by (simp add: RequireUserSessionAuth_def)
  have same: "a = set_store (ap_store a) a" by (simp add: set_store_def ap_store_def)
  note start = sessions_dropped_refl [of "tables (ap_store a)"]
  show ?thesis
  proof (cases "request_Cookie r sessionCookieName")
    case None
    with assms(2) stop [of a] same start show ?thesis by (simp add: LoadCurrentUserFromSession_def)
  next
    case (Some v)
    show ?thesis
    proof (cases "trimSpace v = []")
      case True
      with Some assms(2) stop [of a] same start show ?thesis by (simp add: LoadCurrentUserFromSession_def)
    next
      case False
      obtain x a1 where 1: "on_store (GetSession (trimSpace v)) a = (x, a1)" by fastforce
      note k1 = on_store_keeps [OF keeps_sessions_dropped(2) start 1]
      show ?thesis
      proof (cases x)
        case (Inl e)
        with 1 Some False assms(2) stop [of a1] k1 show ?thesis by (simp add: LoadCurrentUserFromSession_def Let_def)
      next
        case (Inr s)
        obtain y a2 where 2: "on_store (GetUserByID (Session_UserID s)) a1 = (y, a2)" by fastforce
        have k2: "sessions_dropped (tables (ap_store a)) (tables (ap_store a2)) \<and> a2 = set_store (ap_store a2) a1"
          by (rule on_store_keeps [OF _ _ 2]) (use k1 account_reads(1) in \<open>simp_all add: reads_def\<close>)
        show ?thesis
        proof (cases y)
          case (Inl e)
          obtain z a3 where 3: "on_store (DeleteSession (trimSpace v)) a2 = (z, a3)" by fastforce
          have "sessions_dropped (tables (ap_store a)) (tables (ap_store a3)) \<and> a3 = set_store (ap_store a3) a2"
            by (rule on_store_keeps [OF keeps_sessions_dropped(1) _ 3]) (use k2 in simp)
          moreover from this k1 k2 have "a3 = set_store (ap_store a3) a" by (metis ap_store_set(4))
          ultimately show ?thesis
            using stop [of a3] 1 2 3 Inl Some False assms(2) \<open>x = Inr s\<close>
            by (simp add: LoadCurrentUserFromSession_def Let_def)
        next
          case u: (Inr u)
          obtain d1 where d1: "GetSession (trimSpace v) (ap_store a) = (Inr s, d1)" "ap_store a1 = d1"
            using 1 Inr by (auto simp: on_store_def split: prod.splits)
          obtain d2 where d2: "GetUserByID (Session_UserID s) d1 = (Inr u, d2)" "ap_store a2 = d2"
            using 2 u d1(2) by (auto simp: on_store_def split: prod.splits)
          obtain row where row: "row \<in> set (sessions (tables (ap_store a)))" "s_token row = trimSpace v"
            "scanSession row = Inr s" "dbclock (ap_store a) (dbticks (ap_store a)) < Session_ExpiresAt s"
            and t1: "tables d1 = tables (ap_store a)"
            using GetSession_success [OF d1(1)] by auto
          have sid: "Session_UserID s = s_user_id row" using row(3) by (auto simp: scanSession_def split: sum.splits)
          obtain urow where urow: "urow \<in> set (users (tables d1))" "u_id urow = Session_UserID s" "scanUser urow = Inr u"
            using GetUserByID_success [OF d2(1)] by blast
          have uid: "User_ID u = u_id urow" using urow(3) by (auto simp: scanUser_def split: option.splits sum.splits)
          have "0 < Session_UserID s" using d2(1) by (auto simp: GetUserByID_def split: if_splits)
          moreover have "tables d2 = tables d1" by (rule reads_tables [OF account_reads(1) d2(1)])
          moreover have "h (r\<lparr>rq_user := Some u\<rparr>) a2 = (resp, a')"
            using 1 2 Inr u Some False assms(2) by (simp add: LoadCurrentUserFromSession_def Let_def RequireUserSessionAuth_def)
          moreover have "a2 = set_store d2 a" using k1 k2 d2(2) by (metis ap_store_set(4))
          moreover have "\<exists>urow \<in> set (users (tables (ap_store a))). u_id urow = s_user_id row \<and> scanUser urow = Inr u"
            using urow t1 sid by auto
          ultimately show ?thesis using Some row t1 sid uid urow(2) by (metis (no_types, lifting))
        qed
      qed
    qed
  qed
qed

end
