(* ===== verification/ApiPoints.thy ===== *)
theory ApiPoints
  imports Login
begin

text \<open>
  The read endpoints for points: \<^verbatim>\<open>internal/api/points.go\<close> (pages, the recent points, the thinning of a page) and
  \<^verbatim>\<open>internal/api/exports.go\<close> (the two export formats, of which the model keeps the points that are
  emitted and whether the stream was cut short). The device store is there: the routes are only registered
  with one.
\<close>

section \<open>Parameters of a request\<close>

definition parseOptionalDeviceIDParam :: "string \<Rightarrow> message + int option" where
  "parseOptionalDeviceIDParam raw =
     (let trimmed = trimSpace raw in
      if trimmed = [] then Inr None
      else case parseInt64 trimmed of
        None \<Rightarrow> Inl (Msg (''device_id must be a positive integer: '' @ trimmed))
      | Some n \<Rightarrow> if n \<le> 0 then Inl (Msg (''device_id must be a positive integer: '' @ trimmed)) else Inr (Some n))"

definition parseOptionalRFC3339Param :: "string \<Rightarrow> message + gotime option" where
  "parseOptionalRFC3339Param raw =
     (let v = trimSpace raw in
      if v = [] then Inr None
      else case parse_RFC3339Nano v of
        None \<Rightarrow> Inl (Msg (''timestamp must be RFC3339: '' @ v))
      | Some t \<Rightarrow> Inr (Some t))"

definition parseOptionalLimitParamWithMax :: "Request \<Rightarrow> int \<Rightarrow> int \<Rightarrow> message + int" where
  "parseOptionalLimitParamWithMax r fallback maxAllowed =
     (let limitParam = trimSpace (rq_query r ''limit'') in
      if limitParam = [] then Inr fallback
      else case parseInt64 limitParam of
        None \<Rightarrow> Inl (Msg (''limit must be a positive integer: '' @ limitParam))
      | Some parsed \<Rightarrow>
          if parsed \<le> 0 then Inl (Msg (''limit must be a positive integer: '' @ limitParam))
          else if maxAllowed > 0 \<and> parsed > maxAllowed then Inr maxAllowed else Inr parsed)"

definition parseOptionalLimitParam :: "Request \<Rightarrow> int \<Rightarrow> message + int" where
  "parseOptionalLimitParam r fallback = parseOptionalLimitParamWithMax r fallback 0"

definition parseOptionalCursorParam :: "Request \<Rightarrow> message + uint64" where
  "parseOptionalCursorParam r =
     (let raw = trimSpace (rq_query r ''cursor'') in
      if raw = [] then Inr 0
      else case parseUint64 raw of
        None \<Rightarrow> Inl (Msg (''cursor must be a positive integer: '' @ raw))
      | Some n \<Rightarrow> if n = 0 then Inl (Msg (''cursor must be a positive integer: '' @ raw)) else Inr n)"

definition parseOptionalBoolParam :: "string \<Rightarrow> bool" where
  "parseOptionalBoolParam raw = (toLower (trimSpace raw) \<in> set [''1'', ''true'', ''yes'', ''on''])"

definition parseOptionalMaxPointsParam :: "Request \<Rightarrow> int \<Rightarrow> int \<Rightarrow> message + int" where
  "parseOptionalMaxPointsParam r fallback maxAllowed =
     (let maxPointsParam = trimSpace (rq_query r ''max_points'') in
      if maxPointsParam = [] then Inr fallback
      else case parseInt64 maxPointsParam of
        None \<Rightarrow> Inl (Msg (''max_points must be a positive integer: '' @ maxPointsParam))
      | Some parsed \<Rightarrow>
          if parsed \<le> 0 then Inl (Msg (''max_points must be a positive integer: '' @ maxPointsParam))
          else if parsed > maxAllowed then Inr maxAllowed else Inr parsed)"

definition exportFilterFromRequest :: "Request \<Rightarrow> message + ExportPointFilter" where
  "exportFilterFromRequest r =
     (case parseOptionalDeviceIDParam (rq_query r ''device_id'') of
        Inl e \<Rightarrow> Inl e
      | Inr device \<Rightarrow>
          (case parseOptionalRFC3339Param (rq_query r ''from'') of
             Inl e \<Rightarrow> Inl e
           | Inr fromUTC \<Rightarrow>
               (case parseOptionalRFC3339Param (rq_query r ''to'') of
                  Inl e \<Rightarrow> Inl e
                | Inr toUTC \<Rightarrow>
                    Inr \<lparr>F_DeviceRowID = device, F_FromUTC = fromUTC, F_ToUTC = toUTC,
                         F_AfterSeq = 0, F_UserID = 0\<rparr>)))"

section \<open>The devices of the current user\<close>

datatype ownershipError = errAuthRequired | errDeviceLookupFailed

definition httpStatusFromOwnershipError :: "ownershipError \<Rightarrow> int" where
  "httpStatusFromOwnershipError e = (case e of errAuthRequired \<Rightarrow> 401 | errDeviceLookupFailed \<Rightarrow> 500)"

definition ownership_message :: "ownershipError \<Rightarrow> message" where
  "ownership_message e =
     (case e of errAuthRequired \<Rightarrow> Msg ''authentication required'' | errDeviceLookupFailed \<Rightarrow> Msg ''device lookup failed'')"

definition currentUserAllowedDeviceIDs :: "Request \<Rightarrow> app \<Rightarrow> (ownershipError + int list) \<times> app" where
  "currentUserAllowedDeviceIDs r a =
     (case rq_user r of
        None \<Rightarrow> (Inl errAuthRequired, a)
      | Some currentUser \<Rightarrow>
          (case on_store ListDevices a of
             (Inl e, a1) \<Rightarrow> (Inl errDeviceLookupFailed, a1)
           | (Inr ds, a1) \<Rightarrow>
               (Inr (map Device_ID (filter (\<lambda>d. Device_UserID d = User_ID currentUser) ds)), a1)))"

section \<open>Thinning a page\<close>

text \<open>The loop of \<^verbatim>\<open>downsampleRecentPoints\<close>: \<open>i\<close> runs up to \<open>maxPts\<close>, \<open>prev\<close> is the last index taken.\<close>

fun downsampleLoop :: "'a list \<Rightarrow> float64 \<Rightarrow> int \<Rightarrow> nat \<Rightarrow> nat \<Rightarrow> 'a list" where
  "downsampleLoop pts step prev i 0 = []"
| "downsampleLoop pts step prev i (Suc k) =
     (let idx0 = \<lfloor>math_Round (real i * step)\<rfloor>;
          idx1 = (if idx0 \<le> prev then prev + 1 else idx0);
          idx = (if idx1 \<ge> int (length pts) then int (length pts) - 1 else idx1)
      in pts ! nat idx # downsampleLoop pts step idx (Suc i) k)"

definition downsampleRecentPoints :: "'a list \<Rightarrow> int \<Rightarrow> 'a list" where
  "downsampleRecentPoints pts maxPts =
     (if int (length pts) \<le> maxPts \<or> maxPts \<le> 0 then pts
      else if maxPts = 1 then [pts ! (length pts - 1)]
      else downsampleLoop pts (real (length pts - 1) / real_of_int (maxPts - 1)) (-1) 0 (nat maxPts))"

section \<open>Pages (points.go)\<close>

text \<open>The layout \<^verbatim>\<open>2006-01-02T15:04:05.000000000Z07:00\<close>: all nine digits of the fraction.\<close>

definition fmt_nine_digits :: "gotime \<Rightarrow> string" where
  "fmt_nine_digits t =
     (let day = t div (86400 * second); rest = t mod (86400 * second);
          sec = rest div second; ns = rest mod second;
          (y, m, d) = civil day
      in fmt_year y @ ''-'' @ pad_dec 2 (nat m) @ ''-'' @ pad_dec 2 (nat d) @ ''T'' @
         pad_dec 2 (nat (sec div 3600)) @ '':'' @ pad_dec 2 (nat (sec div 60 mod 60)) @ '':'' @
         pad_dec 2 (nat (sec mod 60)) @ ''.'' @ pad_dec 9 (nat ns) @ ''Z'')"

definition recentPointFromStore :: "RecentPoint \<Rightarrow> recentPointResponse" where
  "recentPointFromStore p =
     \<lparr>pr_seq = RP_Seq p, pr_device_id = RP_DeviceID p, pr_source_type = RP_SourceType p,
      pr_timestamp_utc = fmt_nine_digits (RP_TimestampUTC p), pr_lat = RP_Lat p, pr_lon = RP_Lon p\<rparr>"

definition empty_page :: pointsPageResponse where
  "empty_page = \<lparr>pp_points = [], pp_next_cursor = None, pp_sampled = False, pp_sampled_from = 0\<rparr>"

definition pageLimits :: "Request \<Rightarrow> bool \<Rightarrow> int \<Rightarrow> message + int \<times> int" where
  "pageLimits r simplify n =
     (if \<not> simplify then Inr (n, 1000)
      else case parseOptionalMaxPointsParam r 1000 5000 of
        Inl e \<Rightarrow> Inl e
      | Inr simplifiedMaxPoints \<Rightarrow>
          (case parseOptionalLimitParamWithMax r 5000 20000 of
             Inl e \<Rightarrow> Inl e | Inr n \<Rightarrow> Inr (n, simplifiedMaxPoints)))"

text \<open>The answer made of the points the store returned for \<open>n + 1\<close>.\<close>

definition pointsPage :: "RecentPoint list \<Rightarrow> int \<Rightarrow> bool \<Rightarrow> int \<Rightarrow> pointsPageResponse" where
  "pointsPage points0 n simplify simplifiedMaxPoints =
     (let hasMore = int (length points0) > n;
          points1 = (if hasMore then take (nat n) points0 else points0);
          originalCount = length points1;
          points2 = (if simplify then downsampleRecentPoints points1 simplifiedMaxPoints else points1);
          sampled = (simplify \<and> originalCount > length points2)
      in \<lparr>pp_points = map recentPointFromStore points2,
          pp_next_cursor = (if hasMore \<and> points2 \<noteq> [] then Some (RP_Seq (last points2)) else None),
          pp_sampled = sampled, pp_sampled_from = (if sampled then int originalCount else 0)\<rparr>)"

definition pointsQuery :: "ExportPointFilter \<Rightarrow> handler" where
  "pointsQuery f r a =
     (case parseOptionalLimitParamWithMax r 500 1000 of
        Inl e \<Rightarrow> (writeJSONError 400 e, a)
      | Inr n0 \<Rightarrow>
     (case parseOptionalCursorParam r of
        Inl e \<Rightarrow> (writeJSONError 400 e, a)
      | Inr cursor \<Rightarrow>
          let f1 = (if cursor > 0 then f\<lparr>F_AfterSeq := cursor\<rparr> else f);
              simplify = parseOptionalBoolParam (rq_query r ''simplify'')
          in (case pageLimits r simplify n0 of
                Inl e \<Rightarrow> (writeJSONError 400 e, a)
              | Inr (n, simplifiedMaxPoints) \<Rightarrow>
                  (case on_store (ListPoints f1 (n + 1)) a of
                     (Inl e, a1) \<Rightarrow> (writeJSONError 500 (MsgStore e), a1)
                   | (Inr points0, a1) \<Rightarrow>
                       (writeJSON 200 (PointsPageBody (pointsPage points0 n simplify simplifiedMaxPoints)), a1)))))"

definition pointsHandler :: handler where
  "pointsHandler r a =
     (case exportFilterFromRequest r of
        Inl e \<Rightarrow> (writeJSONError 400 e, a)
      | Inr f0 \<Rightarrow>
     (case rq_user r of
        None \<Rightarrow> (writeJSONError 401 (Msg ''authentication required''), a)
      | Some currentUser \<Rightarrow>
          let f = f0\<lparr>F_UserID := User_ID currentUser\<rparr> in
          (case F_DeviceRowID f of
             None \<Rightarrow> pointsQuery f r a
           | Some i \<Rightarrow>
               (case currentUserAllowedDeviceIDs r a of
                  (Inl e, a1) \<Rightarrow> (writeJSONError (httpStatusFromOwnershipError e) (ownership_message e), a1)
                | (Inr allowed, a1) \<Rightarrow>
                    if i \<notin> set allowed then (writeJSON 200 (PointsPageBody empty_page), a1)
                    else pointsQuery f r a1))))"

definition recentPointsHandler :: handler where
  "recentPointsHandler r a =
     (case parseOptionalDeviceIDParam (rq_query r ''device_id'') of
        Inl e \<Rightarrow> (writeJSONError 400 e, a)
      | Inr device \<Rightarrow>
     (case parseOptionalLimitParam r 50 of
        Inl e \<Rightarrow> (writeJSONError 400 e, a)
      | Inr n \<Rightarrow>
     (case rq_user r of
        None \<Rightarrow> (writeJSONError 401 (Msg ''authentication required''), a)
      | Some currentUser \<Rightarrow>
     (case currentUserAllowedDeviceIDs r a of
        (Inl e, a1) \<Rightarrow> (writeJSONError (httpStatusFromOwnershipError e) (ownership_message e), a1)
      | (Inr allowed, a1) \<Rightarrow>
          if (case device of None \<Rightarrow> False | Some i \<Rightarrow> i \<notin> set allowed)
          then (writeJSON 200 (RecentPointsBody []), a1)
          else (case on_store (ListRecentPoints device n) a1 of
                  (Inl e, a2) \<Rightarrow> (writeJSONError 500 (MsgStore e), a2)
                | (Inr points0, a2) \<Rightarrow>
                    (writeJSON 200 (RecentPointsBody (map recentPointFromStore
                       (filter (\<lambda>p. RP_DeviceID p \<in> set allowed \<and> RP_UserID p = User_ID currentUser) points0))), a2))))))"

section \<open>Exports (exports.go)\<close>

definition quoted :: "string \<Rightarrow> string" where "quoted s = CHR 0x22 # s @ [CHR 0x22]"

definition geojson_open :: chunk where
  "geojson_open = Raw (''{'' @ quoted ''type'' @ '':'' @ quoted ''FeatureCollection'' @ '','' @ quoted ''features'' @ '':['')"

definition gpx_open :: "chunk list" where
  "gpx_open =
     [Raw (''<?xml version='' @ quoted ''1.0'' @ '' encoding='' @ quoted ''UTF-8'' @ ''?>'' @ [newline]),
      Raw (''<gpx version='' @ quoted ''1.1'' @ '' creator='' @ quoted ''exploripi'' @ '' xmlns='' @
        quoted ''http://www.topografix.com/GPX/1/1'' @ ''>''),
      Raw ''<trk><name>exploripi-export</name><trkseg>'']"

text \<open>The first point of the export, if there is one: a stream of one row.\<close>

definition probeExportFirstPoint :: "ExportPointFilter \<Rightarrow> dbstate \<Rightarrow> (store_error + RecentPoint option) \<times> dbstate" where
  "probeExportFirstPoint f d =
     (case StreamPointsForExport f 1 (\<lambda>p s. (Inr (), Some p)) None d of
        (((count, Some e), s), d1) \<Rightarrow> (Inl e, d1)
      | (((count, None), s), d1) \<Rightarrow> (Inr s, d1))"

text \<open>
  The writers work on the flag \<open>first\<close> and on the text so far. The text goes to a buffer in memory
  here; a broken connection, which the Go code notices and logs, is not modelled.
\<close>

definition writeFeature :: "RecentPoint \<Rightarrow> bool \<times> chunk list \<Rightarrow> (store_error + unit) \<times> bool \<times> chunk list" where
  "writeFeature p s =
     (case s of (first, out) \<Rightarrow> (Inr (), (False, out @ (if first then [] else [Raw '','']) @ [Feature p])))"

definition writeTrackPoint :: "RecentPoint \<Rightarrow> bool \<times> chunk list \<Rightarrow> (store_error + unit) \<times> bool \<times> chunk list" where
  "writeTrackPoint p s = (case s of (first, out) \<Rightarrow> (Inr (), (first, out @ [TrackPoint p])))"

text \<open>
  From the first point to the end of the stream: the first row has been written already and is
  skipped. The result is the text and whether the stream failed.
\<close>

definition streamExport ::
  "(RecentPoint \<Rightarrow> bool \<times> chunk list \<Rightarrow> (store_error + unit) \<times> bool \<times> chunk list) \<Rightarrow>
   ExportPointFilter \<Rightarrow> int \<Rightarrow> RecentPoint \<Rightarrow> chunk list \<Rightarrow> dbstate \<Rightarrow> (chunk list \<times> bool) \<times> dbstate" where
  "streamExport emit f n firstPoint prolog d =
     (case StreamPointsForExport f n
             (\<lambda>p s. if RP_Seq p = RP_Seq firstPoint then (Inr (), s) else emit p s)
             (snd (emit firstPoint (True, prolog))) d of
        (((count, err), (first, out)), d1) \<Rightarrow> ((out, err \<noteq> None), d1))"

text \<open>The checks and the preflight that both handlers make, with the message and the two ways to answer.\<close>

definition exportHandler ::
  "string \<Rightarrow> body \<Rightarrow> (ExportPointFilter \<Rightarrow> int \<Rightarrow> RecentPoint \<Rightarrow> dbstate \<Rightarrow> body \<times> dbstate) \<Rightarrow> handler" where
  "exportHandler failure nothing stream r a =
     (case exportFilterFromRequest r of
        Inl e \<Rightarrow> (writeJSONError 400 e, a)
      | Inr f0 \<Rightarrow>
     (case rq_user r of
        None \<Rightarrow> (writeJSONError 401 (Msg ''authentication required''), a)
      | Some currentUser \<Rightarrow>
          let f = f0\<lparr>F_UserID := User_ID currentUser\<rparr>;
              answer = (\<lambda>a.
                case parseOptionalLimitParamWithMax r 5000 20000 of
                  Inl e \<Rightarrow> (writeJSONError 400 e, a)
                | Inr n \<Rightarrow>
                    (case on_store (probeExportFirstPoint f) a of
                       (Inl e, a1) \<Rightarrow> (writeJSONError 500 (Msg failure), a1)
                     | (Inr None, a1) \<Rightarrow> (writeJSON 200 nothing, a1)
                     | (Inr (Some firstPoint), a1) \<Rightarrow>
                         (case stream f n firstPoint (ap_store a1) of (b, d) \<Rightarrow> (writeJSON 200 b, set_store d a1))))
          in (case F_DeviceRowID f of
                None \<Rightarrow> answer a
              | Some i \<Rightarrow>
                  (case currentUserAllowedDeviceIDs r a of
                     (Inl e, a1) \<Rightarrow> (writeJSONError (httpStatusFromOwnershipError e) (ownership_message e), a1)
                   | (Inr allowed, a1) \<Rightarrow>
                       if i \<notin> set allowed then (writeJSONError 404 (Msg ''device not found''), a1) else answer a1))))"

definition geoJSONExportHandler :: handler where
  "geoJSONExportHandler =
     exportHandler ''failed to prepare geojson export'' (ExportBody [geojson_open, Raw '']}'', Raw [newline]] False)
       (\<lambda>f n firstPoint d. case streamExport writeFeature f n firstPoint [geojson_open] d of
          ((out, failed), d1) \<Rightarrow> (ExportBody (out @ [Raw '']}'']) failed, d1))"

definition gpxExportHandler :: handler where
  "gpxExportHandler =
     exportHandler ''failed to prepare gpx export'' (ExportBody [EmptyGPX] False)
       (\<lambda>f n firstPoint d. case streamExport writeTrackPoint f n firstPoint gpx_open d of
          ((out, failed), d1) \<Rightarrow> (ExportBody (out @ [Raw ''</trkseg></trk></gpx>'']) failed, d1))"

section \<open>Thinning\<close>

lemma math_Round_nonneg: "0 \<le> x \<Longrightarrow> \<lfloor>math_Round x\<rfloor> = \<lfloor>x + 1 / 2\<rfloor>"
  by (simp add: math_Round_def)

text \<open>
  With a step of at least one the rounded positions are strictly increasing and stay in the list,
  so the two corrections in the loop never fire.
\<close>

definition thinned_index :: "float64 \<Rightarrow> nat \<Rightarrow> int" where
  "thinned_index step i = \<lfloor>math_Round (real i * step)\<rfloor>"

lemma thinned_index_step:
  assumes "1 \<le> step"
  shows "thinned_index step i + 1 \<le> thinned_index step (Suc i)"
proof -
  have "real i * step + 1 / 2 + 1 \<le> real (Suc i) * step + 1 / 2" using assms by (simp add: algebra_simps)
  then have "\<lfloor>real i * step + 1 / 2\<rfloor> + 1 \<le> \<lfloor>real (Suc i) * step + 1 / 2\<rfloor>"
    unfolding one_add_floor by (rule floor_mono)
  then show ?thesis using assms by (simp only: thinned_index_def) (simp add: math_Round_nonneg)
qed

lemma thinned_index_mono:
  assumes "1 \<le> step" and "i < j"
  shows "thinned_index step i < thinned_index step j"
proof (rule lift_Suc_mono_less [OF _ assms(2)])
  show "thinned_index step n < thinned_index step (Suc n)" for n
    using thinned_index_step [OF assms(1), of n] by linarith
qed

lemma downsampleLoop_eq:
  assumes "1 \<le> step" and "\<forall>j < i + k. thinned_index step j < int (length pts)"
    and "prev < thinned_index step i"
  shows "downsampleLoop pts step prev i k = map (\<lambda>j. pts ! nat (thinned_index step j)) [i..<i + k]"
  using assms(2,3)
proof (induction k arbitrary: i prev)
  case (Suc k)
  have "thinned_index step i < thinned_index step (Suc i)" by (rule thinned_index_mono [OF assms(1)]) simp
  with Suc.IH [of "Suc i" "thinned_index step i"] Suc.prems
  have "downsampleLoop pts step (thinned_index step i) (Suc i) k =
      map (\<lambda>j. pts ! nat (thinned_index step j)) [Suc i..<Suc i + k]" by simp
  moreover have "\<not> thinned_index step i \<le> prev" "\<not> int (length pts) \<le> thinned_index step i"
    using Suc.prems by (simp_all add: not_le)
  moreover have "[i..<i + Suc k] = i # [Suc i..<Suc i + k]" by (simp add: upt_conv_Cons)
  ultimately show ?case by (simp add: Let_def thinned_index_def [symmetric])
qed simp

text \<open>
  Claim C30. Thinning a page of \<open>n\<close> points to \<open>m\<close>, with \<open>2 \<le> m < n\<close>, gives exactly \<open>m\<close> of its points, in their
  order and none of them twice, with the first and the last among them, and evenly spaced: the \<open>i\<close>-th is within half
  a position of \<open>i * (n - 1) / (m - 1)\<close>.
\<close>

theorem downsample_exact:
  assumes "2 \<le> m" and "m < int (length pts)"
  shows "\<exists>idx. downsampleRecentPoints pts m = map ((!) pts) idx \<and> length idx = nat m \<and>
    sorted_wrt (<) idx \<and> hd idx = 0 \<and> last idx = length pts - 1 \<and>
    (\<forall>i < length idx. \<bar>real (idx ! i) - real i * real (length pts - 1) / real_of_int (m - 1)\<bar> \<le> 1 / 2)"
proof -
  define step where "step = real (length pts - 1) / real_of_int (m - 1)"
  define idx where "idx = map (\<lambda>i. nat (thinned_index step i)) [0..<nat m]"
  have step: "1 \<le> step" using assms by (simp add: step_def of_nat_diff)
  have nn: "0 \<le> real i * step" for i using step by simp
  have top: "thinned_index step (nat m - 1) = int (length pts) - 1"
  proof -
    have "real (nat m - 1) = real_of_int (m - 1)" using assms by (simp add: of_nat_diff)
    then have "real (nat m - 1) * step = real (length pts - 1)" using assms by (simp add: step_def)
    then have "thinned_index step (nat m - 1) = \<lfloor>real (length pts - 1) + 1 / 2\<rfloor>"
      using nn [of "nat m - 1"] by (simp only: thinned_index_def math_Round_nonneg)
    also have "\<dots> = int (length pts - 1)" by linarith
    finally show ?thesis using assms by simp
  qed
  have below: "thinned_index step i < int (length pts)" if i: "i < nat m" for i
  proof (cases "i = nat m - 1")
    case False
    with i have "i < nat m - 1" by simp
    from thinned_index_mono [OF step this] top show ?thesis by simp
  qed (use top in simp)
  have zero: "thinned_index step 0 = 0" by (simp add: thinned_index_def math_Round_def)
  then have pos: "0 \<le> thinned_index step i" for i
    using thinned_index_mono [OF step, of 0 i] by (cases "i = 0") auto
  have "downsampleRecentPoints pts m = downsampleLoop pts step (- 1) 0 (nat m)"
    using assms by (simp add: downsampleRecentPoints_def step_def)
  also have "\<dots> = map ((!) pts) idx"
    using downsampleLoop_eq [OF step, of 0 "nat m" pts "- 1"] below zero by (simp add: idx_def)
  finally have run: "downsampleRecentPoints pts m = map ((!) pts) idx" .
  have len: "length idx = nat m" by (simp add: idx_def)
  have "sorted_wrt (<) idx"
    unfolding idx_def sorted_wrt_map
    by (rule sorted_wrt_mono_rel [OF _ sorted_wrt_upt])
      (use thinned_index_mono [OF step] pos in \<open>auto simp: nat_less_eq_zless simp del: zless_nat_conj\<close>)
  moreover have "hd idx = 0" "last idx = length pts - 1"
    using assms top zero by (simp_all add: idx_def hd_map last_map hd_upt)
  moreover have "\<bar>real (idx ! i) - real i * real (length pts - 1) / real_of_int (m - 1)\<bar> \<le> 1 / 2" if "i < length idx" for i
  proof -
    have "real (idx ! i) = of_int (thinned_index step i)" using that pos [of i] by (simp add: idx_def)
    also have "\<dots> = of_int \<lfloor>real i * step + 1 / 2\<rfloor>" using nn [of i] by (simp add: thinned_index_def math_Round_nonneg)
    finally have "\<bar>real (idx ! i) - real i * step\<bar> \<le> 1 / 2" by linarith
    then show ?thesis by (simp add: step_def)
  qed
  ultimately show ?thesis using run len by blast
qed

theorem downsample_exact_witness: "length (downsampleRecentPoints [0 :: int, 10, 20, 30, 40] 3) = 3"
proof -
  have "2 \<le> (3 :: int)" "3 < int (length [0 :: int, 10, 20, 30, 40])" by simp_all
  from downsample_exact [OF this] show ?thesis by auto
qed

section \<open>Whose points an answer shows\<close>

text \<open>The points an answer carries: number, device, coordinates.\<close>

type_synonym shown = "uint64 \<times> int \<times> float64 \<times> float64"

definition shown_response :: "recentPointResponse \<Rightarrow> shown" where
  "shown_response p = (pr_seq p, pr_device_id p, pr_lat p, pr_lon p)"

definition shown_point :: "RecentPoint \<Rightarrow> shown" where
  "shown_point p = (RP_Seq p, RP_DeviceID p, RP_Lat p, RP_Lon p)"

fun shown_chunk :: "chunk \<Rightarrow> shown list" where
  "shown_chunk (Feature p) = [shown_point p]"
| "shown_chunk (TrackPoint p) = [shown_point p]"
| "shown_chunk _ = []"

fun body_points :: "body \<Rightarrow> shown list" where
  "body_points (RecentPointsBody ps) = map shown_response ps"
| "body_points (PointsPageBody page) = map shown_response (pp_points page)"
| "body_points (ExportBody cs failed) = concat (map shown_chunk cs)"
| "body_points _ = []"

definition own_points :: "int \<Rightarrow> tables \<Rightarrow> body \<Rightarrow> bool" where
  "own_points user t b \<longleftrightarrow>
     (\<forall>v \<in> set (body_points b). \<exists>row \<in> set (raw_points t).
        rp_user_id row = user \<and> v = (word_of_int (rp_seq row), rp_device_id row, rp_lat row, rp_lon row))"

definition owned :: "int \<Rightarrow> tables \<Rightarrow> RecentPoint \<Rightarrow> bool" where
  "owned user t p \<longleftrightarrow> (\<exists>row \<in> set (raw_points t). rp_user_id row = user \<and> scanPoint row = Inr p)"

lemma owned_shown:
  "owned user t p \<Longrightarrow> \<exists>row \<in> set (raw_points t). rp_user_id row = user \<and>
     shown_point p = (word_of_int (rp_seq row), rp_device_id row, rp_lat row, rp_lon row)"
  unfolding owned_def shown_point_def using scanPoint_fields by metis

lemma shown_recent [simp]: "shown_response (recentPointFromStore p) = shown_point p"
  by (simp add: shown_response_def recentPointFromStore_def shown_point_def)

lemma own_points_shown:
  "set (body_points b) \<subseteq> shown_point ` {p. owned user t p} \<Longrightarrow> own_points user t b"
  unfolding own_points_def using owned_shown by blast

lemma no_points: "own_points user t (rs_body (writeJSONError code m))"
  by (simp add: own_points_def writeJSONError_def writeJSON_def)

lemma select_points_owned:
  assumes "row \<in> set (take k (select_points f after t))" and "scanPoint row = Inr p" and "0 < F_UserID f"
  shows "owned (F_UserID f) t p"
proof -
  have "row \<in> set (select_points f after t)" by (rule in_set_takeD [OF assms(1)])
  then show ?thesis using assms(2,3) by (auto simp: owned_def select_points_def by_time_def point_where_def)
qed

lemma ListPoints_success:
  assumes "ListPoints f n d = (Inr out, d')"
  shows "tables d' = tables d \<and> list_all2 (\<lambda>row p. scanPoint row = Inr p)
    (take (nat (clamp 500 5000 n)) (select_points f (uint (F_AfterSeq f)) (tables d))) out"
  using assms by (auto simp: ListPoints_def bindE_eq_Inr fromE_def bindUint64_def mapE_Inr split: sum.splits if_splits
      dest!: query_tables)

lemma ListPoints_owned:
  assumes "ListPoints f n d = (Inr out, d')" and "0 < F_UserID f" and "p \<in> set out"
  shows "owned (F_UserID f) (tables d) p"
proof -
  let ?rows = "take (nat (clamp 500 5000 n)) (select_points f (uint (F_AfterSeq f)) (tables d))"
  obtain row where row: "row \<in> set ?rows" "scanPoint row = Inr p"
    using list_all2_origin [OF conjunct2 [OF ListPoints_success [OF assms(1)]] assms(3)] by blast
  show ?thesis by (rule select_points_owned [OF row assms(2)])
qed

lemma set_downsampleLoop: "pts \<noteq> [] \<Longrightarrow> set (downsampleLoop pts step prev i k) \<subseteq> set pts" if "-1 \<le> prev" for prev
  using that
proof (induction k arbitrary: prev i)
  case (Suc k)
  let ?i0 = "\<lfloor>math_Round (real i * step)\<rfloor>"
  let ?i1 = "if ?i0 \<le> prev then prev + 1 else ?i0"
  let ?i = "if ?i1 \<ge> int (length pts) then int (length pts) - 1 else ?i1"
  have "0 \<le> ?i1" using Suc.prems by (simp split: if_split) linarith
  then have "0 \<le> ?i" "?i < int (length pts)" using Suc.prems(1) by (simp_all add: Suc_leI)
  then have "pts ! nat ?i \<in> set pts" by (intro nth_mem) linarith
  with Suc.IH [of ?i "Suc i"] \<open>0 \<le> ?i\<close> Suc.prems show ?case by (simp add: Let_def)
qed simp

lemma set_downsample: "set (downsampleRecentPoints pts m) \<subseteq> set pts"
proof (cases "int (length pts) \<le> m \<or> m \<le> 0 \<or> m = 1")
  case True
  then show ?thesis by (auto simp: downsampleRecentPoints_def intro!: nth_mem)
next
  case False
  then have "pts \<noteq> []" by auto
  with False show ?thesis using set_downsampleLoop [of "-1" pts] by (simp add: downsampleRecentPoints_def)
qed

lemma pointsPage_points:
  "set (body_points (PointsPageBody (pointsPage points0 n simplify m))) \<subseteq> shown_point ` set points0"
proof -
  define p1 where "p1 = (if int (length points0) > n then take (nat n) points0 else points0)"
  define p2 where "p2 = (if simplify then downsampleRecentPoints p1 m else p1)"
  have "set p2 \<subseteq> set p1" using set_downsample [of p1 m] by (simp add: p2_def)
  also have "set p1 \<subseteq> set points0" by (simp add: p1_def set_take_subset)
  finally have "shown_point ` set p2 \<subseteq> shown_point ` set points0" by (rule image_mono)
  moreover have "pp_points (pointsPage points0 n simplify m) = map recentPointFromStore p2"
    by (simp add: pointsPage_def Let_def p1_def p2_def)
  ultimately show ?thesis by (simp add: image_image)
qed

lemma pointsQuery_cases:
  assumes "pointsQuery f r a = (resp, a')"
  shows "(\<exists>code e. resp = writeJSONError code e) \<or>
    (\<exists>f1 n out simplify m. F_UserID f1 = F_UserID f \<and> on_store (ListPoints f1 (n + 1)) a = (Inr out, a') \<and>
       simplify = parseOptionalBoolParam (rq_query r ''simplify'') \<and>
       (simplify \<longrightarrow> parseOptionalLimitParamWithMax r 5000 20000 = Inr n) \<and>
       resp = writeJSON 200 (PointsPageBody (pointsPage out n simplify m)))"
proof (cases "\<exists>code e. resp = writeJSONError code e")
  case False
  let ?s = "parseOptionalBoolParam (rq_query r ''simplify'')"
  obtain n0 cursor where 1: "parseOptionalLimitParamWithMax r 500 1000 = Inr n0" "parseOptionalCursorParam r = Inr cursor"
    using assms False by (auto simp: pointsQuery_def split: sum.splits)
  let ?f1 = "if cursor > 0 then f\<lparr>F_AfterSeq := cursor\<rparr> else f"
  obtain n m where 2: "pageLimits r ?s n0 = Inr (n, m)"
    using assms False 1 by (auto simp: pointsQuery_def Let_def simp del: word_gt_0_no split: sum.splits)
  obtain out where 3: "on_store (ListPoints ?f1 (n + 1)) a = (Inr out, a')"
    "resp = writeJSON 200 (PointsPageBody (pointsPage out n ?s m))"
    using assms False 1 2 unfolding pointsQuery_def Let_def
    by (cases "on_store (ListPoints ?f1 (n + 1)) a"; cases "fst (on_store (ListPoints ?f1 (n + 1)) a)") auto
  have "?s \<longrightarrow> parseOptionalLimitParamWithMax r 5000 20000 = Inr n"
    using 2 by (auto simp: pageLimits_def split: sum.splits if_splits)
  moreover have "F_UserID ?f1 = F_UserID f" by simp
  ultimately show ?thesis using 3 by blast
qed simp

lemma pointsQuery_own:
  assumes "pointsQuery f r a = (resp, a')" and "0 < F_UserID f"
  shows "own_points (F_UserID f) (tables (ap_store a)) (rs_body resp)"
  using pointsQuery_cases [OF assms(1)]
proof (elim disjE exE conjE)
  fix f1 n out simplify m
  assume f1: "F_UserID f1 = F_UserID f" and l: "on_store (ListPoints f1 (n + 1)) a = (Inr out, a')"
    and resp: "resp = writeJSON 200 (PointsPageBody (pointsPage out n simplify m))"
  obtain d1 where "ListPoints f1 (n + 1) (ap_store a) = (Inr out, d1)"
    using l by (auto simp: on_store_def split: prod.splits)
  from ListPoints_owned [OF this] f1 assms(2) have "\<forall>p \<in> set out. owned (F_UserID f) (tables (ap_store a)) p" by simp
  then show ?thesis
    using pointsPage_points [of out n simplify m] by (intro own_points_shown) (auto simp: resp writeJSON_def)
qed (simp add: no_points)

text \<open>A handler that shows a signed-in user only own points and leaves the tables alone.\<close>

definition shows_own :: "handler \<Rightarrow> bool" where
  "shows_own h \<longleftrightarrow>
     (\<forall>r a u resp a'. rq_user r = Some u \<longrightarrow> 0 < User_ID u \<longrightarrow> h r a = (resp, a') \<longrightarrow> rs_status resp = 200 \<longrightarrow>
        tables (ap_store a') = tables (ap_store a) \<and> own_points (User_ID u) (tables (ap_store a)) (rs_body resp))"

lemma points_reads:
  "reads (ListPoints f n)" "reads (ListRecentPoints dev n)" "reads ListDevices"
  by (intro readsI keeps_intros)+

lemma allowed_reads:
  "currentUserAllowedDeviceIDs r a = (x, b) \<Longrightarrow> tables (ap_store b) = tables (ap_store a)"
  using on_store_reads [OF points_reads(3), of a]
  by (auto simp: currentUserAllowedDeviceIDs_def split: option.splits prod.splits sum.splits)

lemma pointsQuery_reads: "pointsQuery f r a = (resp, a') \<Longrightarrow> tables (ap_store a') = tables (ap_store a)"
  using on_store_reads [OF points_reads(1), of _ _ a]
  by (auto simp: pointsQuery_def Let_def split: sum.splits prod.splits if_splits)

lemma pointsHandler_own: "shows_own pointsHandler"
  unfolding shows_own_def
proof (intro allI impI)
  fix r a u resp a'
  assume u: "rq_user r = Some u" "0 < User_ID u" and run: "pointsHandler r a = (resp, a')"
  show "tables (ap_store a') = tables (ap_store a) \<and> own_points (User_ID u) (tables (ap_store a)) (rs_body resp)"
  proof (cases "exportFilterFromRequest r")
    case (Inl e)
    with run show ?thesis by (auto simp: pointsHandler_def no_points)
  next
    case (Inr f0)
    let ?f = "f0\<lparr>F_UserID := User_ID u\<rparr>"
    have q: "tables (ap_store a') = tables (ap_store a) \<and> own_points (User_ID u) (tables (ap_store a)) (rs_body resp)"
      if "pointsQuery ?f r b = (resp, a')" "tables (ap_store b) = tables (ap_store a)" for b
      using pointsQuery_own [OF that(1)] pointsQuery_reads [OF that(1)] that(2) u(2) by simp
    show ?thesis
    proof (cases "F_DeviceRowID f0")
      case None
      with run Inr u q [of a] show ?thesis by (simp add: pointsHandler_def Let_def)
    next
      case (Some i)
      obtain x b where al: "currentUserAllowedDeviceIDs r a = (x, b)" by fastforce
      have empty: "own_points (User_ID u) (tables (ap_store a)) (rs_body (writeJSON 200 (PointsPageBody empty_page)))"
        by (simp add: own_points_def writeJSON_def empty_page_def)
      from run Inr Some u q [of b] al allowed_reads [OF al] empty show ?thesis
        by (auto simp: pointsHandler_def Let_def no_points split: sum.splits if_splits)
    qed
  qed
qed

lemma ListRecentPoints_success:
  assumes "ListRecentPoints dev n d = (Inr out, d')"
  shows "list_all2 (\<lambda>row p. scanPoint row = Inr p)
    (take (nat (clamp 50 500 n)) (rev (by_time (filter (\<lambda>r. case dev of None \<Rightarrow> True | Some i \<Rightarrow> rp_device_id r = i)
       (raw_points (tables d)))))) out"
  using assms by (auto simp: ListRecentPoints_def bindE_eq_Inr fromE_def mapE_Inr split: sum.splits dest!: query_tables)

lemma recentPointsHandler_own: "shows_own recentPointsHandler"
  unfolding shows_own_def
proof (intro allI impI)
  fix r a u resp a'
  assume u: "rq_user r = Some u" "0 < User_ID u" and run: "recentPointsHandler r a = (resp, a')"
  have none: "own_points (User_ID u) (tables (ap_store a)) (rs_body (writeJSON 200 (RecentPointsBody [])))"
    by (simp add: own_points_def writeJSON_def)
  obtain x b where al: "currentUserAllowedDeviceIDs r a = (x, b)" by fastforce
  note tb = allowed_reads [OF al]
  have list: "own_points (User_ID u) (tables (ap_store a)) (rs_body (writeJSON 200 (RecentPointsBody (map recentPointFromStore
      (filter (\<lambda>p. RP_DeviceID p \<in> set allowed \<and> RP_UserID p = User_ID u) out)))))"
    if l: "on_store (ListRecentPoints dev n) b = (Inr out, c)" for dev n out c allowed
  proof -
    obtain d1 where l': "ListRecentPoints dev n (ap_store b) = (Inr out, d1)"
      using l by (auto simp: on_store_def split: prod.splits)
    have "owned (User_ID u) (tables (ap_store a)) p" if p: "p \<in> set out" "RP_UserID p = User_ID u" for p
    proof -
      obtain row where row: "row \<in> set (take (nat (clamp 50 500 n)) (rev (by_time (filter (\<lambda>r. case dev of None \<Rightarrow> True
          | Some i \<Rightarrow> rp_device_id r = i) (raw_points (tables (ap_store b)))))))" "scanPoint row = Inr p"
        using list_all2_origin [OF ListRecentPoints_success [OF l'] p(1)] by blast
      from in_set_takeD [OF row(1)] have "row \<in> set (raw_points (tables (ap_store a)))"
        using tb by (simp add: by_time_def)
      then show ?thesis using row(2) scanPoint_fields [OF row(2)] p(2) by (auto simp: owned_def)
    qed
    then show ?thesis by (intro own_points_shown) (auto simp: writeJSON_def image_image)
  qed
  from run u al tb none list on_store_reads [OF points_reads(2), of _ _ b]
  show "tables (ap_store a') = tables (ap_store a) \<and> own_points (User_ID u) (tables (ap_store a)) (rs_body resp)"
    unfolding recentPointsHandler_def by (auto simp: no_points split: sum.splits prod.splits if_splits)
qed

section \<open>What an export contains\<close>

text \<open>The callback sees the points of the rows in order, up to the first row that cannot be read.\<close>

fun readable_points :: "raw_point_row list \<Rightarrow> RecentPoint list" where
  "readable_points [] = []"
| "readable_points (row # rows) =
     (case scanPoint row of Inl e \<Rightarrow> [] | Inr p \<Rightarrow> p # readable_points rows)"

lemma streamRows_fold:
  assumes "\<forall>p s. fst (fn p s) = Inr ()"
  shows "snd (streamRows fn rows count s) = fold (\<lambda>p s. snd (fn p s)) (readable_points rows) s"
    and "snd (fst (streamRows fn rows count s)) = None \<longleftrightarrow> length (readable_points rows) = length rows"
proof -
  have *: "snd (streamRows fn rows count s) = fold (\<lambda>p s. snd (fn p s)) (readable_points rows) s \<and>
      (snd (fst (streamRows fn rows count s)) = None \<longleftrightarrow> length (readable_points rows) = length rows)"
    using assms
  proof (induction rows arbitrary: count s)
    case (Cons row rows)
    show ?case
    proof (cases "scanPoint row")
      case (Inr p)
      obtain s1 where "fn p s = (Inr (), s1)" using Cons.prems by (metis prod.collapse)
      then show ?thesis using Inr Cons.IH [OF Cons.prems, of "count + 1" s1] by simp
    qed simp
  qed simp
  then show "snd (streamRows fn rows count s) = fold (\<lambda>p s. snd (fn p s)) (readable_points rows) s"
    and "snd (fst (streamRows fn rows count s)) = None \<longleftrightarrow> length (readable_points rows) = length rows" by simp_all
qed

lemma readable_points_rows: "p \<in> set (readable_points rows) \<Longrightarrow> \<exists>row \<in> set rows. scanPoint row = Inr p"
  by (induction rows) (auto split: sum.splits)

lemma Stream_result:
  assumes "StreamPointsForExport f n fn s d = (((count, err), s'), d')" and "\<forall>p s. fst (fn p s) = Inr ()"
    and "F_AfterSeq f = 0"
  shows "tables d' = tables d \<and> (calm d \<longrightarrow> calm d') \<and>
    (s' = s \<and> err \<noteq> None \<and> \<not> calm d \<or>
     (let rows = take (nat (clamp 5000 50000 n)) (select_points f 0 (tables d)) in
      s' = fold (\<lambda>p s. snd (fn p s)) (readable_points rows) s \<and>
      (err = None \<longleftrightarrow> length (readable_points rows) = length rows)))"
proof -
  obtain x d1 where q: "bindE (fromE (bindUint64 (F_AfterSeq f))) (\<lambda>after.
             query (\<lambda>t. Inr (take (nat (clamp 5000 50000 n)) (select_points f after t)))) d = (x, d1)" by fastforce
  have t: "tables d1 = tables d" "calm d \<longrightarrow> calm d1" "(\<exists>e. x = Inl e \<and> \<not> calm d) \<or>
      x = Inr (take (nat (clamp 5000 50000 n)) (select_points f 0 (tables d)))"
    using q assms(3)
    by (auto simp: bindE_def fromE_def bindUint64_def query_def exec_def calm_def Let_def split: if_splits sum.splits prod.splits)
  from t(3) show ?thesis
  proof
    assume "\<exists>e. x = Inl e \<and> \<not> calm d"
    with assms(1) q t(1,2) show ?thesis by (auto simp: StreamPointsForExport_def)
  next
    assume x: "x = Inr (take (nat (clamp 5000 50000 n)) (select_points f 0 (tables d)))"
    let ?rows = "take (nat (clamp 5000 50000 n)) (select_points f 0 (tables d))"
    have "streamRows fn ?rows 0 s = ((count, err), s')" "d' = d1"
      using assms(1) q x by (simp_all add: StreamPointsForExport_def)
    with streamRows_fold [OF assms(2), of ?rows 0 s] t(1,2) show ?thesis by (simp add: Let_def)
  qed
qed

lemma probe_result:
  assumes "probeExportFirstPoint f d = (Inr p, d')" and "F_AfterSeq f = 0"
  shows "tables d' = tables d \<and> (calm d \<longrightarrow> calm d') \<and>
    (case select_points f 0 (tables d) of [] \<Rightarrow> p = None | row # rows \<Rightarrow> \<exists>q. scanPoint row = Inr q \<and> p = Some q)"
proof -
  obtain count err s d1 where st: "StreamPointsForExport f 1 (\<lambda>p s. (Inr (), Some p)) None d = (((count, err), s), d1)"
    by (metis surj_pair)
  then have "err = None" "p = s" "d' = d1"
    using assms(1) by (auto simp: probeExportFirstPoint_def split: option.splits)
  have "\<forall>p s. fst ((\<lambda>p s. (Inr () :: store_error + unit, Some p)) p s) = Inr ()" by simp
  note R = Stream_result [OF st this assms(2)]
  let ?rows = "take (nat (clamp 5000 50000 1)) (select_points f 0 (tables d))"
  have s: "s = fold (\<lambda>p s. Some p) (readable_points ?rows) None" and len: "length (readable_points ?rows) = length ?rows"
    and t: "tables d' = tables d \<and> (calm d \<longrightarrow> calm d')"
    using R \<open>err = None\<close> \<open>d' = d1\<close> by (simp_all add: Let_def)
  have one: "nat (clamp 5000 50000 1) = 1" by (simp add: clamp_def)
  have "case select_points f 0 (tables d) of [] \<Rightarrow> p = None | row # rows \<Rightarrow> \<exists>q. scanPoint row = Inr q \<and> p = Some q"
  proof (cases "select_points f 0 (tables d)")
    case Nil
    with s \<open>p = s\<close> show ?thesis by simp
  next
    case (Cons row rows)
    then obtain q where "scanPoint row = Inr q" using len one by (cases "scanPoint row") simp_all
    with s \<open>p = s\<close> Cons one show ?thesis by simp
  qed
  with t show ?thesis by blast
qed

text \<open>The pieces of the two formats for a list of points.\<close>

fun features :: "RecentPoint list \<Rightarrow> chunk list" where
  "features [] = []"
| "features [p] = [Feature p]"
| "features (p # q # ps) = Feature p # Raw '','' # features (q # ps)"

lemma fold_features:
  "fold (\<lambda>p s. snd (writeFeature p s)) ps (False, out) = (False, out @ concat (map (\<lambda>p. [Raw '','', Feature p]) ps))"
  by (induction ps arbitrary: out) (simp_all add: writeFeature_def)

lemma features_Cons: "features (p # ps) = Feature p # concat (map (\<lambda>p. [Raw '','', Feature p]) ps)"
  by (induction ps arbitrary: p) simp_all

lemma fold_track: "fold (\<lambda>p s. snd (writeTrackPoint p s)) ps (b, out) = (b, out @ map TrackPoint ps)"
  by (induction ps arbitrary: out) (simp_all add: writeTrackPoint_def)

lemma fold_skip:
  assumes "\<forall>p \<in> set ps. RP_Seq p \<noteq> RP_Seq q"
  shows "fold (\<lambda>p s. snd (if RP_Seq p = RP_Seq q then (Inr (), s) else emit p s)) ps s =
    fold (\<lambda>p s. snd (emit p s)) ps s"
  using assms by (induction ps arbitrary: s) auto

lemma streamExport_result:
  assumes "streamExport emit f n q prolog d = ((out, failed), d')" and "F_AfterSeq f = 0" and "0 < n" and "n \<le> 50000"
    and "\<forall>p s. fst (emit p s) = Inr ()" and "calm d"
    and "readable_points (take (nat n) (select_points f 0 (tables d))) = q # ps"
    and "\<forall>p \<in> set ps. RP_Seq p \<noteq> RP_Seq q"
  shows "out = snd (fold (\<lambda>p s. snd (emit p s)) (q # ps) (True, prolog)) \<and>
    (failed \<longleftrightarrow> length (q # ps) \<noteq> length (take (nat n) (select_points f 0 (tables d)))) \<and> tables d' = tables d"
proof -
  let ?fn = "\<lambda>p s. if RP_Seq p = RP_Seq q then (Inr (), s) else emit p s"
  let ?s0 = "snd (emit q (True, prolog))"
  obtain cs d1 where one: "StreamPointsForExport f n ?fn ?s0 d = (cs, d1)" by (rule prod.exhaust)
  obtain ce s where two: "cs = (ce, s)" by (rule prod.exhaust)
  obtain count err where "ce = (count, err)" by (rule prod.exhaust)
  with one two have st: "StreamPointsForExport f n ?fn ?s0 d = (((count, err), s), d1)" by (simp only:)
  have "\<forall>p s. fst (?fn p s) = Inr ()" using assms(5) by simp
  note R = Stream_result [OF st this assms(2)]
  have n: "nat (clamp 5000 50000 n) = nat n" using assms(3,4) by (simp add: clamp_def)
  have "s = fold (\<lambda>p s. snd (?fn p s)) (q # ps) ?s0 \<and>
      (err = None \<longleftrightarrow> length (q # ps) = length (take (nat n) (select_points f 0 (tables d))))"
    using R assms(6) unfolding Let_def n assms(7) by blast
  moreover have "tables d1 = tables d" using R by blast
  moreover have "fold (\<lambda>p s. snd (?fn p s)) (q # ps) ?s0 = fold (\<lambda>p s. snd (emit p s)) (q # ps) (True, prolog)"
    using fold_skip [OF assms(8), of emit] by simp
  moreover have "out = snd s" "failed = (err \<noteq> None)" "d' = d1"
    using assms(1) unfolding streamExport_def st by (auto split: prod.splits)
  ultimately show ?thesis by (simp only: simp_thms)
qed

section \<open>The export handlers\<close>

lemma probe_reads: "on_store (probeExportFirstPoint f) a = (Inr p, b) \<Longrightarrow> F_AfterSeq f = 0 \<Longrightarrow>
    tables (ap_store b) = tables (ap_store a) \<and> (calm (ap_store a) \<longrightarrow> calm (ap_store b)) \<and>
    (case select_points f 0 (tables (ap_store a)) of [] \<Rightarrow> p = None
     | row # rows \<Rightarrow> \<exists>q. scanPoint row = Inr q \<and> p = Some q)"
  by (auto simp: on_store_def split: prod.splits dest!: probe_result)

lemma allowed_calm:
  "currentUserAllowedDeviceIDs r a = (x, b) \<Longrightarrow> calm (ap_store a) \<Longrightarrow> calm (ap_store b)"
  by (auto simp: currentUserAllowedDeviceIDs_def on_store_def ListDevices_def bindE_def query_def exec_def fromE_def
      calm_def split: option.splits prod.splits sum.splits)

lemma filter_fields:
  "exportFilterFromRequest r = Inr f \<Longrightarrow> F_AfterSeq f = 0"
  by (auto simp: exportFilterFromRequest_def split: sum.splits)

lemma export_limit:
  "parseOptionalLimitParamWithMax r 5000 20000 = Inr n \<Longrightarrow> 0 < n \<and> n \<le> 20000"
  by (auto simp: parseOptionalLimitParamWithMax_def Let_def split: if_splits option.splits)

text \<open>An answer of 200 is either the empty document or the stream that follows the preflight.\<close>

lemma exportHandler_ok:
  assumes "exportHandler failure nothing stream r a = (resp, a')" and "rs_status resp = 200"
  obtains f0 u n b p c where "exportFilterFromRequest r = Inr f0" and "rq_user r = Some u"
    and "parseOptionalLimitParamWithMax r 5000 20000 = Inr n"
    and "tables (ap_store b) = tables (ap_store a)" and "calm (ap_store a) \<longrightarrow> calm (ap_store b)"
    and "on_store (probeExportFirstPoint (f0\<lparr>F_UserID := User_ID u\<rparr>)) b = (Inr p, c)"
    and "case p of None \<Rightarrow> (resp, a') = (writeJSON 200 nothing, c)
         | Some q \<Rightarrow> (case stream (f0\<lparr>F_UserID := User_ID u\<rparr>) n q (ap_store c) of
             (body, d) \<Rightarrow> (resp, a') = (writeJSON 200 body, set_store d c))"
proof -
  have no: "rs_status (writeJSONError code m) = code" for code m by (simp add: writeJSONError_def writeJSON_def)
  obtain f0 where f0: "exportFilterFromRequest r = Inr f0"
    using assms no by (cases "exportFilterFromRequest r") (auto simp: exportHandler_def)
  obtain u where u: "rq_user r = Some u"
    using assms no f0 by (cases "rq_user r") (auto simp: exportHandler_def)
  let ?f = "f0\<lparr>F_UserID := User_ID u\<rparr>"
  let ?answer = "\<lambda>a. case parseOptionalLimitParamWithMax r 5000 20000 of
                  Inl e \<Rightarrow> (writeJSONError 400 e, a)
                | Inr n \<Rightarrow>
                    (case on_store (probeExportFirstPoint ?f) a of
                       (Inl e, a1) \<Rightarrow> (writeJSONError 500 (Msg failure), a1)
                     | (Inr None, a1) \<Rightarrow> (writeJSON 200 nothing, a1)
                     | (Inr (Some firstPoint), a1) \<Rightarrow>
                         (case stream ?f n firstPoint (ap_store a1) of (b, d) \<Rightarrow> (writeJSON 200 b, set_store d a1)))"
  have run: "\<exists>b. tables (ap_store b) = tables (ap_store a) \<and> (calm (ap_store a) \<longrightarrow> calm (ap_store b)) \<and> ?answer b = (resp, a')"
  proof (cases "F_DeviceRowID f0")
    case None
    with assms(1) f0 u show ?thesis by (intro exI [of _ a]) (simp add: exportHandler_def Let_def)
  next
    case (Some i)
    obtain x b where al: "currentUserAllowedDeviceIDs r a = (x, b)" by fastforce
    have st: "rs_status (writeJSONError (httpStatusFromOwnershipError e) m) \<noteq> 200" for e m
      using no by (simp add: httpStatusFromOwnershipError_def split: ownershipError.split)
    obtain allowed where x: "x = Inr allowed" and mem: "i \<in> set allowed"
      using assms f0 u Some al no st
      by (cases x) (auto simp: exportHandler_def Let_def split: if_splits)
    have "?answer b = (resp, a')" using assms(1) f0 u Some al x mem by (simp add: exportHandler_def Let_def)
    with allowed_reads [OF al] allowed_calm [OF al] show ?thesis by blast
  qed
  then obtain b where b: "tables (ap_store b) = tables (ap_store a)" "calm (ap_store a) \<longrightarrow> calm (ap_store b)"
    "?answer b = (resp, a')" by blast
  obtain n where n: "parseOptionalLimitParamWithMax r 5000 20000 = Inr n"
    using b(3) assms(2) no by (cases "parseOptionalLimitParamWithMax r 5000 20000") auto
  obtain y c where pr: "on_store (probeExportFirstPoint ?f) b = (y, c)" by fastforce
  obtain p where p: "y = Inr p" using b(3) assms(2) no n pr by (cases y) auto
  have "case p of None \<Rightarrow> (resp, a') = (writeJSON 200 nothing, c)
         | Some q \<Rightarrow> (case stream ?f n q (ap_store c) of
             (body, d) \<Rightarrow> (resp, a') = (writeJSON 200 body, set_store d c))"
    using b(3) n pr p by (auto split: option.split prod.split)
  with that [OF f0 u n b(1,2)] pr p show thesis by blast
qed

lemma seqs_distinct_readable:
  assumes "readable_points rows = q # ps" and "distinct (map rp_seq rows)"
    and "\<forall>row \<in> set rows. rp_seq row < 2 ^ 64"
  shows "\<forall>p \<in> set ps. RP_Seq p \<noteq> RP_Seq q"
proof -
  obtain row rest where rows: "rows = row # rest" "scanPoint row = Inr q" "readable_points rest = ps"
    using assms(1) by (cases rows) (auto split: sum.splits)
  show ?thesis
  proof
    fix p assume "p \<in> set ps"
    then obtain row' where r': "row' \<in> set rest" "scanPoint row' = Inr p"
      using readable_points_rows rows(3) by blast
    have nn: "0 \<le> rp_seq row" "0 \<le> rp_seq row'"
      using rows(2) r'(2) by (auto simp: scanPoint_def split: if_splits)
    have lt: "rp_seq row < 2 ^ 64" "rp_seq row' < 2 ^ 64" using assms(3) r'(1) rows(1) by auto
    have "rp_seq row \<notin> rp_seq ` set rest" using assms(2) rows(1) by simp
    then have "rp_seq row' \<noteq> rp_seq row" using r'(1) by (metis imageI)
    moreover have "uint (RP_Seq q) = rp_seq row" "uint (RP_Seq p) = rp_seq row'"
      using scanPoint_fields [OF rows(2)] scanPoint_fields [OF r'(2)] nn lt
      by (simp_all add: uint_word_of_int)
    ultimately show "RP_Seq p \<noteq> RP_Seq q" by metis
  qed
qed

lemma streamExport_chunks:
  assumes "streamExport emit f n q prolog d = ((out, failed), d')" and "F_AfterSeq f = 0"
    and "\<forall>p s. fst (emit p s) = Inr ()"
    and "\<forall>p first out. set (snd (snd (emit p (first, out)))) \<subseteq> set out \<union> {Feature p, TrackPoint p, Raw '',''}"
  shows "tables d' = tables d \<and> set out \<subseteq> set prolog \<union> {Raw '',''} \<union>
    {c. \<exists>p. (c = Feature p \<or> c = TrackPoint p) \<and> (p = q \<or> (\<exists>row \<in> set (select_points f 0 (tables d)). scanPoint row = Inr p))}"
proof -
  let ?fn = "\<lambda>p s. if RP_Seq p = RP_Seq q then (Inr (), s) else emit p s"
  let ?s0 = "snd (emit q (True, prolog))"
  let ?ok = "\<lambda>s. set (snd s) \<subseteq> set prolog \<union> {Raw '',''} \<union>
    {c. \<exists>p. (c = Feature p \<or> c = TrackPoint p) \<and> (p = q \<or> (\<exists>row \<in> set (select_points f 0 (tables d)). scanPoint row = Inr p))}"
  obtain cs d1 where one: "StreamPointsForExport f n ?fn ?s0 d = (cs, d1)" by (rule prod.exhaust)
  obtain ce s where two: "cs = (ce, s)" by (rule prod.exhaust)
  obtain count err where "ce = (count, err)" by (rule prod.exhaust)
  with one two have st: "StreamPointsForExport f n ?fn ?s0 d = (((count, err), s), d1)" by (simp only:)
  have "\<forall>p s. fst (?fn p s) = Inr ()" using assms(3) by simp
  note R = Stream_result [OF st this assms(2)]
  have start: "?ok ?s0" using assms(4) [rule_format, of q True prolog] by blast
  have grow: "?ok (fold (\<lambda>p s. snd (?fn p s)) ps s)"
    if "?ok s" and "\<forall>p \<in> set ps. \<exists>row \<in> set (select_points f 0 (tables d)). scanPoint row = Inr p" for ps s
    using that
  proof (induction ps arbitrary: s)
    case (Cons p ps)
    have "?ok (snd (emit p s))"
      using assms(4) [rule_format, of p "fst s" "snd s"] Cons.prems by (simp only: prod.collapse) auto
    moreover have "snd (?fn p s) = s \<or> snd (?fn p s) = snd (emit p s)" by simp
    ultimately have "?ok (snd (?fn p s))" using Cons.prems(1) by (elim disjE) (simp_all only:)
    from Cons.IH [OF this] Cons.prems(2) show ?case by (simp only: fold_simps list.set_intros) auto
  qed (simp only: fold_simps)
  have "?ok s"
  proof (cases "s = ?s0")
    case True
    show ?thesis unfolding True by (rule start)
  next
    case False
    let ?rows = "take (nat (clamp 5000 50000 n)) (select_points f 0 (tables d))"
    have s: "s = fold (\<lambda>p s. snd (?fn p s)) (readable_points ?rows) ?s0"
      using R False by (auto simp only: Let_def)
    have "\<forall>p \<in> set (readable_points ?rows). \<exists>row \<in> set (select_points f 0 (tables d)). scanPoint row = Inr p"
      using readable_points_rows in_set_takeD by fast
    from grow [OF start this] show ?thesis unfolding s .
  qed
  moreover have "out = snd s" "d' = d1"
    using assms(1) unfolding streamExport_def st by (auto split: prod.splits)
  ultimately show ?thesis using R by (simp only: simp_thms)
qed

lemma export_own_aux:
  assumes run: "exportHandler failure (ExportBody nothing False) stream r a = (resp, a')" and ok: "rs_status resp = 200"
    and u: "rq_user r = Some u" "0 < User_ID u" and n0: "concat (map shown_chunk nothing) = []"
    and st: "\<And>f n q d b d'. stream f n q d = (b, d') \<Longrightarrow> F_AfterSeq f = 0 \<Longrightarrow> tables d' = tables d \<and>
      set (body_points b) \<subseteq> shown_point ` {p. p = q \<or> (\<exists>row \<in> set (select_points f 0 (tables d)). scanPoint row = Inr p)}"
  shows "tables (ap_store a') = tables (ap_store a) \<and> own_points (User_ID u) (tables (ap_store a)) (rs_body resp)"
proof -
  obtain f0 n b p c where f0: "exportFilterFromRequest r = Inr f0"
    and tb: "tables (ap_store b) = tables (ap_store a)"
    and pr: "on_store (probeExportFirstPoint (f0\<lparr>F_UserID := User_ID u\<rparr>)) b = (Inr p, c)"
    and out: "case p of None \<Rightarrow> (resp, a') = (writeJSON 200 (ExportBody nothing False), c)
         | Some q \<Rightarrow> (case stream (f0\<lparr>F_UserID := User_ID u\<rparr>) n q (ap_store c) of
             (body, d) \<Rightarrow> (resp, a') = (writeJSON 200 body, set_store d c))"
    using exportHandler_ok [OF run ok] u(1) by (metis option.inject)
  let ?f = "f0\<lparr>F_UserID := User_ID u\<rparr>"
  have f: "F_AfterSeq ?f = 0" using filter_fields [OF f0] by simp
  note P = probe_reads [OF pr f]
  show ?thesis
  proof (cases p)
    case None
    with out P tb n0 show ?thesis by (simp add: own_points_def writeJSON_def)
  next
    case (Some q)
    obtain body d where b: "stream ?f n q (ap_store c) = (body, d)" by fastforce
    have tc: "tables (ap_store c) = tables (ap_store a)" using P tb by simp
    have sel: "owned (User_ID u) (tables (ap_store a)) p"
      if "row \<in> set (select_points ?f 0 (tables (ap_store a)))" "scanPoint row = Inr p" for row p
      using that u(2) by (auto simp: owned_def select_points_def by_time_def point_where_def)
    obtain row rows where "select_points ?f 0 (tables (ap_store a)) = row # rows" "scanPoint row = Inr q"
      using P tb Some by (auto split: list.splits)
    then have q: "owned (User_ID u) (tables (ap_store a)) q" using sel [of row q] by simp
    have "set (body_points body) \<subseteq> shown_point ` {p. owned (User_ID u) (tables (ap_store a)) p}"
      using conjunct2 [OF st [OF b f]] sel q unfolding tc by blast
    from own_points_shown [OF this] st [OF b f] tc out Some b show ?thesis by (simp add: writeJSON_def)
  qed
qed

lemma shown_chunks:
  assumes "set cs \<subseteq> A \<union> {c. \<exists>p. (c = Feature p \<or> c = TrackPoint p) \<and> Q p}" and "\<forall>c \<in> A. shown_chunk c = []"
  shows "set (concat (map shown_chunk cs)) \<subseteq> shown_point ` {p. Q p}"
  using assms by (auto simp: subset_iff)

lemma exports_own: "shows_own geoJSONExportHandler" "shows_own gpxExportHandler"
proof -
  have emits: "\<forall>p s. fst (writeFeature p s) = Inr ()" "\<forall>p s. fst (writeTrackPoint p s) = Inr ()"
    "\<forall>p first out. set (snd (snd (writeFeature p (first, out)))) \<subseteq> set out \<union> {Feature p, TrackPoint p, Raw '',''}"
    "\<forall>p first out. set (snd (snd (writeTrackPoint p (first, out)))) \<subseteq> set out \<union> {Feature p, TrackPoint p, Raw '',''}"
    by (auto simp: writeFeature_def writeTrackPoint_def)
  have plain: "\<forall>c \<in> set ([geojson_open] @ gpx_open) \<union> {Raw x}. shown_chunk c = []" for x
    by (simp add: geojson_open_def gpx_open_def)
  show "shows_own geoJSONExportHandler"
    unfolding shows_own_def geoJSONExportHandler_def
  proof (intro allI impI, rule export_own_aux)
    fix f n q d b d'
    assume s: "(case streamExport writeFeature f n q [geojson_open] d of
          ((out, failed), d1) \<Rightarrow> (ExportBody (out @ [Raw '']}'']) failed, d1)) = (b, d')" and f: "F_AfterSeq f = 0"
    obtain out failed where st: "streamExport writeFeature f n q [geojson_open] d = ((out, failed), d')"
      and b: "b = ExportBody (out @ [Raw '']}'']) failed" using s by (auto split: prod.splits)
    from streamExport_chunks [OF st f emits(1,3)]
    show "tables d' = tables d \<and>
      set (body_points b) \<subseteq> shown_point ` {p. p = q \<or> (\<exists>row \<in> set (select_points f 0 (tables d)). scanPoint row = Inr p)}"
      unfolding b body_points.simps
      by (intro conjI shown_chunks [where A = "{geojson_open, Raw '','', Raw '']}''}"]) (auto simp: geojson_open_def)
  qed (auto simp: geojson_open_def)
  show "shows_own gpxExportHandler"
    unfolding shows_own_def gpxExportHandler_def
  proof (intro allI impI, rule export_own_aux)
    fix f n q d b d'
    assume s: "(case streamExport writeTrackPoint f n q gpx_open d of
          ((out, failed), d1) \<Rightarrow> (ExportBody (out @ [Raw ''</trkseg></trk></gpx>'']) failed, d1)) = (b, d')" and f: "F_AfterSeq f = 0"
    obtain out failed where st: "streamExport writeTrackPoint f n q gpx_open d = ((out, failed), d')"
      and b: "b = ExportBody (out @ [Raw ''</trkseg></trk></gpx>'']) failed" using s by (auto split: prod.splits)
    from streamExport_chunks [OF st f emits(2,4)]
    show "tables d' = tables d \<and>
      set (body_points b) \<subseteq> shown_point ` {p. p = q \<or> (\<exists>row \<in> set (select_points f 0 (tables d)). scanPoint row = Inr p)}"
      unfolding b body_points.simps
      by (intro conjI shown_chunks [where A = "set gpx_open \<union> {Raw '','', Raw ''</trkseg></trk></gpx>''}"]) (auto simp: gpx_open_def)
  qed auto
qed

section \<open>Properties of the endpoints\<close>

text \<open>
  Claim C4. Nobody sees the points of somebody else: when one of the four endpoints that return points
  answers 200, the request carried the token of a session that has not expired, every point in the
  answer is in a stored row of the user that session belongs to, and the tables are as they were.
\<close>

theorem points_answers_are_own:
  assumes "h \<in> {pointsHandler, recentPointsHandler, geoJSONExportHandler, gpxExportHandler}" and "rq_user r = None"
    and "LoadCurrentUserFromSession (RequireUserSessionAuth h) r a = (resp, a')" and "rs_status resp = 200"
  shows "\<exists>v row s. request_Cookie r sessionCookieName = Some v \<and> row \<in> set (sessions (tables (ap_store a))) \<and>
    s_token row = trimSpace v \<and> scanSession row = Inr s \<and>
    dbclock (ap_store a) (dbticks (ap_store a)) < Session_ExpiresAt s \<and>
    own_points (s_user_id row) (tables (ap_store a)) (rs_body resp) \<and> tables (ap_store a') = tables (ap_store a)"
proof -
  have own: "shows_own h" using assms(1) pointsHandler_own recentPointsHandler_own exports_own by auto
  have not_401: "resp \<noteq> writeJSONError 401 m" for m
    using assms(4) by (auto simp: writeJSONError_def writeJSON_def)
  from session_guard [OF assms(2,3)] not_401 obtain v row s u d where
    g: "request_Cookie r sessionCookieName = Some v" "row \<in> set (sessions (tables (ap_store a)))"
    "s_token row = trimSpace v" "scanSession row = Inr s" "dbclock (ap_store a) (dbticks (ap_store a)) < Session_ExpiresAt s"
    and u: "0 < User_ID u" "User_ID u = s_user_id row"
    and t: "tables d = tables (ap_store a)" and run: "h (r\<lparr>rq_user := Some u\<rparr>) (set_store d a) = (resp, a')" by blast
  have user: "rq_user (r\<lparr>rq_user := Some u\<rparr>) = Some u" by simp
  from own [unfolded shows_own_def, rule_format, OF user u(1) run assms(4)] t u(2) g show ?thesis by auto
qed

text \<open>
  Claim C29. An export is complete and well formed: on a working database, and as long as the sequence numbers are
  distinct 64-bit numbers, an answer of 200 holds the opening, the selected rows up to the limit, in the order of the
  query, each exactly once although the first row is read twice, with commas between the GeoJSON features
  and none around them, and the end. A row that cannot be read cuts the list short there, and only then is the
  failure flagged; when there are no rows the document is empty.
\<close>

theorem export_lists_rows:
  assumes "exportFilterFromRequest r = Inr f0" and "rq_user r = Some u"
    and "parseOptionalLimitParamWithMax r 5000 20000 = Inr n"
    and "rows = take (nat n) (select_points (f0\<lparr>F_UserID := User_ID u\<rparr>) 0 (tables (ap_store a)))"
    and "calm (ap_store a)" and "distinct (map rp_seq (raw_points (tables (ap_store a))))"
    and "\<forall>row \<in> set (raw_points (tables (ap_store a))). rp_seq row < 2 ^ 64"
    and "rs_status resp = 200"
  shows "(geoJSONExportHandler r a = (resp, a') \<longrightarrow>
      rs_body resp = (if rows = [] then ExportBody [geojson_open, Raw '']}'', Raw [newline]] False
        else ExportBody (geojson_open # features (readable_points rows) @ [Raw '']}''])
          (length (readable_points rows) \<noteq> length rows))) \<and>
    (gpxExportHandler r a = (resp, a') \<longrightarrow>
      rs_body resp = (if rows = [] then ExportBody [EmptyGPX] False
        else ExportBody (gpx_open @ map TrackPoint (readable_points rows) @ [Raw ''</trkseg></trk></gpx>''])
          (length (readable_points rows) \<noteq> length rows)))"
proof -
  let ?f = "f0\<lparr>F_UserID := User_ID u\<rparr>"
  have f: "F_AfterSeq ?f = 0" using filter_fields [OF assms(1)] by simp
  note n = export_limit [OF assms(3)]
  have gen: "rs_body resp = (if rows = [] then nothing
      else finish (snd (fold (\<lambda>p s. snd (emit p s)) (readable_points rows) (True, prolog)))
        (length (readable_points rows) \<noteq> length rows))"
    if run: "exportHandler failure nothing (\<lambda>f n q d. case streamExport emit f n q prolog d of
          ((out, failed), d1) \<Rightarrow> (finish out failed, d1)) r a = (resp, a')"
      and ok: "\<forall>p s. fst (emit p s) = Inr ()" for failure nothing emit prolog finish
  proof -
    let ?stream = "\<lambda>f n q d. case streamExport emit f n q prolog d of ((out, failed), d1) \<Rightarrow> (finish out failed, d1)"
    obtain f1 u1 n1 b p c where same: "exportFilterFromRequest r = Inr f1" "rq_user r = Some u1"
        "parseOptionalLimitParamWithMax r 5000 20000 = Inr n1"
      and tb1: "tables (ap_store b) = tables (ap_store a)" and cb: "calm (ap_store a) \<longrightarrow> calm (ap_store b)"
      and pr1: "on_store (probeExportFirstPoint (f1\<lparr>F_UserID := User_ID u1\<rparr>)) b = (Inr p, c)"
      and out1: "case p of None \<Rightarrow> (resp, a') = (writeJSON 200 nothing, c)
         | Some q \<Rightarrow> (case ?stream (f1\<lparr>F_UserID := User_ID u1\<rparr>) n1 q (ap_store c) of
             (body, d) \<Rightarrow> (resp, a') = (writeJSON 200 body, set_store d c))"
      by (rule exportHandler_ok [OF run assms(8)])
    have eqs: "f1 = f0" "u1 = u" "n1 = n" using same assms(1-3) by simp_all
    note tb = tb1 mp [OF cb assms(5)] and pr = pr1 [unfolded eqs] and out = out1 [unfolded eqs]
    note P = probe_reads [OF pr f]
    have tc: "tables (ap_store c) = tables (ap_store a)" "calm (ap_store c)" using P tb by simp_all
    show ?thesis
    proof (cases "select_points ?f 0 (tables (ap_store a))")
      case Nil
      then show ?thesis using P tb out assms(4) by (simp add: writeJSON_def)
    next
      case (Cons row rest)
      then obtain q where q: "scanPoint row = Inr q" "p = Some q" using P tb by auto
      obtain ps where ps: "readable_points rows = q # ps" and ne: "rows \<noteq> []"
        using assms(4) Cons q n by (cases "nat n") simp_all
      have sub: "set rows \<subseteq> set (raw_points (tables (ap_store a)))"
        using set_take_subset by (fastforce simp: assms(4) select_points_def by_time_def)
      have "distinct (map rp_seq rows)" using assms(6)
        by (simp add: assms(4) select_points_def by_time_def distinct_map inj_on_def take_map [symmetric] distinct_take)
      then have other: "\<forall>p \<in> set ps. RP_Seq p \<noteq> RP_Seq q"
        using seqs_distinct_readable [OF ps] sub assms(7) by blast
      obtain res d where st1: "streamExport emit ?f n q prolog (ap_store c) = (res, d)" by (rule prod.exhaust)
      obtain out' failed where "res = (out', failed)" by (rule prod.exhaust)
      with st1 have st: "streamExport emit ?f n q prolog (ap_store c) = ((out', failed), d)" by simp
      have rd: "readable_points (take (nat n) (select_points ?f 0 (tables (ap_store c)))) = q # ps"
        using ps assms(4) tc by simp
      have "n \<le> 50000" using n by simp
      from streamExport_result [OF st f _ this ok tc(2) rd other] n
      have "out' = snd (fold (\<lambda>p s. snd (emit p s)) (q # ps) (True, prolog))" "failed = (length (q # ps) \<noteq> length rows)"
        using assms(4) tc(1) by (simp_all only: simp_thms)
      with out q st ps ne show ?thesis by (simp add: writeJSON_def)
    qed
  qed
  have emits: "\<forall>p s. fst (writeFeature p s) = Inr ()" "\<forall>p s. fst (writeTrackPoint p s) = Inr ()"
    by (auto simp: writeFeature_def writeTrackPoint_def)
  have feats: "snd (fold (\<lambda>p s. snd (writeFeature p s)) ps (True, out)) = out @ features ps" for ps out
  proof (cases ps)
    case (Cons p qs)
    have "snd (writeFeature p (True, out)) = (False, out @ [Feature p])" by (simp add: writeFeature_def)
    then show ?thesis unfolding Cons features_Cons fold_simps by (simp add: fold_features)
  qed simp
  show ?thesis
    using gen [OF _ emits(1), where failure = "''failed to prepare geojson export''" and prolog = "[geojson_open]"
        and nothing = "ExportBody [geojson_open, Raw '']}'', Raw [newline]] False"
        and finish = "\<lambda>out failed. ExportBody (out @ [Raw '']}'']) failed"]
      gen [OF _ emits(2), where failure = "''failed to prepare gpx export''" and prolog = gpx_open
        and nothing = "ExportBody [EmptyGPX] False"
        and finish = "\<lambda>out failed. ExportBody (out @ [Raw ''</trkseg></trk></gpx>'']) failed"]
    by (simp add: geoJSONExportHandler_def gpxExportHandler_def feats fold_track)
qed

text \<open>
  A simplified page never continues: with \<^verbatim>\<open>simplify\<close> and a limit of at least 5000 (which is also the
  default then), the answer carries no cursor, however many rows match, because the store returns 5000 rows
  at most and the page concludes from a count of more than the limit that there are more.
\<close>

theorem simplified_page_never_continues:
  assumes "parseOptionalBoolParam (rq_query r ''simplify'')"
    and "parseOptionalLimitParamWithMax r 5000 20000 = Inr n" and "5000 \<le> n"
    and "pointsHandler r a = (resp, a')" and "rs_body resp = PointsPageBody page"
  shows "pp_next_cursor page = None"
proof -
  have e: "rs_body (writeJSONError code m) \<noteq> PointsPageBody page" for code m
    by (simp add: writeJSONError_def writeJSON_def)
  have q: "pp_next_cursor page = None" if "pointsQuery f r b = (resp, a')" for f b
    using pointsQuery_cases [OF that]
  proof (elim disjE exE conjE)
    fix f1 k out simplify m
    assume l: "on_store (ListPoints f1 (k + 1)) b = (Inr out, a')" and simp: "simplify = parseOptionalBoolParam (rq_query r ''simplify'')"
      and lim: "simplify \<longrightarrow> parseOptionalLimitParamWithMax r 5000 20000 = Inr k"
      and resp: "resp = writeJSON 200 (PointsPageBody (pointsPage out k simplify m))"
    obtain d1 where "ListPoints f1 (k + 1) (ap_store b) = (Inr out, d1)"
      using l by (auto simp: on_store_def split: prod.splits)
    from conjunct2 [OF ListPoints_success [OF this]] have "length out \<le> nat (clamp 500 5000 (k + 1))"
      by (auto dest: list_all2_lengthD)
    moreover have "k = n" using simp lim assms(1,2) by simp
    ultimately have "int (length out) \<le> k" using assms(3) by (simp add: clamp_def split: if_splits)
    then show ?thesis using resp assms(5) by (simp add: pointsPage_def Let_def writeJSON_def) auto
  qed (use e assms(5) in simp)
  have empty: "pp_next_cursor empty_page = None" by (simp add: empty_page_def)
  show ?thesis
    using assms(4,5) e q empty
    by (auto simp: pointsHandler_def Let_def writeJSON_def split: sum.splits option.splits prod.splits if_splits)
qed

text \<open>
  The recent points are cut to the limit before they are restricted to the user: when the newest rows are all
  of other users the answer is empty, whatever the user has stored.
\<close>

lemma recent_points_crowded_out:
  assumes "recentPointsHandler r a = (resp, a')" and "rs_status resp = 200"
    and "parseOptionalDeviceIDParam (rq_query r ''device_id'') = Inr None" and "parseOptionalLimitParam r 50 = Inr n"
    and "rq_user r = Some u"
    and "\<forall>row \<in> set (take (nat (clamp 50 500 n)) (rev (by_time (raw_points (tables (ap_store a)))))). rp_user_id row \<noteq> User_ID u"
  shows "rs_body resp = RecentPointsBody []"
proof -
  have no: "rs_status (writeJSONError code m) = code" for code m by (simp add: writeJSONError_def writeJSON_def)
  obtain x b where al: "currentUserAllowedDeviceIDs r a = (x, b)" by fastforce
  obtain allowed where x: "x = Inr allowed"
    using assms(1-5) al no by (cases x) (auto simp: recentPointsHandler_def httpStatusFromOwnershipError_def split: ownershipError.splits)
  obtain y c where l: "on_store (ListRecentPoints None n) b = (y, c)" by fastforce
  obtain out where y: "y = Inr out" using assms(1-5) al x l no by (cases y) (auto simp: recentPointsHandler_def)
  obtain d1 where "ListRecentPoints None n (ap_store b) = (Inr out, d1)"
    using l y by (auto simp: on_store_def split: prod.splits)
  note R = ListRecentPoints_success [OF this, unfolded allowed_reads [OF al]]
  have "RP_UserID p \<noteq> User_ID u" if p: "p \<in> set out" for p
  proof -
    obtain row where "row \<in> set (take (nat (clamp 50 500 n)) (rev (by_time (raw_points (tables (ap_store a))))))"
      "scanPoint row = Inr p" using list_all2_origin [OF R p] by auto
    then show ?thesis using assms(6) scanPoint_fields by metis
  qed
  then have "filter (\<lambda>p. RP_DeviceID p \<in> set allowed \<and> RP_UserID p = User_ID u) out = []" by (simp add: filter_empty_conv)
  then show ?thesis using assms(1-5) al x l y by (auto simp: recentPointsHandler_def writeJSON_def)
qed

section \<open>Witnesses\<close>

definition reader_db :: dbstate where
  "reader_db = points_db\<lparr>tables := (tables points_db)\<lparr>
     users := [\<lparr>u_id = 1, u_name = ''a'', u_email = Some ''a@b'', u_password_hash = ''h'', u_is_admin = 0,
       u_created_at = fmt_RFC3339Nano second, u_updated_at = fmt_RFC3339Nano second\<rparr>], last_user_id := 1,
     sessions := [\<lparr>s_token = ''tok'', s_user_id = 1, s_expires_at = fmt_RFC3339Nano second, s_created_at = fmt_RFC3339Nano 0\<rparr>]\<rparr>\<rparr>"

definition reader_request :: Request where
  "reader_request =
     \<lparr>rq_header = (\<lambda>_. []), rq_cookies = [(sessionCookieName, ''tok'')],
      rq_query = (\<lambda>q. if q = ''simplify'' then ''1'' else []), rq_form = (\<lambda>_. []), rq_form_ok = True,
      rq_path = ''/api/v1/points'', rq_rawquery = [], rq_pathvalue = (\<lambda>_. []), rq_remote = ''10.0.0.1:5'',
      rq_tls = True, rq_body = None, rq_user = None, rq_device = None\<rparr>"

lemma reader_page:
  assumes "User_ID u = 1" and "calm d" and "tables d = tables reader_db"
  shows "\<exists>out a'. pointsHandler (reader_request\<lparr>rq_user := Some u\<rparr>) (set_store d (sample_app reader_db)) =
    (writeJSON 200 (PointsPageBody (pointsPage out 5000 True 1000)), a')"
proof -
  let ?r = "reader_request\<lparr>rq_user := Some u\<rparr>"
  have "exportFilterFromRequest ?r =
      Inr \<lparr>F_DeviceRowID = None, F_FromUTC = None, F_ToUTC = None, F_AfterSeq = 0, F_UserID = 0\<rparr>"
    by (simp add: exportFilterFromRequest_def reader_request_def parseOptionalDeviceIDParam_def parseOptionalRFC3339Param_def)
  moreover obtain out d3 where "ListPoints \<lparr>F_DeviceRowID = None, F_FromUTC = None, F_ToUTC = None, F_AfterSeq = 0, F_UserID = 1\<rparr>
      5001 d = (Inr out, d3)"
  proof -
    have "\<forall>row \<in> set (raw_points (tables d)). \<exists>p. scanPoint row = Inr p"
      using points_db_readable assms(3) by (simp add: reader_db_def)
    then show thesis
      using that assms(2) ListPoints_runs [of d "\<lparr>F_DeviceRowID = None, F_FromUTC = None, F_ToUTC = None, F_AfterSeq = 0, F_UserID = 1\<rparr>" 5001 thesis]
      by simp
  qed
  moreover have "parseOptionalLimitParamWithMax ?r k m = Inr k" "parseOptionalCursorParam ?r = Inr 0"
    "parseOptionalMaxPointsParam ?r k m = Inr k" "parseOptionalBoolParam (rq_query ?r ''simplify'')" for k m
  proof -
    have "trimSpace ''1'' = ''1''" by (rule trimSpace_graphic(1)) (simp_all add: graphic_def)
    then show "parseOptionalBoolParam (rq_query ?r ''simplify'')"
      by (simp add: parseOptionalBoolParam_def reader_request_def) code_simp
  qed (simp_all add: parseOptionalLimitParamWithMax_def parseOptionalCursorParam_def parseOptionalMaxPointsParam_def reader_request_def)
  ultimately show ?thesis
    using assms(1) by (simp add: pointsHandler_def Let_def pointsQuery_def pageLimits_def on_store_def) blast
qed

lemma reader_status:
  "rs_status (fst (LoadCurrentUserFromSession (RequireUserSessionAuth pointsHandler) reader_request (sample_app reader_db))) = 200"
proof -
  let ?a = "sample_app reader_db"
  let ?s = "\<lparr>Session_Token = ''tok'', Session_UserID = 1, Session_ExpiresAt = second, Session_CreatedAt = 0\<rparr>"
  let ?d1 = "reader_db\<lparr>dbcalls := 1, dbticks := 1\<rparr>" and ?d2 = "reader_db\<lparr>dbcalls := 2, dbticks := 1\<rparr>"
  let ?u = "\<lparr>User_ID = 1, User_Name = ''a'', User_Email = ''a@b'', User_PasswordHash = ''h'', User_IsAdmin = False,
     User_CreatedAt = second, User_UpdatedAt = second\<rparr>"
  have tok: "trimSpace ''tok'' = ''tok''" by (rule trimSpace_graphic(1)) (simp_all add: graphic_def)
  have vt: "valid_time second" "valid_time 0" by (simp_all add: valid_time_def)
  have get: "GetSession ''tok'' reader_db = (Inr ?s, ?d1)"
    by (simp add: GetSession_def tok Let_def bindE_def query_def exec_def reader_db_def points_db_def scanSession_def vt
        fromE_def time_Now_def returnE_def empty_tables_def)
  have user: "GetUserByID 1 ?d1 = (Inr ?u, ?d2)"
    by (simp add: GetUserByID_def bindE_def query_def exec_def reader_db_def points_db_def scanUser_def vt fromE_def
        empty_tables_def Let_def)
  have "on_store (GetSession ''tok'') ?a = (Inr ?s, set_store ?d1 ?a)" "on_store (GetUserByID 1) (set_store ?d1 ?a) = (Inr ?u, set_store ?d2 ?a)"
    using get user by (simp_all add: on_store_def sample_app_def)
  then have "LoadCurrentUserFromSession (RequireUserSessionAuth pointsHandler) reader_request ?a =
      pointsHandler (reader_request\<lparr>rq_user := Some ?u\<rparr>) (set_store ?d2 ?a)"
    by (simp add: LoadCurrentUserFromSession_def reader_request_def request_Cookie_def tok Let_def RequireUserSessionAuth_def)
  moreover have "\<exists>out a'. pointsHandler (reader_request\<lparr>rq_user := Some ?u\<rparr>) (set_store ?d2 ?a) =
      (writeJSON 200 (PointsPageBody (pointsPage out 5000 True 1000)), a')"
    by (rule reader_page) (simp_all add: calm_def reader_db_def points_db_def)
  ultimately show ?thesis by (auto simp: writeJSON_def)
qed

theorem points_answers_are_own_witness:
  "\<exists>resp a'. LoadCurrentUserFromSession (RequireUserSessionAuth pointsHandler) reader_request (sample_app reader_db) = (resp, a') \<and>
     rs_status resp = 200 \<and> own_points 1 (tables reader_db) (rs_body resp)"
proof -
  obtain resp a' where run: "LoadCurrentUserFromSession (RequireUserSessionAuth pointsHandler) reader_request (sample_app reader_db) = (resp, a')"
    by fastforce
  have ok: "rs_status resp = 200" using reader_status run by simp
  have "rq_user reader_request = None" by (simp add: reader_request_def)
  from points_answers_are_own [OF _ this run ok]
  show ?thesis using run ok by (auto simp: sample_app_def reader_db_def)
qed

text \<open>The same reader, signed in already, for the handlers themselves, and a database with one point.\<close>

definition reader :: User where
  "reader = \<lparr>User_ID = 1, User_Name = [], User_Email = [], User_PasswordHash = [], User_IsAdmin = False,
     User_CreatedAt = 0, User_UpdatedAt = 0\<rparr>"

theorem simplified_page_never_continues_witness:
  "\<exists>page a'. pointsHandler (reader_request\<lparr>rq_user := Some reader\<rparr>) (set_store reader_db (sample_app reader_db)) =
     (writeJSON 200 (PointsPageBody page), a') \<and> pp_next_cursor page = None"
proof -
  let ?r = "reader_request\<lparr>rq_user := Some reader\<rparr>"
  obtain out a' where run: "pointsHandler ?r (set_store reader_db (sample_app reader_db)) =
      (writeJSON 200 (PointsPageBody (pointsPage out 5000 True 1000)), a')"
    using reader_page [of reader reader_db] by (auto simp: reader_def calm_def reader_db_def points_db_def)
  have "parseOptionalLimitParamWithMax ?r 5000 20000 = Inr 5000"
    by (simp add: parseOptionalLimitParamWithMax_def reader_request_def)
  moreover have "trimSpace ''1'' = ''1''" by (rule trimSpace_graphic(1)) (simp_all add: graphic_def)
  then have "parseOptionalBoolParam (rq_query ?r ''simplify'')"
    by (simp add: parseOptionalBoolParam_def reader_request_def) code_simp
  ultimately have "pp_next_cursor (pointsPage out 5000 True 1000) = None"
    using simplified_page_never_continues [of ?r 5000 _ _ a', OF _ _ _ run] by (simp add: writeJSON_def)
  with run show ?thesis by blast
qed

definition one_point_db :: dbstate where
  "one_point_db = points_db\<lparr>tables := empty_tables\<lparr>raw_points := [sample_row 1 1 second]\<rparr>\<rparr>"

theorem export_lists_rows_witness:
  "\<exists>resp a' p. gpxExportHandler (reader_request\<lparr>rq_user := Some reader\<rparr>) (sample_app one_point_db) = (resp, a') \<and>
     scanPoint (sample_row 1 1 second) = Inr p \<and>
     rs_body resp = ExportBody (gpx_open @ [TrackPoint p] @ [Raw ''</trkseg></trk></gpx>'']) False"
proof -
  let ?r = "reader_request\<lparr>rq_user := Some reader\<rparr>"
  let ?f = "\<lparr>F_DeviceRowID = None, F_FromUTC = None, F_ToUTC = None, F_AfterSeq = 0, F_UserID = 0\<rparr>"
  let ?row = "sample_row 1 1 second"
  have par: "exportFilterFromRequest ?r = Inr ?f" "parseOptionalLimitParamWithMax ?r 5000 20000 = Inr 5000"
    by (simp_all add: exportFilterFromRequest_def reader_request_def parseOptionalDeviceIDParam_def
        parseOptionalRFC3339Param_def parseOptionalLimitParamWithMax_def)
  have user: "rq_user ?r = Some reader" "User_ID reader = 1" by (simp_all add: reader_def)
  obtain p where p: "scanPoint ?row = Inr p" by (simp add: sample_row_def scanPoint_def valid_time_def)
  have sel: "select_points (?f\<lparr>F_UserID := 1\<rparr>) 0 (tables one_point_db) = [?row]"
    by (simp add: select_points_def by_time_def one_point_db_def point_where_def in_range_text_def sample_row_def)
  obtain resp a' where run: "gpxExportHandler ?r (sample_app one_point_db) = (resp, a')" by fastforce
  have calm: "calm one_point_db" by (simp add: one_point_db_def points_db_def calm_def)
  have q: "query (\<lambda>t. Inr (take k (select_points (?f\<lparr>F_UserID := 1\<rparr>) 0 t))) d = (Inr (take k [?row]), d\<lparr>dbcalls := Suc (dbcalls d)\<rparr>)"
    if "calm d" "tables d = tables one_point_db" for d k
    using that sel by (simp add: query_def exec_def calm_def Let_def)
  have "rs_status resp = 200"
    using run par user p q [OF calm refl] calm
    by (auto simp: gpxExportHandler_def exportHandler_def Let_def on_store_def probeExportFirstPoint_def
        StreamPointsForExport_def bindE_def fromE_def bindUint64_def clamp_def sample_app_def writeJSON_def split: prod.splits)
  then have "rs_body resp = ExportBody (gpx_open @ map TrackPoint (readable_points [?row]) @ [Raw ''</trkseg></trk></gpx>''])
      (length (readable_points [?row]) \<noteq> length [?row])"
    using export_lists_rows [OF par(1) user(1) par(2) refl, of "sample_app one_point_db" resp a'] run sel calm user(2)
    by (simp add: sample_app_def) (simp add: one_point_db_def sample_row_def)
  with run p show ?thesis by auto
qed

end
