(* ===== verification/Spec2Isabelle.thy ===== *)
theory Spec2Isabelle
  imports Recovery StoreHistory ApiIngest ApiPoints
begin

text \<open>
  A verification library for the Exploripi server (Go, packages under \<^verbatim>\<open>src/internal\<close>): a location
  tracker that accepts points over HTTP, spools them to disk, buffers them in RAM, commits them in
  batches to SQLite, and serves maps, exports and visits from there.

  \<^bold>\<open>How the program works.\<close> A request of a device is authenticated by its key
  (\<^verbatim>\<open>internal/api/auth.go\<close>, \<^verbatim>\<open>internal/store/devices.go\<close>), parsed (\<^verbatim>\<open>internal/ingest\<close>), appended to the
  segment files of the spool (\<^verbatim>\<open>internal/spool\<close>) and put into the buffer
  (\<^verbatim>\<open>internal/buffer/manager.go\<close>); only then it is acknowledged. A goroutine
  (\<^verbatim>\<open>internal/flusher/flusher.go\<close>) drains the buffer in batches, writes each batch in one transaction
  (\<^verbatim>\<open>internal/store/sqlite_store.go\<close>), advances the checkpoint of the spool, and lets the spool delete
  the segments that lie below it. After a restart \<^verbatim>\<open>internal/tasks/startup_recovery.go\<close> replays what the
  checkpoint does not cover. Visits are recomputed from the stored points
  (\<^verbatim>\<open>internal/visits/detector.go\<close>, \<^verbatim>\<open>internal/store/visits.go\<close>).

  \<^bold>\<open>The theories.\<close> Names of definitions are those of the Go functions, methods and types; a method
  with receiver \<open>*T\<close> is a function from its arguments to \<open>T \<Rightarrow> (error + result) \<times> T\<close> (\<open>gomethod\<close> of
  \<open>Prelude\<close>), composed with \<open>bindE\<close>, the \<^verbatim>\<open>if err != nil { return err }\<close> of the sources.

  \<^item> \<open>Prelude\<close>: Go's types and the functions of \<^verbatim>\<open>strings\<close>, \<^verbatim>\<open>strconv\<close>, \<^verbatim>\<open>time\<close> the sources call, errors as
    values, shared lemmas. \<open>Sha256\<close>: \<^verbatim>\<open>crypto/sha256\<close> and hexadecimal text. \<open>GoTime\<close>, \<open>Timestamps\<close>: the
    layout \<^verbatim>\<open>RFC3339Nano\<close>, and that what is formatted with it parses back to the same instant.
  \<^item> \<open>Ingest\<close> (\<^verbatim>\<open>internal/ingest\<close>): both payload parsers, with the exact condition under which they accept;
    the ingest hash.
  \<^item> \<open>Codec\<close> (\<^verbatim>\<open>record_codec.go\<close>, \<^verbatim>\<open>checkpoint.go\<close>): records and checkpoints as lines of text, and the round
    trip.
  \<^item> \<open>Geo\<close>, \<open>Visits\<close> (\<^verbatim>\<open>internal/visits/detector.go\<close>): the two copies of the distance function agree and are
    a distance; the detector computes the windows of a direct definition.
  \<^item> \<open>Buffer\<close> (\<^verbatim>\<open>internal/buffer/manager.go\<close>): the queue, its limits and counters, near duplicates.
  \<^item> \<open>FileSys\<close>, \<open>Spool\<close>, \<open>SpoolAppend\<close>, \<open>SpoolFaults\<close> (\<^verbatim>\<open>internal/spool\<close>): files with their synced prefix and
    a stream of faults; append, replay, checkpoint, compaction; the invariant of the directory
    (\<open>spool_inv\<close>), of a run (\<open>run_inv\<close>, reachable states as \<open>spool_reach\<close>) and of its durability; what
    survives a crash; and the cases that are not survived.
  \<^item> \<open>Database\<close>, \<open>StoreInsert\<close>, \<open>StoreDevices\<close>, \<open>StoreAccounts\<close>, \<open>StorePoints\<close>, \<open>StoreVisits\<close>
    (\<^verbatim>\<open>internal/store\<close>): the tables with their constraints (\<open>db_inv\<close>), transactions, and every operation of
    the package except the migrator. \<open>keeps\<close> is the rule set for properties that every outcome of an
    operation keeps, \<open>runs\<close> the one for the operations that succeed when the driver does not fail.
  \<^item> \<open>Interfaces\<close>, \<open>Flusher\<close> (\<^verbatim>\<open>internal/flusher/flusher.go\<close>): one locale per Go interface the flusher uses
    (\<open>flush_buffer\<close>, \<open>flush_store\<close>, \<open>checkpoint_manager\<close>), the flusher written once over a record of their
    methods, and its lemmas proved once in the locale \<open>flusher\<close>. The components interpret the locales:
    \<open>ram\<close> (\<open>Buffer\<close>), \<open>sqlite\<close> (\<open>StoreInsert\<close>), \<open>disk\<close> (\<open>Spool\<close>).
  \<^item> \<open>Pipeline\<close> (\<^verbatim>\<open>appendAndEnqueue\<close> of \<^verbatim>\<open>internal/api/ingest.go\<close> with all of the above): the interpretations
    \<open>live\<close> and \<open>pipe\<close> of a running server and \<open>numbered\<close> and \<open>boot\<close> of a restarted one; requests and flushes as
    the steps of \<open>server_step\<close>; no acknowledged record is lost along any sequence of steps.
  \<^item> \<open>Recovery\<close> (\<^verbatim>\<open>internal/tasks/startup_recovery.go\<close>), \<open>RateLimit\<close> (\<^verbatim>\<open>internal/api/rate_limit.go\<close>).
  \<^item> \<open>Outcomes\<close>: exact outcomes of the read operations of the store (\<open>yields\<close>, \<open>reads\<close>), which the theories
    below share. \<open>StoreHistory\<close>: the operations of the store as the steps of \<open>store_step\<close>, and what holds after
    every sequence of them. \<open>Scheduler\<close> (\<^verbatim>\<open>internal/tasks/visit_scheduler.go\<close>): the devices whose visits
    are recomputed in a run, the watermark of a device and the status that is reported.
  \<^item> \<open>Http\<close> (\<^verbatim>\<open>auth.go\<close>, \<^verbatim>\<open>session_auth.go\<close>, \<^verbatim>\<open>csrf.go\<close>, \<^verbatim>\<open>cookie_security.go\<close>, \<^verbatim>\<open>password.go\<close> of
    \<^verbatim>\<open>internal/api\<close>): requests, answers and the state \<open>app\<close> of the server; a handler is a function
    \<open>Request \<Rightarrow> app \<Rightarrow> Response \<times> app\<close>, a middleware maps handlers to handlers. On top of it \<open>Login\<close>
    (\<^verbatim>\<open>login.go\<close>), \<open>ApiIngest\<close> (\<^verbatim>\<open>ingest.go\<close>) and \<open>ApiPoints\<close> (\<^verbatim>\<open>points.go\<close>, \<^verbatim>\<open>exports.go\<close>). An answer
    keeps the values its JSON, GeoJSON or GPX is printed from, not the bytes.

  \<^bold>\<open>What the theorems show.\<close> Safety of the write path: an acknowledged record is in the database, or
  suppressed as a near duplicate, or still in the buffer and in the replay of the spool; a flush pass
  hands over exactly the records it drains and loses none when the store or the checkpoint fails; a batch is
  inserted atomically and repeating a committed batch succeeds without effect; flush loops end. The
  spool: replay returns what was appended above the checkpoint, the checkpoint never moves back,
  compaction does not change the replay, and a crash takes at most the bytes not yet synced. The store:
  keys authenticate exactly their device and stop doing so on rotation, accounts and sessions,
  tenant isolation and order of queries, atomic replacement of visits, foreign keys and uniqueness after any
  history of operations. Parsers: what they accept is within range. The scheduler: every
  device has its turn within a bounded number of runs, a device is recomputed exactly when it has new points.
  The API: a session is opened only for the password of the account, whatever a device sends is stored under that
  device and its owner, and every listing and export shows only points of the signed-in user. The negative theorems exhibit behaviour that the code has and does not intend:
  sequence numbers that restart at 1, a failed checkpoint write or a torn line that blocks every later
  replay, text comparison of timestamps, a body that a second device sends and that is dropped, pages that
  end too early, and more.

  \<^bold>\<open>Modelling choices.\<close>
  \<^item> \<^verbatim>\<open>float64\<close> is \<^typ>\<open>real\<close>: rounding, infinities and NaN are not modelled. \<^verbatim>\<open>uint64\<close> is \<open>64 word\<close>, a duration
    wraps at 64 bits; a Go \<^verbatim>\<open>int\<close> that counts things in memory is an \<^typ>\<open>int\<close>. \<^verbatim>\<open>strings.ToLower\<close> maps ASCII
    letters only; \<^verbatim>\<open>TrimSpace\<close> knows the Unicode spaces.
  \<^item> \<^verbatim>\<open>encoding/json\<close> is an argument (\<open>json_lib\<close>, \<open>codec\<close>) with the laws \<open>codec_ok\<close>; the witnesses instantiate it.
  \<^item> SQL statements are functions of the tables, read off their text and the migrations. A conflict on the
    \<^verbatim>\<open>ON CONFLICT\<close> target is looked at before the other constraints. The rows of a query come with the
    call. The schema is the one after all migrations. Every call of the driver takes its outcome from a
    stream of faults, clock readings and random bytes from streams too: the theorems hold for all of them.
  \<^item> Files: creating, truncating and removing count as durable at once; a short write leaves a prefix. The
    iteration order of Go maps does not matter where one is iterated. The constants of SHA-256 are in
    decimal.
  \<^item> Goroutines: a critical section is one step; steps interleave in any order.
  \<^item> Fuel and loops: no fuel is used. Loops over indices are functions with a measure, loops that may not
    end are partial functions into \<^typ>\<open>'a option\<close> with a theorem that they return.

  \<^bold>\<open>Not modelled.\<close> Pages and their assets (\<^verbatim>\<open>ui.go\<close>, \<^verbatim>\<open>ui_assets.go\<close>), the handlers of \<^verbatim>\<open>visits.go\<close>,
  \<^verbatim>\<open>devices.go\<close> and \<^verbatim>\<open>users.go\<close> (the store operations behind them are), \<^verbatim>\<open>health.go\<close>, \<^verbatim>\<open>status.go\<close>,
  \<^verbatim>\<open>security_headers.go\<close>, the registration of routes, migrations (\<^verbatim>\<open>migrator.go\<close> runs SQL files), the
  geocoder, the reading of the configuration, process start-up (\<^verbatim>\<open>cmd\<close>), log output.
\<close>

end
